theory Spec2Isabelle
  imports Main "HOL-Library.Word"
begin

unbundle bit_operations_syntax

section \<open>ZedStore TID tree and attribute tree: data model\<close>

text \<open>
  A \<open>zstid\<close> is a 48-bit logical tuple identifier carried in a \<open>uint64\<close>.  All sums the
  code forms (\<open>t_tid + t_nelements\<close>, \<open>tid + 1\<close>) stay far below \<open>2^64\<close>, so TIDs are
  modelled as natural numbers.  Block numbers are natural numbers as well and
  \<open>InvalidBlockNumber\<close> / \<open>InvalidBuffer\<close> is \<open>None\<close>.
\<close>

type_synonym zstid = nat
type_synonym BlockNumber = nat

text \<open>
  Compile-time constants that live in headers outside the two C files
  (\<open>BLCKSZ\<close>, \<open>SizeOfPageHeaderData\<close>, the \<open>sizeof\<close> of the page opaque and of a TID
  array item, \<open>MaxZSTid\<close>, \<open>maintenance_work_mem\<close>) are parameters of the model.
\<close>

record zs_params =
  BLCKSZ :: nat
  SizeOfPageHeaderData :: nat
  sizeof_ZSBtreePageOpaque :: nat
  sizeof_ZSTidArrayItem :: nat
  MaxZSTid :: zstid
  ZSBT_ROOT :: "16 word"
  maintenance_work_mem :: nat

definition InvalidZSTid :: zstid where
  "InvalidZSTid = 0"

definition MaxPlusOneZSTid :: "zs_params \<Rightarrow> zstid" where
  "MaxPlusOneZSTid P = MaxZSTid P + 1"

definition MAXALIGN :: "nat \<Rightarrow> nat" where
  "MAXALIGN n = ((n + 7) div 8) * 8"

text \<open>Every \<open>elog(ERROR, ...)\<close> of the modelled functions, and the arithmetic trap.\<close>

datatype zs_error =
    CouldNotFindTupleToDelete
  | CannotDeleteDeadTuple
  | CouldNotFindOldTupleToUpdate
  | TupleConcurrentlyUpdated
  | CouldNotFindTupleToLock
  | CouldNotFindItemToReplace
  | NextPointerPointsToItself
  | DuplicateTIDOnAttributePage
  | ShouldntReachHere
  | DivisionByZero
  | InvalidBufferAccess
  | IntsetOutOfOrder
  | SerializationFailure

text \<open>
  Modelled from the spec: an undo pointer is an opaque reference into the external undo
  log (\<open>zedstore_undo.h\<close> is not among the sources).  The model keeps the pointer's
  counter; \<open>InvalidUndoPtr\<close> is the pointer with counter 0 and \<open>ZSUndoRecPtrEquals\<close> is
  equality.
\<close>

type_synonym ZSUndoRecPtr = nat

definition InvalidUndoPtr :: ZSUndoRecPtr where
  "InvalidUndoPtr = 0"

definition ZSUndoRecPtrEquals :: "ZSUndoRecPtr \<Rightarrow> ZSUndoRecPtr \<Rightarrow> bool" where
  "ZSUndoRecPtrEquals a b = (a = b)"

text \<open>
  A TID array item stands for the dense run \<open>[t_tid, t_tid + t_nelements)\<close>.
  Modelled from the spec: the item's field types and the \<open>DEAD\<close> flag (bit 0) come from
  \<open>zedstore_internal.h\<close>, which is not among the sources; so does
  \<open>zsbt_tid_item_lasttid\<close>, the last TID of the run.
\<close>

record ZSTidArrayItem =
  t_tid :: zstid
  t_nelements :: nat
  t_undo_ptr :: ZSUndoRecPtr
  t_flags :: "8 word"

definition ZSBT_TID_DEAD :: "8 word" where
  "ZSBT_TID_DEAD = 1"

definition item_is_dead :: "ZSTidArrayItem \<Rightarrow> bool" where
  "item_is_dead item = ((t_flags item AND ZSBT_TID_DEAD) \<noteq> 0)"

definition zsbt_tid_item_lasttid :: "ZSTidArrayItem \<Rightarrow> zstid" where
  "zsbt_tid_item_lasttid item = t_tid item + t_nelements item - 1"

definition item_covers :: "ZSTidArrayItem \<Rightarrow> zstid \<Rightarrow> bool" where
  "item_covers item tid = (t_tid item \<le> tid \<and> t_tid item + t_nelements item > tid)"

text \<open>
  A leaf page of the TID tree: the opaque fields the code reads and the item array.
  The tree is represented by its leaf pages, indexed by block number; the internal
  pages and the metapage belong to \<open>zedstore_btree.c\<close>, which is not among the sources.
\<close>

record ZSTidPage =
  zs_next :: "BlockNumber option"
  zs_lokey :: zstid
  zs_hikey :: zstid
  zs_flags :: "16 word"
  tiditems :: "ZSTidArrayItem list"

type_synonym tidtree = "ZSTidPage list"

text \<open>\<open>pd_upper - pd_lower\<close>, never negative, as \<open>PageGetExactFreeSpace\<close> returns it.\<close>

definition PageGetExactFreeSpace :: "zs_params \<Rightarrow> ZSTidPage \<Rightarrow> nat" where
  "PageGetExactFreeSpace P page =
     (BLCKSZ P - MAXALIGN (sizeof_ZSBtreePageOpaque P))
       - (SizeOfPageHeaderData P + length (tiditems page) * sizeof_ZSTidArrayItem P)"

text \<open>
  Modelled from the spec: \<open>zsbt_descend\<close> (\<open>zedstore_btree.c\<close>, not among the sources)
  returns the leaf with \<open>lokey \<le> tid < hikey\<close>, or no buffer when there is none (the
  completely empty tree).  The leaf is looked up among the leaf pages.
\<close>

definition zsbt_page_is_expected :: "tidtree \<Rightarrow> zstid \<Rightarrow> BlockNumber \<Rightarrow> bool" where
  "zsbt_page_is_expected tree tid buf =
     (buf < length tree \<and> zs_lokey (tree ! buf) \<le> tid \<and> tid < zs_hikey (tree ! buf))"

fun find_leaf :: "tidtree \<Rightarrow> zstid \<Rightarrow> BlockNumber \<Rightarrow> BlockNumber option" where
  "find_leaf [] tid b = None"
| "find_leaf (page # pages) tid b =
     (if zs_lokey page \<le> tid \<and> tid < zs_hikey page then Some b
      else find_leaf pages tid (Suc b))"

definition zsbt_descend :: "tidtree \<Rightarrow> zstid \<Rightarrow> BlockNumber option" where
  "zsbt_descend tree tid = find_leaf tree tid 0"

section \<open>Split sizing: \<open>zsbt_tid_recompress_picksplit\<close>\<close>

definition space_on_empty_page :: "zs_params \<Rightarrow> nat" where
  "space_on_empty_page P =
     BLCKSZ P - MAXALIGN (SizeOfPageHeaderData P) - MAXALIGN (sizeof_ZSBtreePageOpaque P)"

text \<open>
  The rightmost branch computes \<open>total_free_space * 0.1 / (num_pages - 1)\<close> in \<open>double\<close>
  and truncates to \<open>Size\<close>.  The operand is an integer below \<open>BLCKSZ\<close>, for which the
  truncated double quotient is the integer quotient by \<open>10 * (num_pages - 1)\<close>; the model
  uses the integer quotient.  With \<open>num_pages = 0\<close> the C value is \<open>-0.0\<close>, truncated
  to \<open>0\<close>, which is also what \<open>div\<close> by zero gives here.
\<close>

definition tenth_of_free_space_per_page :: "nat \<Rightarrow> nat \<Rightarrow> nat" where
  "tenth_of_free_space_per_page total_free_space num_pages =
     total_free_space div (10 * (num_pages - 1))"

text \<open>Returns \<open>(cxt->num_pages, cxt->free_space_per_page)\<close>.\<close>

definition zsbt_tid_recompress_picksplit ::
    "zs_params \<Rightarrow> zstid \<Rightarrow> nat \<Rightarrow> zs_error + (nat \<times> nat)" where
  "zsbt_tid_recompress_picksplit P hikey total_items =
     (let space = space_on_empty_page P;
          total_sz = total_items * sizeof_ZSTidArrayItem P
      in if space = 0 then Inl DivisionByZero
         else
           let num_pages = (total_sz + space - 1) div space
           in if num_pages = 1 then Inr (num_pages, 0)
              else if hikey = MaxPlusOneZSTid P then
                Inr (num_pages,
                     tenth_of_free_space_per_page (space * num_pages - total_sz) num_pages)
              else if num_pages = 0 then Inl DivisionByZero
              else Inr (num_pages, (space * num_pages - total_sz) div num_pages))"

text \<open>
  The reading of the specification for the rightmost leaf, in its own words: 10% of the
  remaining free space goes to the last page and 90% is spread over the earlier
  \<open>n - 1\<close> pages, so each earlier page would be asked to keep this much free.
\<close>

definition spec_rightmost_free_space_per_page :: "nat \<Rightarrow> nat \<Rightarrow> nat" where
  "spec_rightmost_free_space_per_page total_free_space num_pages =
     (9 * total_free_space) div (10 * (num_pages - 1))"

text \<open>A layout with the usual 8 kB block, used for concrete evaluations.\<close>

definition example_params :: zs_params where
  "example_params =
     \<lparr> BLCKSZ = 8192, SizeOfPageHeaderData = 24, sizeof_ZSBtreePageOpaque = 32,
       sizeof_ZSTidArrayItem = 32, MaxZSTid = 281474976710655, ZSBT_ROOT = 1,
       maintenance_work_mem = 65536 \<rparr>"

section \<open>Items on a leaf: creation, lookup, binary search\<close>

definition zsbt_tid_create_item :: "zstid \<Rightarrow> ZSUndoRecPtr \<Rightarrow> nat \<Rightarrow> ZSTidArrayItem" where
  "zsbt_tid_create_item tid undo_ptr nelements =
     \<lparr> t_tid = tid, t_nelements = nelements, t_undo_ptr = undo_ptr, t_flags = 0 \<rparr>"

function binsrch_loop :: "zstid \<Rightarrow> ZSTidArrayItem list \<Rightarrow> nat \<Rightarrow> nat \<Rightarrow> nat" where
  "binsrch_loop key arr low high =
     (if high > low then
        (if key \<ge> t_tid (arr ! (low + (high - low) div 2))
         then binsrch_loop key arr (low + (high - low) div 2 + 1) high
         else binsrch_loop key arr low (low + (high - low) div 2))
      else low)"
  by pat_completeness auto
termination
  by (relation "measure (\<lambda>(key, arr, low, high). high - low)") auto

definition zsbt_binsrch_tidpage :: "zstid \<Rightarrow> ZSTidArrayItem list \<Rightarrow> nat \<Rightarrow> int" where
  "zsbt_binsrch_tidpage key arr arr_elems = int (binsrch_loop key arr 0 arr_elems) - 1"

text \<open>The linear search of \<open>zsbt_tid_fetch\<close>: the first item that covers the TID.\<close>

fun find_covering_item :: "ZSTidArrayItem list \<Rightarrow> zstid \<Rightarrow> ZSTidArrayItem option" where
  "find_covering_item [] tid = None"
| "find_covering_item (item # items) tid =
     (if t_tid item \<le> tid \<and> t_tid item + t_nelements item > tid then Some item
      else find_covering_item items tid)"

text \<open>Returns \<open>(buf, undo pointer, isdead)\<close> when found.\<close>

definition zsbt_tid_fetch ::
    "tidtree \<Rightarrow> zstid \<Rightarrow> (BlockNumber \<times> ZSUndoRecPtr \<times> bool) option" where
  "zsbt_tid_fetch tree tid =
     (case zsbt_descend tree tid of
        None \<Rightarrow> None
      | Some buf \<Rightarrow>
          (case find_covering_item (tiditems (tree ! buf)) tid of
             None \<Rightarrow> None
           | Some item \<Rightarrow> Some (buf, t_undo_ptr item, item_is_dead item)))"

section \<open>The recompressor\<close>

text \<open>
  \<open>cxt_stack\<close> holds the finished pages of the split stack in order; \<open>cxt_currpage\<close> is
  the page being filled (the stack's tail), absent before the first
  \<open>zsbt_tid_recompress_newpage\<close>.
\<close>

record zsbt_tid_recompress_context =
  cxt_stack :: "ZSTidPage list"
  cxt_currpage :: "ZSTidPage option"
  cxt_num_pages :: nat
  cxt_free_space_per_page :: nat
  cxt_hikey :: zstid

definition zsbt_tid_recompress_newpage ::
    "zsbt_tid_recompress_context \<Rightarrow> zstid \<Rightarrow> 16 word \<Rightarrow> zsbt_tid_recompress_context" where
  "zsbt_tid_recompress_newpage cxt nexttid flags =
     cxt \<lparr> cxt_stack :=
             (case cxt_currpage cxt of
                None \<Rightarrow> cxt_stack cxt
              | Some oldpage \<Rightarrow> cxt_stack cxt @ [oldpage \<lparr> zs_hikey := nexttid \<rparr>]),
           cxt_currpage :=
             Some \<lparr> zs_next = None, zs_lokey = nexttid, zs_hikey = cxt_hikey cxt,
                    zs_flags = flags, tiditems = [] \<rparr> \<rparr>"

definition zsbt_tid_recompress_add_to_page ::
    "zs_params \<Rightarrow> zsbt_tid_recompress_context \<Rightarrow> ZSTidArrayItem
       \<Rightarrow> zs_error + zsbt_tid_recompress_context" where
  "zsbt_tid_recompress_add_to_page P cxt item =
     (case cxt_currpage cxt of
        None \<Rightarrow> Inl InvalidBufferAccess
      | Some page \<Rightarrow>
          let freespc = PageGetExactFreeSpace P page;
              cxt' = (if freespc < MAXALIGN (sizeof_ZSTidArrayItem P)
                         \<or> freespc < cxt_free_space_per_page cxt
                      then zsbt_tid_recompress_newpage cxt (t_tid item) 0
                      else cxt)
          in (case cxt_currpage cxt' of
                None \<Rightarrow> Inl InvalidBufferAccess
              | Some cpage \<Rightarrow>
                  Inr (cxt' \<lparr> cxt_currpage :=
                                Some (cpage \<lparr> tiditems := tiditems cpage @ [item] \<rparr>) \<rparr>)))"

text \<open>The \<open>foreach\<close> over the items in \<open>zsbt_tid_recompress_replace\<close>.\<close>

fun recompress_add_items ::
    "zs_params \<Rightarrow> zsbt_tid_recompress_context \<Rightarrow> ZSTidArrayItem list
       \<Rightarrow> zs_error + zsbt_tid_recompress_context" where
  "recompress_add_items P cxt [] = Inr cxt"
| "recompress_add_items P cxt (item # items) =
     (case zsbt_tid_recompress_add_to_page P cxt item of
        Inl e \<Rightarrow> Inl e
      | Inr cxt' \<Rightarrow> recompress_add_items P cxt' items)"

text \<open>
  The \<open>while (stack->next)\<close> loop: every page but the last gets a new buffer for its
  successor and points to it; the last page points to the original right sibling.
  Modelled from the spec: \<open>zspage_getnewbuf\<close> (not among the sources) hands out a block
  that is not in use; the model extends the relation, so the new blocks are
  \<open>newblk, newblk + 1, ...\<close>.
\<close>

fun link_pages :: "BlockNumber \<Rightarrow> BlockNumber option \<Rightarrow> ZSTidPage list \<Rightarrow> ZSTidPage list" where
  "link_pages newblk orignextblk [] = []"
| "link_pages newblk orignextblk [page] = [page \<lparr> zs_next := orignextblk \<rparr>]"
| "link_pages newblk orignextblk (page # pages) =
     page \<lparr> zs_next := Some newblk \<rparr> # link_pages (Suc newblk) orignextblk pages"

text \<open>
  \<open>zsbt_tid_recompress_replace\<close>.  The downlinks handed to \<open>zsbt_newroot\<close> or
  \<open>zsbt_insert_downlinks\<close> concern internal pages only; applying the split stack
  overwrites the old block with the first page and stores the others in the new blocks.
\<close>

definition zsbt_tid_recompress_replace ::
    "zs_params \<Rightarrow> tidtree \<Rightarrow> BlockNumber \<Rightarrow> ZSTidArrayItem list \<Rightarrow> zs_error + tidtree" where
  "zsbt_tid_recompress_replace P tree oldbuf items =
     (if oldbuf \<ge> length tree then Inl InvalidBufferAccess
      else
        let oldopaque = tree ! oldbuf;
            orignextblk = zs_next oldopaque
        in (case zsbt_tid_recompress_picksplit P (zs_hikey oldopaque) (length items) of
              Inl e \<Rightarrow> Inl e
            | Inr (npages, fsp) \<Rightarrow>
                let cxt0 = \<lparr> cxt_stack = [], cxt_currpage = None, cxt_num_pages = npages,
                             cxt_free_space_per_page = fsp,
                             cxt_hikey = zs_hikey oldopaque \<rparr>;
                    cxt1 = zsbt_tid_recompress_newpage cxt0 (zs_lokey oldopaque)
                             (zs_flags oldopaque AND ZSBT_ROOT P)
                in (case recompress_add_items P cxt1 items of
                      Inl e \<Rightarrow> Inl e
                    | Inr cxt \<Rightarrow>
                        (case cxt_currpage cxt of
                           None \<Rightarrow> Inl InvalidBufferAccess
                         | Some lastpage \<Rightarrow>
                             (case link_pages (length tree) orignextblk
                                     (cxt_stack cxt @ [lastpage]) of
                                [] \<Rightarrow> Inl InvalidBufferAccess
                              | head # rest \<Rightarrow>
                                  Inr (tree[oldbuf :=
                                         (if rest \<noteq> [] \<and> (zs_flags head AND ZSBT_ROOT P) \<noteq> 0
                                          then head \<lparr> zs_flags :=
                                                        zs_flags head AND NOT (ZSBT_ROOT P) \<rparr>
                                          else head)] @ rest))))))"

text \<open>
  The block that ends \<open>zsbt_tid_add_items\<close>, \<open>zsbt_tid_replace_item\<close> and
  \<open>zsbt_tid_remove\<close>: a non-empty item list goes to the recompressor; for an empty one
  the page is unlinked, or, when that fails, replaced by an empty copy.
  \<open>zsbt_unlink_page\<close> is not among the sources and is a parameter: it returns the tree
  with the page unlinked, or nothing when it fails.
\<close>

definition zsbt_tid_rewrite_page ::
    "(tidtree \<Rightarrow> BlockNumber \<Rightarrow> tidtree option) \<Rightarrow> zs_params \<Rightarrow> tidtree \<Rightarrow> BlockNumber
       \<Rightarrow> ZSTidArrayItem list \<Rightarrow> zs_error + tidtree" where
  "zsbt_tid_rewrite_page unlink_page P tree buf items =
     (if items \<noteq> [] then zsbt_tid_recompress_replace P tree buf items
      else if buf \<ge> length tree then Inl InvalidBufferAccess
      else (case unlink_page tree buf of
              Some tree' \<Rightarrow> Inr tree'
            | None \<Rightarrow> Inr (tree[buf := (tree ! buf) \<lparr> tiditems := [] \<rparr>])))"

section \<open>Adding and replacing items on a leaf\<close>

definition zsbt_tid_add_items ::
    "(tidtree \<Rightarrow> BlockNumber \<Rightarrow> tidtree option) \<Rightarrow> zs_params \<Rightarrow> tidtree \<Rightarrow> BlockNumber
       \<Rightarrow> ZSTidArrayItem list \<Rightarrow> zs_error + tidtree" where
  "zsbt_tid_add_items unlink_page P tree buf newitems =
     (if buf \<ge> length tree then Inl InvalidBufferAccess
      else
        let page = tree ! buf;
            newitemsize = length newitems * sizeof_ZSTidArrayItem P
        in if newitemsize \<le> PageGetExactFreeSpace P page
           then Inr (tree[buf := page \<lparr> tiditems := tiditems page @ newitems \<rparr>])
           else zsbt_tid_rewrite_page unlink_page P tree buf (tiditems page @ newitems))"

text \<open>
  The pieces that take the place of the old item: the slice before the target TID, the
  replacement, the slice after.
\<close>

definition replace_item_before :: "ZSTidArrayItem \<Rightarrow> zstid \<Rightarrow> ZSTidArrayItem option" where
  "replace_item_before olditem oldtid =
     (let cutoff = oldtid - t_tid olditem
      in if cutoff > 0
         then Some (zsbt_tid_create_item (t_tid olditem) (t_undo_ptr olditem) cutoff)
         else None)"

definition replace_item_after :: "ZSTidArrayItem \<Rightarrow> zstid \<Rightarrow> ZSTidArrayItem option" where
  "replace_item_after olditem oldtid =
     (let cutoff = oldtid - t_tid olditem;
          nelements = t_nelements olditem
      in if cutoff + 1 < nelements
         then Some (zsbt_tid_create_item (oldtid + 1) (t_undo_ptr olditem)
                      (nelements - (cutoff + 1)))
         else None)"

definition opt_list :: "'a option \<Rightarrow> 'a list" where
  "opt_list x = (case x of None \<Rightarrow> [] | Some v \<Rightarrow> [v])"

text \<open>
  \<open>zsbt_tid_replace_item\<close>.  \<open>n_replacements\<close> starts at \<open>-1\<close>; the test
  \<open>n_replacements * sizeof(ZSTidArrayItem) <= PageGetExactFreeSpace(page)\<close> is unsigned,
  so with \<open>n_replacements = -1\<close> the product is huge and the page takes the recompressor
  path.  In place, the \<open>memmove\<close> shifts the items after the old one and the pieces are
  written where the old item was.
\<close>

definition zsbt_tid_replace_item ::
    "(tidtree \<Rightarrow> BlockNumber \<Rightarrow> tidtree option) \<Rightarrow> zs_params \<Rightarrow> tidtree \<Rightarrow> BlockNumber
       \<Rightarrow> zstid \<Rightarrow> ZSTidArrayItem option \<Rightarrow> zs_error + tidtree" where
  "zsbt_tid_replace_item unlink_page P tree buf oldtid replacementitem =
     (if buf \<ge> length tree then Inl InvalidBufferAccess
      else
        let page = tree ! buf;
            items = tiditems page;
            ntiditems = length items;
            itemno = zsbt_binsrch_tidpage oldtid items ntiditems
        in if itemno < 0 then Inl CouldNotFindItemToReplace
           else
             let olditem = items ! nat itemno
             in if oldtid < t_tid olditem \<or> oldtid \<ge> t_tid olditem + t_nelements olditem
                then Inl CouldNotFindItemToReplace
                else
                  let pieces = opt_list (replace_item_before olditem oldtid)
                                 @ opt_list replacementitem
                                 @ opt_list (replace_item_after olditem oldtid);
                      n_replacements = int (length pieces) - 1;
                      newitems = take (nat itemno) items @ pieces
                                   @ drop (nat itemno + 1) items
                  in if 0 \<le> n_replacements
                        \<and> nat n_replacements * sizeof_ZSTidArrayItem P
                            \<le> PageGetExactFreeSpace P page
                     then Inr (tree[buf := page \<lparr> tiditems := newitems \<rparr>])
                     else zsbt_tid_rewrite_page unlink_page P tree buf newitems)"

section \<open>Well-formedness of leaves\<close>

text \<open>
  Invariant 1 of the data model: the items of a leaf are ordered, their runs are not
  empty and do not overlap.
\<close>

definition items_ordered :: "ZSTidArrayItem list \<Rightarrow> bool" where
  "items_ordered items =
     (sorted_wrt (\<lambda>a b. t_tid a + t_nelements a \<le> t_tid b) items
      \<and> list_all (\<lambda>item. 0 < t_nelements item) items)"

text \<open>
  The layout is sane: an item has a size, and an empty page has room for one item.
\<close>

definition params_ok :: "zs_params \<Rightarrow> bool" where
  "params_ok P =
     (0 < sizeof_ZSTidArrayItem P
      \<and> MAXALIGN (sizeof_ZSTidArrayItem P) \<le> space_on_empty_page P)"

text \<open>
  Modelled from the spec: the valid TIDs are \<open>[1 .. MaxZSTid]\<close>, so \<open>MinZSTid\<close> is 1
  (\<open>zedstore_internal.h\<close> is not among the sources).
\<close>

definition MinZSTid :: zstid where
  "MinZSTid = 1"

definition items_within :: "zstid \<Rightarrow> zstid \<Rightarrow> ZSTidArrayItem list \<Rightarrow> bool" where
  "items_within lo hi items =
     list_all (\<lambda>item. lo \<le> t_tid item \<and> t_tid item + t_nelements item \<le> hi) items"

text \<open>A leaf is in order: a non-empty key range that contains the ordered items.\<close>

definition leaf_ok :: "ZSTidPage \<Rightarrow> bool" where
  "leaf_ok page =
     (zs_lokey page < zs_hikey page
      \<and> items_ordered (tiditems page)
      \<and> items_within (zs_lokey page) (zs_hikey page) (tiditems page))"

text \<open>
  Invariant 2: the pages, taken in order, tile the key range \<open>[lo, hi)\<close>: each high key is
  the low key of the successor.
\<close>

fun pages_cover :: "zstid \<Rightarrow> zstid \<Rightarrow> ZSTidPage list \<Rightarrow> bool" where
  "pages_cover lo hi [] = False"
| "pages_cover lo hi [p] = (zs_lokey p = lo \<and> zs_hikey p = hi)"
| "pages_cover lo hi (p # q # ps) =
     (zs_lokey p = lo \<and> pages_cover (zs_hikey p) hi (q # ps))"

text \<open>Invariant 5: the right-links run through the chain and end at no block.\<close>

fun chain_linked :: "tidtree \<Rightarrow> BlockNumber list \<Rightarrow> bool" where
  "chain_linked tree [] = False"
| "chain_linked tree [b] = (zs_next (tree ! b) = None)"
| "chain_linked tree (b # c # bs) =
     (zs_next (tree ! b) = Some c \<and> chain_linked tree (c # bs))"

text \<open>
  A well-formed TID tree with the leaves \<open>chain\<close> from left to right: the chain holds
  every block once, is linked by the right-links, tiles \<open>[MinZSTid, MaxPlusOneZSTid)\<close>,
  and every leaf is in order.
\<close>

definition tree_wf :: "zs_params \<Rightarrow> tidtree \<Rightarrow> BlockNumber list \<Rightarrow> bool" where
  "tree_wf P tree chain =
     (distinct chain \<and> set chain = {0..<length tree}
      \<and> chain_linked tree chain
      \<and> pages_cover MinZSTid (MaxPlusOneZSTid P) (map ((!) tree) chain)
      \<and> list_all leaf_ok tree)"

section \<open>Concrete inputs\<close>

text \<open>A layout with tiny pages (two items per page), a tree of one leaf, and an
  \<open>unlink_page\<close> that always fails.\<close>

definition small_params :: zs_params where
  "small_params =
     \<lparr> BLCKSZ = 128, SizeOfPageHeaderData = 24, sizeof_ZSBtreePageOpaque = 32,
       sizeof_ZSTidArrayItem = 32, MaxZSTid = 999, ZSBT_ROOT = 1,
       maintenance_work_mem = 1 \<rparr>"

definition no_unlink :: "tidtree \<Rightarrow> BlockNumber \<Rightarrow> tidtree option" where
  "no_unlink tree buf = None"

definition example_leaf :: ZSTidPage where
  "example_leaf =
     \<lparr> zs_next = None, zs_lokey = 1, zs_hikey = 1000, zs_flags = 1,
       tiditems = [\<lparr> t_tid = 1, t_nelements = 5, t_undo_ptr = 7, t_flags = 0 \<rparr>] \<rparr>"

section \<open>Undo log and the external visibility checks\<close>

datatype LockTupleMode =
  LockTupleKeyShare | LockTupleShare | LockTupleNoKeyExclusive | LockTupleExclusive

datatype TM_Result =
  TM_Ok | TM_Invisible | TM_SelfModified | TM_Updated | TM_Deleted | TM_BeingModified
  | TM_WouldBlock

type_synonym TransactionId = nat
type_synonym CommandId = nat

text \<open>\<open>FrozenTransactionId\<close> is the constant 2 of \<open>access/transam.h\<close>.\<close>

definition FrozenTransactionId :: TransactionId where
  "FrozenTransactionId = 2"

text \<open>
  The undo records the TID tree emits; every constructor starts with the common part
  \<open>xid, cid, tid\<close>, followed by \<open>prevundorec\<close> and the fields of the record type
  (insert: speculative token before, end TID after).
\<close>

datatype ZSUndoRec =
    ZSUndoRec_Insert TransactionId CommandId zstid nat ZSUndoRecPtr zstid
  | ZSUndoRec_Delete TransactionId CommandId zstid ZSUndoRecPtr bool
  | ZSUndoRec_Update TransactionId CommandId zstid ZSUndoRecPtr zstid bool
  | ZSUndoRec_TupleLock TransactionId CommandId zstid ZSUndoRecPtr LockTupleMode

text \<open>The relation: the TID tree and the undo log.\<close>

record zs_relation =
  rel_tree :: tidtree
  rel_undo :: "ZSUndoRec list"

text \<open>
  Modelled from the spec: \<open>zsundo_insert\<close> (undo log, not among the sources) appends the
  record to the log and returns a valid undo pointer for it; the model numbers the
  records from 1.
\<close>

definition zsundo_insert :: "ZSUndoRec list \<Rightarrow> ZSUndoRec \<Rightarrow> ZSUndoRec list \<times> ZSUndoRecPtr" where
  "zsundo_insert log rec = (log @ [rec], Suc (length log))"

text \<open>
  \<open>zs_SatisfiesUpdate\<close> and \<open>zs_SatisfiesVisibility\<close> belong to the external MVCC layer
  and are parameters.  \<open>zs_SatisfiesUpdate snapshot tid undo_ptr mode\<close> returns the
  \<open>TM_Result\<close>, the value left in \<open>keep_old_undo_ptr\<close>, and the value written to
  \<open>next_tid\<close> if any.
\<close>

type_synonym 'snap satisfies_update =
  "'snap \<Rightarrow> zstid \<Rightarrow> ZSUndoRecPtr \<Rightarrow> LockTupleMode \<Rightarrow> TM_Result \<times> bool \<times> zstid option"

type_synonym 'snap satisfies_visibility = "'snap \<Rightarrow> ZSUndoRecPtr \<Rightarrow> bool"

type_synonym unlink_fn = "tidtree \<Rightarrow> BlockNumber \<Rightarrow> tidtree option"

section \<open>Public interface of the TID tree: insert, delete, lock, update\<close>

text \<open>
  \<open>zsbt_tid_multi_insert\<close>.  The code uses the buffer of \<open>zsbt_descend\<close> without
  checking it; with no buffer the model reports the access.  Returns the TIDs handed
  to the caller and the new relation.
\<close>

definition zsbt_tid_multi_insert ::
    "unlink_fn \<Rightarrow> zs_params \<Rightarrow> zs_relation \<Rightarrow> nat \<Rightarrow> TransactionId \<Rightarrow> CommandId \<Rightarrow> nat
       \<Rightarrow> ZSUndoRecPtr \<Rightarrow> zs_error + (zstid list \<times> zs_relation)" where
  "zsbt_tid_multi_insert unlink_page P rel nitems xid cid speculative_token prevundoptr =
     (case zsbt_descend (rel_tree rel) (MaxZSTid P) of
        None \<Rightarrow> Inl InvalidBufferAccess
      | Some buf \<Rightarrow>
          let page = rel_tree rel ! buf;
              ntiditems = length (tiditems page);
              endtid = (if ntiditems > 0
                        then t_tid (tiditems page ! (ntiditems - 1))
                               + t_nelements (tiditems page ! (ntiditems - 1))
                        else zs_lokey page);
              tid = endtid;
              (log, undorecptr) =
                (if xid \<noteq> FrozenTransactionId
                 then zsundo_insert (rel_undo rel)
                        (ZSUndoRec_Insert xid cid tid speculative_token prevundoptr
                           (tid + nitems - 1))
                 else (rel_undo rel, InvalidUndoPtr));
              newitem = zsbt_tid_create_item tid undorecptr nitems
          in (case zsbt_tid_add_items unlink_page P (rel_tree rel) buf [newitem] of
                Inl e \<Rightarrow> Inl e
              | Inr tree' \<Rightarrow>
                  Inr (map (\<lambda>i. tid + i) [0..<nitems],
                       \<lparr> rel_tree = tree', rel_undo = log \<rparr>)))"

text \<open>
  \<open>zsbt_tid_delete\<close>.  Without a snapshot \<open>zs_SatisfiesUpdate\<close> is not called.  When the
  crosscheck snapshot does not see the item the code sets \<open>result = TM_Updated\<close> but goes
  on; the value is never read again, the function returns \<open>TM_Ok\<close> at its end.
\<close>

definition zsbt_tid_delete ::
    "'snap satisfies_update \<Rightarrow> 'snap satisfies_visibility \<Rightarrow> unlink_fn \<Rightarrow> zs_params
       \<Rightarrow> zs_relation \<Rightarrow> zstid \<Rightarrow> TransactionId \<Rightarrow> CommandId \<Rightarrow> 'snap option \<Rightarrow> 'snap option
       \<Rightarrow> bool \<Rightarrow> zs_error + (TM_Result \<times> zs_relation)" where
  "zsbt_tid_delete zs_SatisfiesUpdate zs_SatisfiesVisibility unlink_page P rel tid xid cid
       snapshot crosscheck changingPart =
     (case zsbt_tid_fetch (rel_tree rel) tid of
        None \<Rightarrow> Inl CouldNotFindTupleToDelete
      | Some (buf, item_undoptr, item_isdead) \<Rightarrow>
          if item_isdead then Inl CannotDeleteDeadTuple
          else
            let (result, keep_old_undo_ptr, next_tid) =
                  (case snapshot of
                     None \<Rightarrow> (TM_Ok, True, None)
                   | Some snap \<Rightarrow> zs_SatisfiesUpdate snap tid item_undoptr LockTupleExclusive)
            in if snapshot \<noteq> None \<and> result \<noteq> TM_Ok then Inr (result, rel)
               else
                 let (log, undorecptr) =
                       zsundo_insert (rel_undo rel)
                         (ZSUndoRec_Delete xid cid tid
                            (if keep_old_undo_ptr then item_undoptr else InvalidUndoPtr)
                            changingPart);
                     deleteditem = zsbt_tid_create_item tid undorecptr 1
                 in (case zsbt_tid_replace_item unlink_page P (rel_tree rel) buf tid
                            (Some deleteditem) of
                       Inl e \<Rightarrow> Inl e
                     | Inr tree' \<Rightarrow> Inr (TM_Ok, \<lparr> rel_tree = tree', rel_undo = log \<rparr>)))"

text \<open>\<open>zsbt_tid_lock\<close>; returns the result, \<open>*next_tid\<close> and the new relation.\<close>

definition zsbt_tid_lock ::
    "'snap satisfies_update \<Rightarrow> unlink_fn \<Rightarrow> zs_params \<Rightarrow> zs_relation \<Rightarrow> zstid
       \<Rightarrow> TransactionId \<Rightarrow> CommandId \<Rightarrow> LockTupleMode \<Rightarrow> 'snap
       \<Rightarrow> zs_error + (TM_Result \<times> zstid \<times> zs_relation)" where
  "zsbt_tid_lock zs_SatisfiesUpdate unlink_page P rel tid xid cid mode snapshot =
     (case zsbt_tid_fetch (rel_tree rel) tid of
        None \<Rightarrow> Inl CouldNotFindTupleToLock
      | Some (buf, item_undoptr, item_isdead) \<Rightarrow>
          if item_isdead then Inl CouldNotFindTupleToLock
          else
            let (result, keep_old_undo_ptr, written) =
                  zs_SatisfiesUpdate snapshot tid item_undoptr mode;
                next_tid = (case written of None \<Rightarrow> tid | Some n \<Rightarrow> n)
            in if result \<noteq> TM_Ok then Inr (result, next_tid, rel)
               else
                 let (log, undorecptr) =
                       zsundo_insert (rel_undo rel)
                         (ZSUndoRec_TupleLock xid cid tid
                            (if keep_old_undo_ptr then item_undoptr else InvalidUndoPtr)
                            mode);
                     newitem = zsbt_tid_create_item tid undorecptr 1
                 in (case zsbt_tid_replace_item unlink_page P (rel_tree rel) buf tid
                            (Some newitem) of
                       Inl e \<Rightarrow> Inl e
                     | Inr tree' \<Rightarrow>
                         Inr (TM_Ok, next_tid, \<lparr> rel_tree = tree', rel_undo = log \<rparr>)))"

text \<open>
  \<open>zsbt_tid_update_lock_old\<close>; returns the result and \<open>*prevundoptr_p\<close>.  As in delete,
  a failed crosscheck only overwrites \<open>result\<close>, which the final \<open>return TM_Ok\<close> ignores.
\<close>

definition zsbt_tid_update_lock_old ::
    "'snap satisfies_update \<Rightarrow> zs_relation \<Rightarrow> zstid \<Rightarrow> bool \<Rightarrow> 'snap
       \<Rightarrow> zs_error + (TM_Result \<times> ZSUndoRecPtr)" where
  "zsbt_tid_update_lock_old zs_SatisfiesUpdate rel otid key_update snapshot =
     (case zsbt_tid_fetch (rel_tree rel) otid of
        None \<Rightarrow> Inl CouldNotFindOldTupleToUpdate
      | Some (buf, olditem_undoptr, olditem_isdead) \<Rightarrow>
          if olditem_isdead then Inl CouldNotFindOldTupleToUpdate
          else
            let (result, keep_old_undo_ptr, next_tid) =
                  zs_SatisfiesUpdate snapshot otid olditem_undoptr
                    (if key_update then LockTupleExclusive else LockTupleNoKeyExclusive)
            in if result \<noteq> TM_Ok then Inr (result, olditem_undoptr)
               else Inr (TM_Ok, olditem_undoptr))"

text \<open>
  \<open>zsbt_tid_mark_old_updated\<close>, the second phase of an update: the old item is fetched and
  checked again, an \<open>UPDATE\<close> undo record is written and the old TID gets its pointer.
\<close>

definition zsbt_tid_mark_old_updated ::
    "'snap satisfies_update \<Rightarrow> unlink_fn \<Rightarrow> zs_params \<Rightarrow> zs_relation \<Rightarrow> zstid \<Rightarrow> zstid
       \<Rightarrow> TransactionId \<Rightarrow> CommandId \<Rightarrow> bool \<Rightarrow> 'snap \<Rightarrow> zs_error + zs_relation" where
  "zsbt_tid_mark_old_updated zs_SatisfiesUpdate unlink_page P rel otid newtid xid cid
       key_update snapshot =
     (case zsbt_tid_fetch (rel_tree rel) otid of
        None \<Rightarrow> Inl CouldNotFindOldTupleToUpdate
      | Some (buf, olditem_undoptr, olditem_isdead) \<Rightarrow>
          if olditem_isdead then Inl CouldNotFindOldTupleToUpdate
          else
            let (result, keep_old_undo_ptr, next_tid) =
                  zs_SatisfiesUpdate snapshot otid olditem_undoptr
                    (if key_update then LockTupleExclusive else LockTupleNoKeyExclusive)
            in if result \<noteq> TM_Ok then Inl TupleConcurrentlyUpdated
               else
                 let (log, undorecptr) =
                       zsundo_insert (rel_undo rel)
                         (ZSUndoRec_Update xid cid otid
                            (if keep_old_undo_ptr then olditem_undoptr else InvalidUndoPtr)
                            newtid key_update);
                     deleteditem = zsbt_tid_create_item otid undorecptr 1
                 in (case zsbt_tid_replace_item unlink_page P (rel_tree rel) buf otid
                            (Some deleteditem) of
                       Inl e \<Rightarrow> Inl e
                     | Inr tree' \<Rightarrow> Inr \<lparr> rel_tree = tree', rel_undo = log \<rparr>))"

text \<open>
  \<open>zsbt_tid_update\<close>; returns the result, the new TID (when one was allocated) and the
  new relation.  \<open>INVALID_SPECULATIVE_TOKEN\<close> is 0.
\<close>

definition zsbt_tid_update ::
    "'snap satisfies_update \<Rightarrow> unlink_fn \<Rightarrow> zs_params \<Rightarrow> zs_relation \<Rightarrow> zstid
       \<Rightarrow> TransactionId \<Rightarrow> CommandId \<Rightarrow> bool \<Rightarrow> 'snap
       \<Rightarrow> zs_error + (TM_Result \<times> zstid option \<times> zs_relation)" where
  "zsbt_tid_update zs_SatisfiesUpdate unlink_page P rel otid xid cid key_update snapshot =
     (case zsbt_tid_update_lock_old zs_SatisfiesUpdate rel otid key_update snapshot of
        Inl e \<Rightarrow> Inl e
      | Inr (result, prevundoptr) \<Rightarrow>
          if result \<noteq> TM_Ok then Inr (result, None, rel)
          else
            (case zsbt_tid_multi_insert unlink_page P rel 1 xid cid 0 prevundoptr of
               Inl e \<Rightarrow> Inl e
             | Inr (newtids, rel1) \<Rightarrow>
                 (case newtids of
                    [] \<Rightarrow> Inl InvalidBufferAccess
                  | newtid # rest \<Rightarrow>
                      (case zsbt_tid_mark_old_updated zs_SatisfiesUpdate unlink_page P rel1
                              otid newtid xid cid key_update snapshot of
                         Inl e \<Rightarrow> Inl e
                       | Inr rel2 \<Rightarrow> Inr (TM_Ok, Some newtid, rel2)))))"

section \<open>Undo application: mark dead, undo deletion\<close>

datatype zs_warning =
  CouldNotFindTupleToMarkDead | CouldNotFindAbortedTupleToRemove

text \<open>Both return the warning raised, if any, and the new tree.\<close>

definition zsbt_tid_mark_dead ::
    "unlink_fn \<Rightarrow> zs_params \<Rightarrow> tidtree \<Rightarrow> zstid \<Rightarrow> zs_error + (zs_warning option \<times> tidtree)" where
  "zsbt_tid_mark_dead unlink_page P tree tid =
     (case zsbt_tid_fetch tree tid of
        None \<Rightarrow> Inr (Some CouldNotFindTupleToMarkDead, tree)
      | Some (buf, item_undoptr, isdead) \<Rightarrow>
          if isdead then Inr (None, tree)
          else
            let deaditem = \<lparr> t_tid = tid, t_nelements = 1, t_undo_ptr = InvalidUndoPtr,
                             t_flags = ZSBT_TID_DEAD \<rparr>
            in (case zsbt_tid_replace_item unlink_page P tree buf tid (Some deaditem) of
                  Inl e \<Rightarrow> Inl e
                | Inr tree' \<Rightarrow> Inr (None, tree')))"

text \<open>
  \<open>zsbt_tid_undo_deletion\<close>: a TID that is not found gives the warning and nothing else;
  the item is put back to \<open>{tid, 1, InvalidUndoPtr, 0}\<close> only if its undo pointer is the
  given one.
\<close>

definition zsbt_tid_undo_deletion ::
    "unlink_fn \<Rightarrow> zs_params \<Rightarrow> tidtree \<Rightarrow> zstid \<Rightarrow> ZSUndoRecPtr
       \<Rightarrow> zs_error + (zs_warning option \<times> tidtree)" where
  "zsbt_tid_undo_deletion unlink_page P tree tid undoptr =
     (case zsbt_tid_fetch tree tid of
        None \<Rightarrow> Inr (Some CouldNotFindAbortedTupleToRemove, tree)
      | Some (buf, item_undoptr, isdead) \<Rightarrow>
          if ZSUndoRecPtrEquals item_undoptr undoptr
          then (case zsbt_tid_replace_item unlink_page P tree buf tid
                       (Some (zsbt_tid_create_item tid InvalidUndoPtr 1)) of
                  Inl e \<Rightarrow> Inl e
                | Inr tree' \<Rightarrow> Inr (None, tree'))
          else Inr (None, tree))"

section \<open>What a replacement is expected to leave on the leaf\<close>

text \<open>
  The replace algorithm in the words of the specification: the run at position \<open>i\<close> that
  covers \<open>t\<close> is sliced into \<open>before [t_tid, t)\<close>, the optional replacement, and
  \<open>after [t + 1, t_tid + n)\<close>; the slices keep the undo pointer of the run; the other
  items stay as they are.
\<close>

definition slice_before :: "ZSTidArrayItem \<Rightarrow> zstid \<Rightarrow> ZSTidArrayItem list" where
  "slice_before old t =
     (if t_tid old < t
      then [\<lparr> t_tid = t_tid old, t_nelements = t - t_tid old,
               t_undo_ptr = t_undo_ptr old, t_flags = 0 \<rparr>]
      else [])"

definition slice_after :: "ZSTidArrayItem \<Rightarrow> zstid \<Rightarrow> ZSTidArrayItem list" where
  "slice_after old t =
     (if t + 1 < t_tid old + t_nelements old
      then [\<lparr> t_tid = t + 1, t_nelements = t_tid old + t_nelements old - (t + 1),
               t_undo_ptr = t_undo_ptr old, t_flags = 0 \<rparr>]
      else [])"

definition replace_slices ::
    "ZSTidArrayItem list \<Rightarrow> nat \<Rightarrow> zstid \<Rightarrow> ZSTidArrayItem option \<Rightarrow> ZSTidArrayItem list" where
  "replace_slices items i t replacement =
     take i items @ slice_before (items ! i) t @ opt_list replacement
       @ slice_after (items ! i) t @ drop (Suc i) items"

text \<open>
  \<open>leaf_rewritten tree buf newitems tree'\<close>: in \<open>tree'\<close> the leaf in block \<open>buf\<close> has been
  rewritten, possibly split into that block and new blocks at the end of the relation,
  which together hold exactly \<open>newitems\<close> in order; every other block is as in \<open>tree\<close>.
\<close>

definition leaf_rewritten ::
    "tidtree \<Rightarrow> BlockNumber \<Rightarrow> ZSTidArrayItem list \<Rightarrow> tidtree \<Rightarrow> bool" where
  "leaf_rewritten tree buf newitems tree' =
     (buf < length tree \<and> length tree \<le> length tree'
      \<and> take (length tree) tree' = tree[buf := tree' ! buf]
      \<and> concat (map tiditems (tree' ! buf # drop (length tree) tree')) = newitems)"

section \<open>Invariants used in the proofs\<close>

definition cxt_inv :: "zstid \<Rightarrow> zstid \<Rightarrow> zsbt_tid_recompress_context \<Rightarrow> bool" where
  "cxt_inv L B cxt =
     (case cxt_currpage cxt of
        None \<Rightarrow> False
      | Some c \<Rightarrow>
          zs_hikey c = cxt_hikey cxt
          \<and> pages_cover L (cxt_hikey cxt) (cxt_stack cxt @ [c])
          \<and> list_all leaf_ok (cxt_stack cxt)
          \<and> items_ordered (tiditems c)
          \<and> items_within (zs_lokey c) B (tiditems c)
          \<and> zs_lokey c \<le> B
          \<and> (tiditems c = [] \<longrightarrow> cxt_stack cxt = []))"

text \<open>The right-links of the linked pages: block b holds the second page, and so on.\<close>

fun next_links :: "BlockNumber \<Rightarrow> BlockNumber option \<Rightarrow> ZSTidPage list \<Rightarrow> bool" where
  "next_links b nxt [] = True"
| "next_links b nxt [p] = (zs_next p = nxt)"
| "next_links b nxt (p # q # ps) = (zs_next p = Some b \<and> next_links (Suc b) nxt (q # ps))"

text \<open>The key range of the page holds the TID.\<close>

definition page_covers :: "ZSTidPage \<Rightarrow> zstid \<Rightarrow> bool" where
  "page_covers page tid = (zs_lokey page \<le> tid \<and> tid < zs_hikey page)"

text \<open>Item \<open>i\<close> of block \<open>b\<close> covers the TID.\<close>

definition tid_at :: "tidtree \<Rightarrow> zstid \<Rightarrow> BlockNumber \<Rightarrow> nat \<Rightarrow> bool" where
  "tid_at tree t b i =
     (b < length tree \<and> i < length (tiditems (tree ! b))
      \<and> item_covers (tiditems (tree ! b) ! i) t)"

text \<open>A replacement item handed to \<open>zsbt_tid_replace_item\<close> is nothing or an item for the one
  TID that is replaced.\<close>

definition replacement_for :: "zstid \<Rightarrow> ZSTidArrayItem option \<Rightarrow> bool" where
  "replacement_for t r =
     (case r of None \<Rightarrow> True | Some item \<Rightarrow> t_tid item = t \<and> t_nelements item = 1)"

section \<open>Concrete inputs for the public interface\<close>

definition deaditem :: "zstid \<Rightarrow> ZSTidArrayItem" where
  "deaditem tid =
     \<lparr> t_tid = tid, t_nelements = 1, t_undo_ptr = InvalidUndoPtr, t_flags = ZSBT_TID_DEAD \<rparr>"

text \<open>A leaf whose only item is a \<open>DEAD\<close> run of two TIDs.\<close>

definition dead_run_leaf :: ZSTidPage where
  "dead_run_leaf =
     \<lparr> zs_next = None, zs_lokey = 1, zs_hikey = 1000, zs_flags = 1,
       tiditems = [\<lparr> t_tid = 5, t_nelements = 2, t_undo_ptr = 0, t_flags = 1 \<rparr>] \<rparr>"

definition example_rel :: zs_relation where
  "example_rel = \<lparr> rel_tree = [example_leaf], rel_undo = [] \<rparr>"

definition always_ok :: "unit satisfies_update" where
  "always_ok snap tid undo_ptr mode = (TM_Ok, True, None)"

definition always_updated :: "unit satisfies_update" where
  "always_updated snap tid undo_ptr mode = (TM_Updated, True, None)"

definition sees_all :: "unit satisfies_visibility" where
  "sees_all snap undo_ptr = True"

section \<open>Start TID of an insertion, in the words of the specification\<close>

definition multi_insert_start :: "ZSTidPage \<Rightarrow> zstid" where
  "multi_insert_start leaf =
     (if tiditems leaf = [] then zs_lokey leaf
      else max (t_tid (last (tiditems leaf)) + t_nelements (last (tiditems leaf)))
             (zs_lokey leaf))"

section \<open>Collecting dead TIDs: \<open>zsbt_collect_dead_tids\<close>\<close>

text \<open>
  The integer set is the list of its members in the order they were added.
  \<open>intset_add_member\<close> (\<open>lib/integerset.c\<close>, not among the sources) takes members in
  ascending order only and raises an error otherwise; \<open>intset_memory_usage\<close> is a
  parameter of the model.
\<close>

definition intset_add_member :: "zstid list \<Rightarrow> zstid \<Rightarrow> zs_error + zstid list" where
  "intset_add_member s x =
     (if s \<noteq> [] \<and> x \<le> last s then Inl IntsetOutOfOrder else Inr (s @ [x]))"

text \<open>\<open>for (j = 0; j < item->t_nelements; j++) intset_add_member(result, item->t_tid + j)\<close>\<close>

fun add_item_tids :: "zstid list \<Rightarrow> zstid \<Rightarrow> nat \<Rightarrow> zs_error + zstid list" where
  "add_item_tids s tid 0 = Inr s"
| "add_item_tids s tid (Suc n) =
     (case intset_add_member s tid of
        Inl e \<Rightarrow> Inl e
      | Inr s' \<Rightarrow> add_item_tids s' (Suc tid) n)"

text \<open>The loop over the items of one page.\<close>

fun collect_page_items :: "ZSTidArrayItem list \<Rightarrow> zstid list \<Rightarrow> zs_error + zstid list" where
  "collect_page_items [] s = Inr s"
| "collect_page_items (item # items) s =
     (if item_is_dead item
      then (case add_item_tids s (t_tid item) (t_nelements item) of
              Inl e \<Rightarrow> Inl e
            | Inr s' \<Rightarrow> collect_page_items items s')
      else collect_page_items items s)"

text \<open>
  The \<open>for (;;)\<close> loop with its variables \<open>buf\<close>, \<open>nexttid\<close>, \<open>nextblock\<close> and \<open>result\<close>.
  The loop need not end on a malformed tree, so the function is partial: no value means
  that the loop runs forever.  A value is an error or the set with \<open>*endtid\<close>, which the
  code leaves unassigned when the tree is empty.  With \<open>nextblock\<close> invalid and \<open>buf\<close>
  valid the code reads the uninitialised \<open>page\<close>, reported as an invalid access.
\<close>

partial_function (option) collect_dead_loop ::
    "(zstid list \<Rightarrow> nat) \<Rightarrow> zs_params \<Rightarrow> tidtree \<Rightarrow> BlockNumber option \<Rightarrow> zstid
       \<Rightarrow> BlockNumber option \<Rightarrow> zstid list
       \<Rightarrow> (zs_error + (zstid list \<times> zstid option)) option" where
  "collect_dead_loop intset_memory_usage P tree buf nexttid nextblock result =
     (case (case nextblock of
              Some nb \<Rightarrow>
                if nb \<ge> length tree then Inl InvalidBufferAccess
                else if zsbt_page_is_expected tree nexttid nb then Inr (Some nb)
                else Inr None
            | None \<Rightarrow>
                (case buf of None \<Rightarrow> Inr None | Some b \<Rightarrow> Inl InvalidBufferAccess)) of
        Inl e \<Rightarrow> Some (Inl e)
      | Inr buf1 \<Rightarrow>
          (case (case buf1 of Some b \<Rightarrow> Some b | None \<Rightarrow> zsbt_descend tree nexttid) of
             None \<Rightarrow> Some (Inr (result, None))
           | Some b \<Rightarrow>
               (case collect_page_items (tiditems (tree ! b)) result of
                  Inl e \<Rightarrow> Some (Inl e)
                | Inr result' \<Rightarrow>
                    if zs_hikey (tree ! b) = MaxPlusOneZSTid P
                    then Some (Inr (result', Some (zs_hikey (tree ! b))))
                    else if intset_memory_usage result' > maintenance_work_mem P * 1024
                    then Some (Inr (result', Some (zs_hikey (tree ! b))))
                    else collect_dead_loop intset_memory_usage P tree (Some b)
                           (zs_hikey (tree ! b)) (zs_next (tree ! b)) result')))"

text \<open>
  \<open>zsbt_collect_dead_tids\<close>: the loop started at \<open>starttid\<close> with the empty set; the result
  is the set and \<open>*endtid\<close>, which stays unassigned when the loop meets no page.
\<close>

definition zsbt_collect_dead_tids ::
    "(zstid list \<Rightarrow> nat) \<Rightarrow> zs_params \<Rightarrow> tidtree \<Rightarrow> zstid
       \<Rightarrow> (zs_error + (zstid list \<times> zstid option)) option" where
  "zsbt_collect_dead_tids intset_memory_usage P tree starttid =
     collect_dead_loop intset_memory_usage P tree None starttid None []"

text \<open>The TIDs of the \<open>DEAD\<close> items of a leaf, in order.\<close>

definition dead_tids_of_page :: "ZSTidPage \<Rightarrow> zstid list" where
  "dead_tids_of_page page =
     concat (map (\<lambda>item. if item_is_dead item
                           then [t_tid item ..< t_tid item + t_nelements item] else [])
               (tiditems page))"

text \<open>
  The walk in the words of the specification: enumerate the dead TIDs leaf by leaf,
  following the right-links, until the rightmost leaf has been scanned or the memory
  budget is exceeded; return the set and the high key of the last leaf scanned.
\<close>

fun collect_walk ::
    "(zstid list \<Rightarrow> nat) \<Rightarrow> zs_params \<Rightarrow> ZSTidPage list \<Rightarrow> zstid list
       \<Rightarrow> zstid list \<times> zstid option" where
  "collect_walk intset_memory_usage P [] acc = (acc, None)"
| "collect_walk intset_memory_usage P (leaf # rest) acc =
     (if rest = [] \<or> intset_memory_usage (acc @ dead_tids_of_page leaf)
                        > maintenance_work_mem P * 1024
      then (acc @ dead_tids_of_page leaf, Some (zs_hikey leaf))
      else collect_walk intset_memory_usage P rest (acc @ dead_tids_of_page leaf))"

section \<open>A tree of two leaves\<close>

definition two_leaf_tree :: tidtree where
  "two_leaf_tree =
     [\<lparr> zs_next = Some 1, zs_lokey = 1, zs_hikey = 10, zs_flags = 0,
        tiditems = [\<lparr> t_tid = 1, t_nelements = 3, t_undo_ptr = 0, t_flags = 1 \<rparr>,
                    \<lparr> t_tid = 4, t_nelements = 2, t_undo_ptr = 7, t_flags = 0 \<rparr>] \<rparr>,
      \<lparr> zs_next = None, zs_lokey = 10, zs_hikey = 1000, zs_flags = 0,
        tiditems = [\<lparr> t_tid = 10, t_nelements = 1, t_undo_ptr = 0, t_flags = 1 \<rparr>] \<rparr>]"

section \<open>Attribute tree: \<open>zsbt_attr_add_items\<close>\<close>

text \<open>
  An attribute array item covers the TID range \<open>[t_firsttid, t_endtid)\<close>; the merge reads
  these two fields and \<open>t_size\<close> only, the rest of the item is the payload.  The pieces
  made by \<open>zsbt_split_item\<close> are read through the same pointer type, so they are items of
  the same record.  \<open>zsbt_split_item\<close> is not among the sources and is a parameter: it
  takes the item and the first TID of the right-hand piece and returns both pieces.
\<close>

record 'p ZSAttributeArrayItem =
  t_size :: nat
  t_firsttid :: zstid
  t_endtid :: zstid
  t_payload :: 'p









section \<open>Scanning the TID tree: \<open>zsbt_tid_scan_next\<close>\<close>

text \<open>
  The fields of \<open>ZSBtreeScan\<close> that \<open>zsbt_tid_scan_next\<close> reads or writes.  \<open>lastbuf\<close> is a
  block number or no buffer; the two array counters are C \<open>int\<close>s.
\<close>

record ZSBtreeScan =
  scan_active :: bool
  scan_lastbuf :: "BlockNumber option"
  scan_nexttid :: zstid
  scan_endtid :: zstid
  scan_array_undoptr :: ZSUndoRecPtr
  scan_array_num_elements :: int
  scan_array_next_datum :: int
  scan_serializable :: bool

text \<open>
  \<open>zs_SatisfiesVisibility\<close> and \<open>CheckForSerializableConflictOut\<close> are not among the sources
  and are parameters: the first maps the undo pointer of an item to the verdict and the
  obsoleting transaction, the second tells whether the conflict check raises its error.
\<close>

type_synonym scan_visibility = "ZSUndoRecPtr \<Rightarrow> bool \<times> TransactionId"

type_synonym conflict_out = "TransactionId \<Rightarrow> bool"

text \<open>\<open>InvalidTransactionId\<close> is the constant 0 of \<open>access/transam.h\<close>.\<close>

definition InvalidTransactionId :: TransactionId where
  "InvalidTransactionId = 0"

definition TransactionIdIsValid :: "TransactionId \<Rightarrow> bool" where
  "TransactionIdIsValid xid = (xid \<noteq> InvalidTransactionId)"

text \<open>
  \<open>zsbt_tid_begin_scan\<close> fills in the caller's scan structure; the fields it does not assign
  keep the values of \<open>scan\<close>.
\<close>

definition zsbt_tid_begin_scan :: "tidtree \<Rightarrow> zstid \<Rightarrow> zstid \<Rightarrow> ZSBtreeScan \<Rightarrow> ZSBtreeScan" where
  "zsbt_tid_begin_scan tree starttid endtid scan =
     (let scan1 = scan \<lparr> scan_nexttid := starttid, scan_endtid := endtid,
                         scan_array_undoptr := 0, scan_array_num_elements := 0,
                         scan_array_next_datum := 0 \<rparr>
      in case zsbt_descend tree starttid of
           None \<Rightarrow> scan1 \<lparr> scan_active := False, scan_lastbuf := None \<rparr>
         | Some buf \<Rightarrow> scan1 \<lparr> scan_active := True, scan_lastbuf := Some buf \<rparr>)"

text \<open>
  The loop of \<open>zsbt_tid_scan_extract_array\<close> that skips the elements before \<open>nexttid\<close>.
\<close>

function extract_skip :: "zstid \<Rightarrow> zstid \<Rightarrow> int \<Rightarrow> zstid \<times> int" where
  "extract_skip nexttid tid nelements =
     (if tid < nexttid \<and> nelements > 0 then extract_skip nexttid (tid + 1) (nelements - 1)
      else (tid, nelements))"
  by pat_completeness auto
termination
  by (relation "measure (\<lambda>(nexttid, tid, nelements). nat nelements)") auto

declare extract_skip.simps [simp del]

text \<open>
  \<open>endtid - tid\<close> is a 64-bit difference stored in an \<open>int\<close>; the model takes the difference
  in \<open>int\<close>, which is the C value whenever it fits.
\<close>

definition zsbt_tid_scan_extract_array :: "ZSBtreeScan \<Rightarrow> ZSTidArrayItem \<Rightarrow> ZSBtreeScan" where
  "zsbt_tid_scan_extract_array scan aitem =
     (let skipped = extract_skip (scan_nexttid scan) (t_tid aitem) (int (t_nelements aitem));
          tid = fst skipped;
          nelements = (if int tid + snd skipped > int (scan_endtid scan)
                       then int (scan_endtid scan) - int tid else snd skipped)
      in scan \<lparr> scan_array_undoptr := t_undo_ptr aitem,
                scan_array_num_elements := nelements,
                scan_array_next_datum := 0,
                scan_nexttid := (if scan_nexttid scan < tid then tid else scan_nexttid scan) \<rparr>)"

text \<open>
  The \<open>for\<close> loop over the items of the locked page.  It ends at the end of the array, at
  the first item at or after \<open>endtid\<close>, or at the first visible item that leaves elements in
  the array.
\<close>

fun scan_page_items ::
    "scan_visibility \<Rightarrow> conflict_out \<Rightarrow> ZSTidArrayItem list \<Rightarrow> ZSBtreeScan
       \<Rightarrow> zs_error + ZSBtreeScan" where
  "scan_page_items zs_SatisfiesVisibility conflict [] scan = Inr scan"
| "scan_page_items zs_SatisfiesVisibility conflict (item # rest) scan =
     (let lasttid = zsbt_tid_item_lasttid item
      in if scan_nexttid scan > lasttid
         then scan_page_items zs_SatisfiesVisibility conflict rest scan
         else if t_tid item \<ge> scan_endtid scan
         then Inr (scan \<lparr> scan_nexttid := scan_endtid scan \<rparr>)
         else
           let verdict = (if (t_flags item AND ZSBT_TID_DEAD) \<noteq> 0
                          then (False, InvalidTransactionId)
                          else zs_SatisfiesVisibility (t_undo_ptr item))
           in if \<not> fst verdict
              then if scan_serializable scan \<and> TransactionIdIsValid (snd verdict)
                        \<and> conflict (snd verdict)
                   then Inl SerializationFailure
                   else scan_page_items zs_SatisfiesVisibility conflict rest
                          (scan \<lparr> scan_nexttid := lasttid + 1 \<rparr>)
              else
                let scan1 = zsbt_tid_scan_extract_array scan item
                in if scan_array_next_datum scan1 < scan_array_num_elements scan1
                   then Inr scan1
                   else scan_page_items zs_SatisfiesVisibility conflict rest scan1)"

text \<open>
  Which page the next iteration reads: the page of \<open>lastbuf\<close> if it is still the page of
  \<open>nexttid\<close>; its right sibling if it was the page of \<open>nexttid - 1\<close> (a 64-bit decrement)
  and has one, in which case the loop starts over with the sibling as \<open>lastbuf\<close>;
  otherwise the page found from the root.
\<close>

datatype scan_page = OnPage BlockNumber | FollowRight BlockNumber

definition uint64_dec :: "zstid \<Rightarrow> zstid" where
  "uint64_dec tid = (if tid = 0 then 2 ^ 64 - 1 else tid - 1)"

definition scan_descend :: "tidtree \<Rightarrow> ZSBtreeScan \<Rightarrow> zs_error + scan_page" where
  "scan_descend tree scan =
     (case zsbt_descend tree (scan_nexttid scan) of
        None \<Rightarrow> Inl InvalidBufferAccess
      | Some buf \<Rightarrow> Inr (OnPage buf))"

definition scan_locate_page :: "tidtree \<Rightarrow> ZSBtreeScan \<Rightarrow> zs_error + scan_page" where
  "scan_locate_page tree scan =
     (case scan_lastbuf scan of
        None \<Rightarrow> scan_descend tree scan
      | Some buf \<Rightarrow>
          if buf \<ge> length tree then Inl InvalidBufferAccess
          else if zsbt_page_is_expected tree (scan_nexttid scan) buf then Inr (OnPage buf)
          else if zsbt_page_is_expected tree (uint64_dec (scan_nexttid scan)) buf
          then (case zs_next (tree ! buf) of
                  Some next \<Rightarrow> Inr (FollowRight next)
                | None \<Rightarrow> scan_descend tree scan)
          else scan_descend tree scan)"

text \<open>The scan after the last item of a page: \<open>nexttid\<close> is at least the page's high key.\<close>

definition scan_past_page :: "ZSTidPage \<Rightarrow> ZSBtreeScan \<Rightarrow> ZSBtreeScan" where
  "scan_past_page page scan =
     (if scan_nexttid scan < zs_hikey page then scan \<lparr> scan_nexttid := zs_hikey page \<rparr>
      else scan)"

definition scan_deactivate :: "ZSBtreeScan \<Rightarrow> ZSBtreeScan" where
  "scan_deactivate scan =
     scan \<lparr> scan_active := False, scan_array_num_elements := 0, scan_array_next_datum := 0,
            scan_lastbuf := None \<rparr>"

text \<open>
  The \<open>while\<close> loop of \<open>zsbt_tid_scan_next\<close> with its exits: the end marker when \<open>nexttid\<close>
  has reached \<open>endtid\<close>, the next element of the array (\<open>have_array\<close>), an error, or the end
  of the tree.  \<open>buf_is_locked\<close> is false at the head of every iteration and is left out.
\<close>

partial_function (option) scan_next_loop ::
    "scan_visibility \<Rightarrow> conflict_out \<Rightarrow> tidtree \<Rightarrow> ZSBtreeScan
       \<Rightarrow> (zs_error + zstid \<times> ZSBtreeScan) option" where
  "scan_next_loop zs_SatisfiesVisibility conflict tree scan =
     (if \<not> scan_nexttid scan < scan_endtid scan then Some (Inr (InvalidZSTid, scan))
      else if scan_array_next_datum scan < scan_array_num_elements scan
      then Some (Inr (scan_nexttid scan,
                      scan \<lparr> scan_array_next_datum := scan_array_next_datum scan + 1,
                             scan_nexttid := scan_nexttid scan + 1 \<rparr>))
      else
        (case scan_locate_page tree scan of
           Inl e \<Rightarrow> Some (Inl e)
         | Inr (FollowRight next) \<Rightarrow>
             scan_next_loop zs_SatisfiesVisibility conflict tree
               (scan \<lparr> scan_lastbuf := Some next \<rparr>)
         | Inr (OnPage buf) \<Rightarrow>
             (case scan_page_items zs_SatisfiesVisibility conflict (tiditems (tree ! buf))
                     (scan \<lparr> scan_lastbuf := Some buf \<rparr>) of
                Inl e \<Rightarrow> Some (Inl e)
              | Inr scan1 \<Rightarrow>
                  if scan_array_next_datum scan1 < scan_array_num_elements scan1
                  then scan_next_loop zs_SatisfiesVisibility conflict tree scan1
                  else if zs_next (tree ! buf) = Some buf
                  then Some (Inl NextPointerPointsToItself)
                  else if zs_next (tree ! buf) = None
                          \<or> scan_nexttid (scan_past_page (tree ! buf) scan1)
                               \<ge> scan_endtid (scan_past_page (tree ! buf) scan1)
                  then Some (Inr (InvalidZSTid,
                                  scan_deactivate (scan_past_page (tree ! buf) scan1)))
                  else scan_next_loop zs_SatisfiesVisibility conflict tree
                         (scan_past_page (tree ! buf) scan1
                            \<lparr> scan_lastbuf := zs_next (tree ! buf) \<rparr>))))"

definition zsbt_tid_scan_next ::
    "scan_visibility \<Rightarrow> conflict_out \<Rightarrow> tidtree \<Rightarrow> ZSBtreeScan
       \<Rightarrow> (zs_error + zstid \<times> ZSBtreeScan) option" where
  "zsbt_tid_scan_next zs_SatisfiesVisibility conflict tree scan =
     (if \<not> scan_active scan then Some (Inr (InvalidZSTid, scan))
      else scan_next_loop zs_SatisfiesVisibility conflict tree scan)"

text \<open>
  A TID is visible in the tree: a leaf holds an item that covers it, is not \<open>DEAD\<close>, and
  whose undo pointer satisfies the visibility check.
\<close>

definition tid_visible :: "scan_visibility \<Rightarrow> tidtree \<Rightarrow> zstid \<Rightarrow> bool" where
  "tid_visible zs_SatisfiesVisibility tree tid =
     list_ex (\<lambda>page. list_ex (\<lambda>item. item_covers item tid \<and> \<not> item_is_dead item
                                     \<and> fst (zs_SatisfiesVisibility (t_undo_ptr item)))
                       (tiditems page)) tree"

text \<open>
  The elements left in the array of a scan are TIDs of one visible item of the page of
  \<open>lastbuf\<close>, starting at \<open>nexttid\<close> and ending before \<open>endtid\<close>.
\<close>

definition array_ok :: "scan_visibility \<Rightarrow> tidtree \<Rightarrow> ZSBtreeScan \<Rightarrow> bool" where
  "array_ok zs_SatisfiesVisibility tree scan =
     (scan_array_next_datum scan < scan_array_num_elements scan \<longrightarrow>
        (\<exists>buf item. scan_lastbuf scan = Some buf \<and> buf < length tree
           \<and> item \<in> set (tiditems (tree ! buf))
           \<and> \<not> item_is_dead item \<and> fst (zs_SatisfiesVisibility (t_undo_ptr item))
           \<and> t_tid item \<le> scan_nexttid scan
           \<and> int (scan_nexttid scan)
                + (scan_array_num_elements scan - scan_array_next_datum scan)
               \<le> int (t_tid item + t_nelements item)
           \<and> int (scan_nexttid scan)
                + (scan_array_num_elements scan - scan_array_next_datum scan)
               \<le> int (scan_endtid scan)))"

text \<open>
  What holds of a scan between two calls: the page of \<open>lastbuf\<close> is the page of \<open>nexttid\<close>
  or the page that ends there, and the array is as above.
\<close>

definition scan_inv :: "scan_visibility \<Rightarrow> tidtree \<Rightarrow> ZSBtreeScan \<Rightarrow> bool" where
  "scan_inv zs_SatisfiesVisibility tree scan =
     ((case scan_lastbuf scan of
         None \<Rightarrow> True
       | Some buf \<Rightarrow> buf < length tree \<and> zs_lokey (tree ! buf) \<le> scan_nexttid scan
                      \<and> scan_nexttid scan \<le> zs_hikey (tree ! buf))
      \<and> array_ok zs_SatisfiesVisibility tree scan)"

text \<open>
  What one call returns, for a scan that stood at \<open>nexttid\<close> with the bound \<open>endtid\<close>: an
  error, the end marker with a scan that is inactive or has reached \<open>endtid\<close>, or a visible
  TID at or after \<open>nexttid\<close> and before \<open>endtid\<close> with the scan left just behind it.
\<close>

definition scan_post ::
    "scan_visibility \<Rightarrow> tidtree \<Rightarrow> zstid \<Rightarrow> zstid \<Rightarrow> zs_error + zstid \<times> ZSBtreeScan \<Rightarrow> bool" where
  "scan_post zs_SatisfiesVisibility tree nexttid endtid res =
     (case res of
        Inl e \<Rightarrow> True
      | Inr (tid, scan') \<Rightarrow>
          scan_inv zs_SatisfiesVisibility tree scan' \<and> scan_endtid scan' = endtid
          \<and> nexttid \<le> scan_nexttid scan'
          \<and> ((tid = InvalidZSTid \<and> (\<not> scan_active scan' \<or> endtid \<le> scan_nexttid scan'))
              \<or> (nexttid \<le> tid \<and> tid < endtid \<and> scan_nexttid scan' = tid + 1
                  \<and> tid_visible zs_SatisfiesVisibility tree tid)))"

text \<open>
  The results of \<open>n\<close> successive calls of \<open>zsbt_tid_scan_next\<close> on a tree that does not
  change in between, as the caller sees them; a call that raises an error ends the
  sequence.  No value means that a call does not return.
\<close>

fun scan_next_calls ::
    "nat \<Rightarrow> scan_visibility \<Rightarrow> conflict_out \<Rightarrow> tidtree \<Rightarrow> ZSBtreeScan \<Rightarrow> zstid list option" where
  "scan_next_calls 0 zs_SatisfiesVisibility conflict tree scan = Some []"
| "scan_next_calls (Suc n) zs_SatisfiesVisibility conflict tree scan =
     (case zsbt_tid_scan_next zs_SatisfiesVisibility conflict tree scan of
        None \<Rightarrow> None
      | Some (Inl e) \<Rightarrow> Some []
      | Some (Inr (tid, scan')) \<Rightarrow>
          (case scan_next_calls n zs_SatisfiesVisibility conflict tree scan' of
             None \<Rightarrow> None
           | Some tids \<Rightarrow> Some (tid # tids)))"

text \<open>A visibility check that accepts every undo pointer, and a conflict check that never
  raises.\<close>

definition all_visible :: scan_visibility where
  "all_visible undo_ptr = (True, InvalidTransactionId)"

definition no_conflict :: conflict_out where
  "no_conflict xid = False"

definition blank_scan :: ZSBtreeScan where
  "blank_scan =
     \<lparr> scan_active = False, scan_lastbuf = None, scan_nexttid = 0, scan_endtid = 0,
       scan_array_undoptr = 0, scan_array_num_elements = 0, scan_array_next_datum = 0,
       scan_serializable = False \<rparr>"

text \<open>A TID is covered by an item whose \<open>DEAD\<close> flag is set.\<close>

definition tid_dead :: "tidtree \<Rightarrow> zstid \<Rightarrow> bool" where
  "tid_dead tree tid =
     list_ex (\<lambda>page. list_ex (\<lambda>item. item_covers item tid \<and> item_is_dead item)
                       (tiditems page)) tree"

text \<open>
  The \<open>DEAD\<close> flag is written by \<open>zsbt_tid_mark_dead\<close> only, on an item for one TID with
  no undo pointer, and items are never merged: every \<open>DEAD\<close> item of a tree is such an
  item.
\<close>

definition dead_items_single :: "tidtree \<Rightarrow> bool" where
  "dead_items_single tree =
     list_all (\<lambda>page. list_all (\<lambda>item. item_is_dead item \<longrightarrow> item = deaditem (t_tid item))
                         (tiditems page)) tree"

text \<open>An empty leaf over \<open>[1, hikey)\<close> and three single-TID items, for concrete repacks.\<close>

definition empty_leaf :: "zstid \<Rightarrow> ZSTidPage" where
  "empty_leaf hikey =
     \<lparr> zs_next = None, zs_lokey = 1, zs_hikey = hikey, zs_flags = 0, tiditems = [] \<rparr>"

definition three_items :: "ZSTidArrayItem list" where
  "three_items = [zsbt_tid_create_item 1 0 1, zsbt_tid_create_item 2 0 1,
                  zsbt_tid_create_item 3 0 1]"

text \<open>
  What one call returns when no error can be raised, for a scan that stood at \<open>nexttid\<close>:
  the end marker, with the scan at or after \<open>endtid\<close> and no visible TID left in
  \<open>[nexttid, endtid)\<close>; or a TID before \<open>endtid\<close> with no visible TID in front of it.
\<close>

definition scan_exact ::
    "scan_visibility \<Rightarrow> tidtree \<Rightarrow> zstid \<Rightarrow> zstid \<Rightarrow> bool
       \<Rightarrow> zs_error + zstid \<times> ZSBtreeScan \<Rightarrow> bool" where
  "scan_exact zs_SatisfiesVisibility tree nexttid endtid serializable res =
     (case res of
        Inl e \<Rightarrow> False
      | Inr (tid, scan') \<Rightarrow>
          scan_serializable scan' = serializable
          \<and> ((tid = InvalidZSTid \<and> endtid \<le> scan_nexttid scan'
               \<and> (\<forall>t. nexttid \<le> t \<and> t < endtid
                      \<longrightarrow> \<not> tid_visible zs_SatisfiesVisibility tree t))
              \<or> (tid \<noteq> InvalidZSTid \<and> scan_active scan' \<and> tid < endtid
                  \<and> (\<forall>t. nexttid \<le> t \<and> t < tid
                         \<longrightarrow> \<not> tid_visible zs_SatisfiesVisibility tree t))))"



definition attr_tids :: "zstid list ZSAttributeArrayItem list \<Rightarrow> zstid list" where
  "attr_tids items = concat (map t_payload items)"





section \<open>Theorems\<close>

lemma space_on_empty_page_example: "space_on_empty_page example_params = 8136"
  by (simp add: space_on_empty_page_def example_params_def MAXALIGN_def)

text \<open>
  C3 (as stated, refuted).  For the rightmost leaf the claim says the earlier pages
  share 90% of the remaining free space and the last page gets 10%.  With 300 items of
  32 bytes on 8 kB pages two pages are needed and 6672 bytes stay free; the code asks
  the first page to keep 667 bytes (a tenth), not the 6004 bytes of the claim.
\<close>

theorem C3_rightmost_counterexample:
  "zsbt_tid_recompress_picksplit example_params (MaxPlusOneZSTid example_params) 300
     = Inr (2, 667)
   \<and> spec_rightmost_free_space_per_page (8136 * 2 - 300 * 32) 2 = 6004"
  by (simp add: zsbt_tid_recompress_picksplit_def space_on_empty_page_example
      tenth_of_free_space_per_page_def spec_rightmost_free_space_per_page_def Let_def)
    (simp add: example_params_def)

lemma binsrch_loop_bounds:
  assumes "low \<le> high" "high \<le> length arr"
    and "sorted_wrt (\<lambda>a b. t_tid a < t_tid b) arr"
    and "\<forall>j<low. t_tid (arr ! j) \<le> key"
    and "\<forall>j. high \<le> j \<and> j < length arr \<longrightarrow> key < t_tid (arr ! j)"
  shows "low \<le> binsrch_loop key arr low high \<and> binsrch_loop key arr low high \<le> high
     \<and> (\<forall>j<binsrch_loop key arr low high. t_tid (arr ! j) \<le> key)
     \<and> (\<forall>j. binsrch_loop key arr low high \<le> j \<and> j < length arr \<longrightarrow> key < t_tid (arr ! j))"
  using assms
proof (induction key arr low high rule: binsrch_loop.induct)
  case (1 key arr low high)
  let ?mid = "low + (high - low) div 2"
  show ?case
  proof (cases "high > low")
    case False
    with "1.prems" show ?thesis by (simp add: binsrch_loop.simps [of key arr low high])
  next
    case hl: True
    then have midlt: "?mid < high" "low \<le> ?mid" by auto
    show ?thesis
    proof (cases "key \<ge> t_tid (arr ! ?mid)")
      case True
      have below: "\<forall>j<?mid + 1. t_tid (arr ! j) \<le> key"
      proof (intro allI impI)
        fix j assume "j < ?mid + 1"
        then have "j = ?mid \<or> j < ?mid" by auto
        then show "t_tid (arr ! j) \<le> key"
        proof
          assume "j = ?mid" with True show ?thesis by simp
        next
          assume "j < ?mid"
          with "1.prems"(2,3) midlt have "t_tid (arr ! j) < t_tid (arr ! ?mid)"
            by (simp add: sorted_wrt_iff_nth_less)
          with True show ?thesis by simp
        qed
      qed
      have ih: "?mid + 1 \<le> binsrch_loop key arr (?mid + 1) high \<and> binsrch_loop key arr (?mid + 1) high \<le> high
     \<and> (\<forall>j<binsrch_loop key arr (?mid + 1) high. t_tid (arr ! j) \<le> key)
     \<and> (\<forall>j. binsrch_loop key arr (?mid + 1) high \<le> j \<and> j < length arr \<longrightarrow> key < t_tid (arr ! j))"
        using "1.IH"(1) [OF hl True _ "1.prems"(2) "1.prems"(3) below "1.prems"(5)] midlt by simp
      have eq: "binsrch_loop key arr low high = binsrch_loop key arr (?mid + 1) high"
        using hl True by (simp add: binsrch_loop.simps [of key arr low high])
      show ?thesis unfolding eq using ih by auto
    next
      case False
      have above: "\<forall>j. ?mid \<le> j \<and> j < length arr \<longrightarrow> key < t_tid (arr ! j)"
      proof (intro allI impI)
        fix j assume j: "?mid \<le> j \<and> j < length arr"
        then have "j = ?mid \<or> ?mid < j" by auto
        then show "key < t_tid (arr ! j)"
        proof
          assume "j = ?mid" with False show ?thesis by simp
        next
          assume "?mid < j"
          with "1.prems"(3) j have "t_tid (arr ! ?mid) < t_tid (arr ! j)"
            by (simp add: sorted_wrt_iff_nth_less)
          with False show ?thesis by simp
        qed
      qed
      have ih: "low \<le> binsrch_loop key arr low ?mid \<and> binsrch_loop key arr low ?mid \<le> ?mid
     \<and> (\<forall>j<binsrch_loop key arr low ?mid. t_tid (arr ! j) \<le> key)
     \<and> (\<forall>j. binsrch_loop key arr low ?mid \<le> j \<and> j < length arr \<longrightarrow> key < t_tid (arr ! j))"
        using "1.IH"(2) [OF hl False _ _ "1.prems"(3) "1.prems"(4) above] midlt "1.prems"(2) by simp
      have eq: "binsrch_loop key arr low high = binsrch_loop key arr low ?mid"
        using hl False by (simp add: binsrch_loop.simps [of key arr low high])
      show ?thesis unfolding eq using ih midlt by auto
    qed
  qed
qed

lemma items_ordered_strict:
  "items_ordered items \<Longrightarrow> sorted_wrt (\<lambda>a b. t_tid a < t_tid b) items"
proof -
  assume a: "items_ordered items"
  then have s: "sorted_wrt (\<lambda>a b. t_tid a + t_nelements a \<le> t_tid b) items"
    and p: "\<forall>item\<in>set items. 0 < t_nelements item"
    by (simp_all add: items_ordered_def list_all_iff)
  show ?thesis
    unfolding sorted_wrt_iff_nth_less
  proof (intro allI impI)
    fix i j assume "i < j" "j < length items"
    with s have "t_tid (items ! i) + t_nelements (items ! i) \<le> t_tid (items ! j)"
      by (simp add: sorted_wrt_iff_nth_less)
    moreover have "0 < t_nelements (items ! i)"
      using p \<open>i < j\<close> \<open>j < length items\<close> by simp
    ultimately show "t_tid (items ! i) < t_tid (items ! j)" by linarith
  qed
qed

lemma binsrch_finds_covering:
  assumes ord: "items_ordered items" and i: "i < length items"
    and cov: "item_covers (items ! i) tid"
  shows "zsbt_binsrch_tidpage tid items (length items) = int i"
proof -
  let ?r = "binsrch_loop tid items 0 (length items)"
  have st: "sorted_wrt (\<lambda>a b. t_tid a < t_tid b) items"
    using ord by (rule items_ordered_strict)
  have b: "0 \<le> ?r \<and> ?r \<le> length items
     \<and> (\<forall>j<?r. t_tid (items ! j) \<le> tid)
     \<and> (\<forall>j. ?r \<le> j \<and> j < length items \<longrightarrow> tid < t_tid (items ! j))"
    by (rule binsrch_loop_bounds [OF _ _ st]) simp_all
  have s: "sorted_wrt (\<lambda>a b. t_tid a + t_nelements a \<le> t_tid b) items"
    using ord by (simp add: items_ordered_def)
  have "i < ?r"
  proof (rule ccontr)
    assume "\<not> i < ?r"
    then have "?r \<le> i" by simp
    with b i have "tid < t_tid (items ! i)" by blast
    with cov show False by (simp add: item_covers_def)
  qed
  moreover have "\<not> Suc i < ?r"
  proof
    assume lt: "Suc i < ?r"
    with b have le: "t_tid (items ! Suc i) \<le> tid" by blast
    from lt b have "Suc i < length items" by linarith
    with s have "t_tid (items ! i) + t_nelements (items ! i) \<le> t_tid (items ! Suc i)"
      by (simp add: sorted_wrt_iff_nth_less)
    with le cov show False by (simp add: item_covers_def)
  qed
  ultimately have "?r = Suc i" by linarith
  then show ?thesis by (simp add: zsbt_binsrch_tidpage_def)
qed

lemma link_pages_items: "map tiditems (link_pages b nxt pages) = map tiditems pages"
  by (induction b nxt pages rule: link_pages.induct) simp_all

lemma link_pages_length: "length (link_pages b nxt pages) = length pages"
  by (induction b nxt pages rule: link_pages.induct) simp_all

lemma add_to_page_items:
  assumes "cxt_currpage cxt = Some c"
  shows "\<exists>cxt' c'. zsbt_tid_recompress_add_to_page P cxt item = Inr cxt'
           \<and> cxt_currpage cxt' = Some c'
           \<and> concat (map tiditems (cxt_stack cxt' @ [c']))
               = concat (map tiditems (cxt_stack cxt @ [c])) @ [item]"
  using assms
  by (simp add: zsbt_tid_recompress_add_to_page_def zsbt_tid_recompress_newpage_def Let_def)

lemma recompress_add_items_items:
  assumes "cxt_currpage cxt = Some c"
  shows "\<exists>cxt' c'. recompress_add_items P cxt items = Inr cxt'
           \<and> cxt_currpage cxt' = Some c'
           \<and> concat (map tiditems (cxt_stack cxt' @ [c']))
               = concat (map tiditems (cxt_stack cxt @ [c])) @ items"
  using assms
proof (induction items arbitrary: cxt c)
  case Nil
  then show ?case by simp
next
  case (Cons item items)
  from add_to_page_items [OF Cons.prems, of P item]
  obtain cxt1 c1 where a: "zsbt_tid_recompress_add_to_page P cxt item = Inr cxt1"
      "cxt_currpage cxt1 = Some c1"
      "concat (map tiditems (cxt_stack cxt1 @ [c1]))
               = concat (map tiditems (cxt_stack cxt @ [c])) @ [item]"
    by blast
  from Cons.IH [OF a(2)]
  obtain cxt' c' where b: "recompress_add_items P cxt1 items = Inr cxt'"
      "cxt_currpage cxt' = Some c'"
      "concat (map tiditems (cxt_stack cxt' @ [c']))
               = concat (map tiditems (cxt_stack cxt1 @ [c1])) @ items"
    by blast
  from a b show ?case by simp
qed

lemma MAXALIGN_ge: "n \<le> MAXALIGN n"
  unfolding MAXALIGN_def by presburger

lemma params_ok_space: "params_ok P \<Longrightarrow> 0 < space_on_empty_page P"
  using MAXALIGN_ge [of "sizeof_ZSTidArrayItem P"] by (simp add: params_ok_def)

lemma picksplit_ok:
  assumes "params_ok P" "0 < n"
  shows "\<exists>np fsp. zsbt_tid_recompress_picksplit P hikey n = Inr (np, fsp)"
proof -
  let ?space = "space_on_empty_page P"
  have sp: "0 < ?space" and sz: "0 < sizeof_ZSTidArrayItem P"
    using assms params_ok_space [of P] by (simp_all add: params_ok_def)
  have "0 < n * sizeof_ZSTidArrayItem P" using assms(2) sz by simp
  then have "?space \<le> n * sizeof_ZSTidArrayItem P + ?space - 1" by linarith
  then have "?space div ?space \<le> (n * sizeof_ZSTidArrayItem P + ?space - 1) div ?space"
    by (rule div_le_mono)
  with sp have "(n * sizeof_ZSTidArrayItem P + ?space - 1) div ?space \<noteq> 0" by simp
  with sp show ?thesis
    by (simp add: zsbt_tid_recompress_picksplit_def Let_def)
qed

lemma recompress_replace_shape:
  assumes ok: "params_ok P" and buf: "buf < length tree" and ne: "items \<noteq> []"
  shows "\<exists>p0 ps. zsbt_tid_recompress_replace P tree buf items = Inr (tree[buf := p0] @ ps)
           \<and> concat (map tiditems (p0 # ps)) = items"
proof -
  obtain np fsp where pk: "zsbt_tid_recompress_picksplit P (zs_hikey (tree ! buf)) (length items)
                             = Inr (np, fsp)"
    using picksplit_ok [OF ok, of "length items" "zs_hikey (tree ! buf)"] ne by auto
  let ?cxt0 = "\<lparr> cxt_stack = [], cxt_currpage = None, cxt_num_pages = np,
                  cxt_free_space_per_page = fsp, cxt_hikey = zs_hikey (tree ! buf) \<rparr>"
  let ?cxt1 = "zsbt_tid_recompress_newpage ?cxt0 (zs_lokey (tree ! buf))
                 (zs_flags (tree ! buf) AND ZSBT_ROOT P)"
  obtain c1 where c1: "cxt_currpage ?cxt1 = Some c1" "tiditems c1 = []" "cxt_stack ?cxt1 = []"
    by (simp add: zsbt_tid_recompress_newpage_def)
  from recompress_add_items_items [OF c1(1), of P items]
  obtain cxt c where a: "recompress_add_items P ?cxt1 items = Inr cxt"
      "cxt_currpage cxt = Some c"
      "concat (map tiditems (cxt_stack cxt @ [c])) = items"
    using c1 by auto
  let ?linked = "link_pages (length tree) (zs_next (tree ! buf)) (cxt_stack cxt @ [c])"
  have "length ?linked = length (cxt_stack cxt @ [c])" by (rule link_pages_length)
  then obtain head rest where l: "?linked = head # rest"
    by (cases ?linked) simp_all
  have m: "map tiditems (head # rest) = map tiditems (cxt_stack cxt @ [c])"
    using link_pages_items [of "length tree" "zs_next (tree ! buf)" "cxt_stack cxt @ [c]"] l
    by simp
  let ?head' = "if rest \<noteq> [] \<and> (zs_flags head AND ZSBT_ROOT P) \<noteq> 0
                  then head \<lparr> zs_flags := zs_flags head AND NOT (ZSBT_ROOT P) \<rparr> else head"
  have r: "zsbt_tid_recompress_replace P tree buf items = Inr (tree[buf := ?head'] @ rest)"
    using buf pk a l by (simp add: zsbt_tid_recompress_replace_def Let_def)
  have "concat (map tiditems (?head' # rest)) = concat (map tiditems (head # rest))"
    by simp
  also have "\<dots> = items" using m a(3) by metis
  finally show ?thesis using r by blast
qed

lemma rewrite_page_shape:
  assumes ok: "params_ok P" and buf: "buf < length tree"
  shows "(items \<noteq> [] \<longrightarrow>
           (\<exists>p0 ps. zsbt_tid_rewrite_page U P tree buf items = Inr (tree[buf := p0] @ ps)
              \<and> concat (map tiditems (p0 # ps)) = items))
       \<and> (items = [] \<longrightarrow>
           zsbt_tid_rewrite_page U P tree buf items
             = Inr (case U tree buf of Some tree' \<Rightarrow> tree'
                    | None \<Rightarrow> tree[buf := (tree ! buf) \<lparr> tiditems := [] \<rparr>]))"
  using recompress_replace_shape [OF ok buf, of items] buf
  by (auto simp: zsbt_tid_rewrite_page_def split: option.splits)

lemma leaf_rewritten_intro:
  assumes "buf < length tree" and "concat (map tiditems (p0 # ps)) = newitems"
  shows "leaf_rewritten tree buf newitems (tree[buf := p0] @ ps)"
  using assms by (simp add: leaf_rewritten_def nth_append)

lemma replace_item_result_raw:
  assumes ok: "params_ok P" and buf: "buf < length tree"
    and ord: "items_ordered (tiditems (tree ! buf))"
    and i: "i < length (tiditems (tree ! buf))"
    and cov: "item_covers (tiditems (tree ! buf) ! i) t"
    and bef: "before = (if t_tid (tiditems (tree ! buf) ! i) < t
                  then [\<lparr> t_tid = t_tid (tiditems (tree ! buf) ! i),
                          t_nelements = t - t_tid (tiditems (tree ! buf) ! i),
                          t_undo_ptr = t_undo_ptr (tiditems (tree ! buf) ! i),
                          t_flags = 0 \<rparr>]
                  else [])"
    and aft: "after = (if t + 1 < t_tid (tiditems (tree ! buf) ! i)
                                 + t_nelements (tiditems (tree ! buf) ! i)
                  then [\<lparr> t_tid = t + 1,
                          t_nelements = t_tid (tiditems (tree ! buf) ! i)
                                          + t_nelements (tiditems (tree ! buf) ! i) - (t + 1),
                          t_undo_ptr = t_undo_ptr (tiditems (tree ! buf) ! i),
                          t_flags = 0 \<rparr>]
                  else [])"
    and new: "newitems = take i (tiditems (tree ! buf)) @ before @ opt_list replacement
                           @ after @ drop (Suc i) (tiditems (tree ! buf))"
  shows "(newitems \<noteq> [] \<longrightarrow>
            (\<exists>p0 ps. zsbt_tid_replace_item U P tree buf t replacement
                        = Inr (tree[buf := p0] @ ps)
               \<and> concat (map tiditems (p0 # ps)) = newitems))
       \<and> (newitems = [] \<longrightarrow>
            zsbt_tid_replace_item U P tree buf t replacement
              = Inr (case U tree buf of Some tree' \<Rightarrow> tree'
                     | None \<Rightarrow> tree[buf := (tree ! buf) \<lparr> tiditems := [] \<rparr>]))
       \<and> (before @ opt_list replacement @ after \<noteq> []
           \<and> (length (before @ opt_list replacement @ after) - 1) * sizeof_ZSTidArrayItem P
                \<le> PageGetExactFreeSpace P (tree ! buf) \<longrightarrow>
            zsbt_tid_replace_item U P tree buf t replacement
              = Inr (tree[buf := (tree ! buf) \<lparr> tiditems := newitems \<rparr>]))"
proof -
  let ?items = "tiditems (tree ! buf)"
  let ?old = "?items ! i"
  have bs: "zsbt_binsrch_tidpage t ?items (length ?items) = int i"
    by (rule binsrch_finds_covering [OF ord i cov])
  have b1: "opt_list (replace_item_before ?old t) = before"
    using cov bef
    by (auto simp: replace_item_before_def opt_list_def zsbt_tid_create_item_def
        item_covers_def Let_def)
  have a1: "opt_list (replace_item_after ?old t) = after"
    using cov aft
    by (auto simp: replace_item_after_def opt_list_def zsbt_tid_create_item_def
        item_covers_def Let_def)
  define pieces where "pieces = before @ opt_list replacement @ after"
  have incov: "\<not> (t < t_tid ?old \<or> t_tid ?old + t_nelements ?old \<le> t)"
    using cov by (auto simp: item_covers_def)
  have new': "newitems = take i ?items @ pieces @ drop (Suc i) ?items"
    using new by (simp add: pieces_def)
  have pc: "opt_list (replace_item_before ?old t) @ opt_list replacement
              @ opt_list (replace_item_after ?old t) = pieces"
    using b1 a1 by (simp add: pieces_def)
  have unf: "zsbt_tid_replace_item U P tree buf t replacement
      = (if 0 \<le> int (length pieces) - 1
            \<and> nat (int (length pieces) - 1) * sizeof_ZSTidArrayItem P
                 \<le> PageGetExactFreeSpace P (tree ! buf)
         then Inr (tree[buf := (tree ! buf) \<lparr> tiditems := newitems \<rparr>])
         else zsbt_tid_rewrite_page U P tree buf newitems)"
    unfolding zsbt_tid_replace_item_def Let_def bs nat_int pc
    using buf incov new' by simp
  have natconv: "0 \<le> int (length pieces) - 1 \<Longrightarrow>
      nat (int (length pieces) - 1) = length pieces - 1"
    by linarith
  have inplace: "pieces \<noteq> [] \<and> (length pieces - 1) * sizeof_ZSTidArrayItem P
                \<le> PageGetExactFreeSpace P (tree ! buf) \<Longrightarrow>
            zsbt_tid_replace_item U P tree buf t replacement
              = Inr (tree[buf := (tree ! buf) \<lparr> tiditems := newitems \<rparr>])"
  proof -
    assume h: "pieces \<noteq> [] \<and> (length pieces - 1) * sizeof_ZSTidArrayItem P
                \<le> PageGetExactFreeSpace P (tree ! buf)"
    then have "0 < length pieces" by simp
    then have "0 \<le> int (length pieces) - 1" by linarith
    with h natconv unf show ?thesis by simp
  qed
  have rw: "(newitems \<noteq> [] \<longrightarrow>
           (\<exists>p0 ps. zsbt_tid_rewrite_page U P tree buf newitems = Inr (tree[buf := p0] @ ps)
              \<and> concat (map tiditems (p0 # ps)) = newitems))
       \<and> (newitems = [] \<longrightarrow>
           zsbt_tid_rewrite_page U P tree buf newitems
             = Inr (case U tree buf of Some tree' \<Rightarrow> tree'
                    | None \<Rightarrow> tree[buf := (tree ! buf) \<lparr> tiditems := [] \<rparr>]))"
    by (rule rewrite_page_shape [OF ok buf])
  have nonempty: "newitems \<noteq> [] \<longrightarrow>
            (\<exists>p0 ps. zsbt_tid_replace_item U P tree buf t replacement
                        = Inr (tree[buf := p0] @ ps)
               \<and> concat (map tiditems (p0 # ps)) = newitems)"
  proof
    assume ne: "newitems \<noteq> []"
    show "\<exists>p0 ps. zsbt_tid_replace_item U P tree buf t replacement
                        = Inr (tree[buf := p0] @ ps)
               \<and> concat (map tiditems (p0 # ps)) = newitems"
    proof (cases "0 \<le> int (length pieces) - 1
            \<and> nat (int (length pieces) - 1) * sizeof_ZSTidArrayItem P
                 \<le> PageGetExactFreeSpace P (tree ! buf)")
      case True
      then have "zsbt_tid_replace_item U P tree buf t replacement
          = Inr (tree[buf := (tree ! buf) \<lparr> tiditems := newitems \<rparr>])"
        by (simp only: unf simp_thms if_True)
      then have "zsbt_tid_replace_item U P tree buf t replacement
          = Inr (tree[buf := (tree ! buf) \<lparr> tiditems := newitems \<rparr>] @ [])" by simp
      moreover have "concat (map tiditems ((tree ! buf) \<lparr> tiditems := newitems \<rparr> # [])) = newitems"
        by simp
      ultimately show ?thesis by blast
    next
      case False
      then have "zsbt_tid_replace_item U P tree buf t replacement
          = zsbt_tid_rewrite_page U P tree buf newitems"
        by (simp only: unf simp_thms if_False)
      with rw ne show ?thesis by simp
    qed
  qed
  have empty: "newitems = [] \<longrightarrow>
            zsbt_tid_replace_item U P tree buf t replacement
              = Inr (case U tree buf of Some tree' \<Rightarrow> tree'
                     | None \<Rightarrow> tree[buf := (tree ! buf) \<lparr> tiditems := [] \<rparr>])"
  proof
    assume e: "newitems = []"
    with new' have "pieces = []" by simp
    then have "\<not> 0 \<le> int (length pieces) - 1" by simp
    then have "zsbt_tid_replace_item U P tree buf t replacement
          = zsbt_tid_rewrite_page U P tree buf newitems"
      by (simp only: unf simp_thms if_False)
    with rw e show "zsbt_tid_replace_item U P tree buf t replacement
              = Inr (case U tree buf of Some tree' \<Rightarrow> tree'
                     | None \<Rightarrow> tree[buf := (tree ! buf) \<lparr> tiditems := [] \<rparr>])" by simp
  qed
  from nonempty empty inplace show ?thesis unfolding pieces_def by blast
qed

lemma small_params_ok: "params_ok small_params"
  by (simp add: params_ok_def small_params_def space_on_empty_page_def MAXALIGN_def)

lemma replace_item_result:
  assumes ok: "params_ok P" and buf: "buf < length tree"
    and ord: "items_ordered (tiditems (tree ! buf))"
    and i: "i < length (tiditems (tree ! buf))"
    and cov: "item_covers (tiditems (tree ! buf) ! i) t"
  shows "(replace_slices (tiditems (tree ! buf)) i t replacement \<noteq> [] \<longrightarrow>
            (\<exists>tree'. zsbt_tid_replace_item U P tree buf t replacement = Inr tree'
               \<and> leaf_rewritten tree buf
                    (replace_slices (tiditems (tree ! buf)) i t replacement) tree'))
       \<and> (replace_slices (tiditems (tree ! buf)) i t replacement = [] \<longrightarrow>
            zsbt_tid_replace_item U P tree buf t replacement
              = Inr (case U tree buf of Some tree' \<Rightarrow> tree'
                     | None \<Rightarrow> tree[buf := (tree ! buf) \<lparr> tiditems := [] \<rparr>]))
       \<and> (slice_before (tiditems (tree ! buf) ! i) t @ opt_list replacement
              @ slice_after (tiditems (tree ! buf) ! i) t \<noteq> []
           \<and> (length (slice_before (tiditems (tree ! buf) ! i) t @ opt_list replacement
                        @ slice_after (tiditems (tree ! buf) ! i) t) - 1)
                * sizeof_ZSTidArrayItem P
                \<le> PageGetExactFreeSpace P (tree ! buf) \<longrightarrow>
            zsbt_tid_replace_item U P tree buf t replacement
              = Inr (tree[buf := (tree ! buf)
                       \<lparr> tiditems := replace_slices (tiditems (tree ! buf)) i t replacement \<rparr>]))"
proof -
  note raw = replace_item_result_raw [OF ok buf ord i cov refl refl refl,
      of replacement U, folded slice_before_def slice_after_def, folded replace_slices_def]
  have "replace_slices (tiditems (tree ! buf)) i t replacement \<noteq> [] \<longrightarrow>
            (\<exists>tree'. zsbt_tid_replace_item U P tree buf t replacement = Inr tree'
               \<and> leaf_rewritten tree buf
                    (replace_slices (tiditems (tree ! buf)) i t replacement) tree')"
    using raw leaf_rewritten_intro [OF buf] by blast
  with raw show ?thesis by blast
qed

text \<open>
  C4.  On a leaf whose items are ordered and do not overlap, replacing TID \<open>t\<close>, covered
  by the run at position \<open>i\<close>, puts in place of that run at most three pieces: the slice
  \<open>[t_tid, t)\<close> before, the optional replacement, the slice \<open>[t + 1, t_tid + n)\<close> after,
  the slices with the undo pointer of the run; all other items of the leaf are kept as
  they were.  The rewritten leaf is the old block, or the old block and new ones when
  the page had to be split; with nothing left the page is unlinked or emptied.
\<close>

theorem C4_replace_item_slices:
  assumes "params_ok P" and "buf < length tree"
    and "items_ordered (tiditems (tree ! buf))"
    and "i < length (tiditems (tree ! buf))"
    and "item_covers (tiditems (tree ! buf) ! i) t"
  shows "(replace_slices (tiditems (tree ! buf)) i t replacement \<noteq> [] \<longrightarrow>
            (\<exists>tree'. zsbt_tid_replace_item U P tree buf t replacement = Inr tree'
               \<and> leaf_rewritten tree buf
                    (replace_slices (tiditems (tree ! buf)) i t replacement) tree'))
       \<and> (replace_slices (tiditems (tree ! buf)) i t replacement = [] \<longrightarrow>
            zsbt_tid_replace_item U P tree buf t replacement
              = Inr (case U tree buf of Some tree' \<Rightarrow> tree'
                     | None \<Rightarrow> tree[buf := (tree ! buf) \<lparr> tiditems := [] \<rparr>]))
       \<and> (slice_before (tiditems (tree ! buf) ! i) t @ opt_list replacement
              @ slice_after (tiditems (tree ! buf) ! i) t \<noteq> []
           \<and> (length (slice_before (tiditems (tree ! buf) ! i) t @ opt_list replacement
                        @ slice_after (tiditems (tree ! buf) ! i) t) - 1)
                * sizeof_ZSTidArrayItem P
                \<le> PageGetExactFreeSpace P (tree ! buf) \<longrightarrow>
            zsbt_tid_replace_item U P tree buf t replacement
              = Inr (tree[buf := (tree ! buf)
                       \<lparr> tiditems := replace_slices (tiditems (tree ! buf)) i t replacement \<rparr>]))"
  using assms by (rule replace_item_result)

theorem C4_replace_item_slices_witness:
  "\<exists>tree'. zsbt_tid_replace_item no_unlink small_params [example_leaf] 0 3
               (Some \<lparr> t_tid = 3, t_nelements = 1, t_undo_ptr = 9, t_flags = 0 \<rparr>)
             = Inr tree'
         \<and> leaf_rewritten [example_leaf] 0
             [\<lparr> t_tid = 1, t_nelements = 2, t_undo_ptr = 7, t_flags = 0 \<rparr>,
              \<lparr> t_tid = 3, t_nelements = 1, t_undo_ptr = 9, t_flags = 0 \<rparr>,
              \<lparr> t_tid = 4, t_nelements = 2, t_undo_ptr = 7, t_flags = 0 \<rparr>] tree'"
proof -
  have buf: "0 < length [example_leaf]" by simp
  have ord: "items_ordered (tiditems ([example_leaf] ! 0))"
    by (simp add: items_ordered_def example_leaf_def)
  have i: "0 < length (tiditems ([example_leaf] ! 0))"
    by (simp add: example_leaf_def)
  have cov: "item_covers (tiditems ([example_leaf] ! 0) ! 0) 3"
    by (simp add: item_covers_def example_leaf_def)
  have sl: "replace_slices (tiditems ([example_leaf] ! 0)) 0 3
              (Some \<lparr> t_tid = 3, t_nelements = 1, t_undo_ptr = 9, t_flags = 0 \<rparr>)
            = [\<lparr> t_tid = 1, t_nelements = 2, t_undo_ptr = 7, t_flags = 0 \<rparr>,
               \<lparr> t_tid = 3, t_nelements = 1, t_undo_ptr = 9, t_flags = 0 \<rparr>,
               \<lparr> t_tid = 4, t_nelements = 2, t_undo_ptr = 7, t_flags = 0 \<rparr>]"
    by (simp add: replace_slices_def slice_before_def slice_after_def opt_list_def
        example_leaf_def)
  show ?thesis
    using C4_replace_item_slices [OF small_params_ok buf ord i cov,
        of "Some \<lparr> t_tid = 3, t_nelements = 1, t_undo_ptr = 9, t_flags = 0 \<rparr>" no_unlink]
    unfolding sl by simp
qed


lemma pages_cover_snoc:
  "pages_cover lo hi (ps @ [c])
     = (zs_hikey c = hi \<and> (if ps = [] then zs_lokey c = lo else pages_cover lo (zs_lokey c) ps))"
proof (induction ps arbitrary: lo)
  case Nil
  then show ?case by auto
next
  case (Cons p ps)
  show ?case
  proof (cases ps)
    case Nil
    then show ?thesis by auto
  next
    case (Cons q qs)
    with Cons.IH [of "zs_hikey p"] show ?thesis by auto
  qed
qed

lemma pages_cover_close:
  assumes "pages_cover L H (stack @ [c])" and "zs_lokey n = k" and "zs_hikey n = H"
  shows "pages_cover L H ((stack @ [c \<lparr> zs_hikey := k \<rparr>]) @ [n])"
proof -
  have "pages_cover L k (stack @ [c \<lparr> zs_hikey := k \<rparr>])"
    using assms(1) by (simp add: pages_cover_snoc)
  then show ?thesis
    using assms(2,3) pages_cover_snoc [of L H "stack @ [c \<lparr> zs_hikey := k \<rparr>]" n]
    by simp
qed

lemma items_within_mono:
  "items_within lo B items \<Longrightarrow> B \<le> B' \<Longrightarrow> items_within lo B' items"
  by (auto simp: items_within_def list_all_iff)

lemma items_ordered_snoc:
  assumes "items_ordered items" "items_within lo B items" "B \<le> t_tid x" "0 < t_nelements x"
  shows "items_ordered (items @ [x])"
  using assms
  by (auto simp: items_ordered_def items_within_def list_all_iff sorted_wrt_append)

lemma items_within_snoc:
  assumes "items_within lo B items" "lo \<le> t_tid x" "B \<le> t_tid x"
  shows "items_within lo (t_tid x + t_nelements x) (items @ [x])"
  using assms by (auto simp: items_within_def list_all_iff)

lemma items_within_nonempty_lt:
  assumes "items_within lo B items" "items_ordered items" "items \<noteq> []"
  shows "lo < B"
proof -
  from assms(3) obtain x where x: "x \<in> set items" by (cases items) auto
  with assms(1,2) have "lo \<le> t_tid x" "t_tid x + t_nelements x \<le> B" "0 < t_nelements x"
    by (auto simp: items_within_def items_ordered_def list_all_iff)
  then show ?thesis by linarith
qed

lemma exact_free_empty:
  "tiditems c = [] \<Longrightarrow> space_on_empty_page P \<le> PageGetExactFreeSpace P c"
  using MAXALIGN_ge [of "SizeOfPageHeaderData P"]
  by (simp add: PageGetExactFreeSpace_def space_on_empty_page_def)

lemma add_to_page_inv:
  assumes inv: "cxt_inv L B cxt" and ok: "params_ok P"
    and fsp: "cxt_free_space_per_page cxt \<le> space_on_empty_page P"
    and lo: "B \<le> t_tid x" and pos: "0 < t_nelements x"
  shows "\<exists>cxt'. zsbt_tid_recompress_add_to_page P cxt x = Inr cxt'
           \<and> cxt_inv L (t_tid x + t_nelements x) cxt'
           \<and> cxt_hikey cxt' = cxt_hikey cxt
           \<and> cxt_free_space_per_page cxt' = cxt_free_space_per_page cxt
           \<and> (\<exists>c'. cxt_currpage cxt' = Some c' \<and> tiditems c' \<noteq> [])"
proof -
  from inv obtain c where c: "cxt_currpage cxt = Some c"
    and hk: "zs_hikey c = cxt_hikey cxt"
    and cov: "pages_cover L (cxt_hikey cxt) (cxt_stack cxt @ [c])"
    and st: "list_all leaf_ok (cxt_stack cxt)"
    and ord: "items_ordered (tiditems c)"
    and wi: "items_within (zs_lokey c) B (tiditems c)"
    and lb: "zs_lokey c \<le> B"
    and em: "tiditems c = [] \<longrightarrow> cxt_stack cxt = []"
    by (auto simp: cxt_inv_def split: option.splits)
  let ?full = "PageGetExactFreeSpace P c < MAXALIGN (sizeof_ZSTidArrayItem P)
                 \<or> PageGetExactFreeSpace P c < cxt_free_space_per_page cxt"
  show ?thesis
  proof (cases ?full)
    case False
    let ?c' = "c \<lparr> tiditems := tiditems c @ [x] \<rparr>"
    have r: "zsbt_tid_recompress_add_to_page P cxt x = Inr (cxt \<lparr> cxt_currpage := Some ?c' \<rparr>)"
      using c False by (simp add: zsbt_tid_recompress_add_to_page_def Let_def)
    have o': "items_ordered (tiditems ?c')"
      using items_ordered_snoc [OF ord wi lo pos] by simp
    have w': "items_within (zs_lokey ?c') (t_tid x + t_nelements x) (tiditems ?c')"
      using items_within_snoc [OF wi _ lo] lb lo by simp
    have cov': "pages_cover L (cxt_hikey cxt) (cxt_stack cxt @ [?c'])"
      using cov by (simp add: pages_cover_snoc)
    have "cxt_inv L (t_tid x + t_nelements x) (cxt \<lparr> cxt_currpage := Some ?c' \<rparr>)"
      using hk cov' st o' w' lb lo by (simp add: cxt_inv_def)
    with r show ?thesis by simp
  next
    case True
    have ne: "tiditems c \<noteq> []"
    proof
      assume e: "tiditems c = []"
      have "space_on_empty_page P \<le> PageGetExactFreeSpace P c"
        by (rule exact_free_empty [OF e])
      with True fsp ok show False by (auto simp: params_ok_def)
    qed
    let ?closed = "c \<lparr> zs_hikey := t_tid x \<rparr>"
    let ?new = "\<lparr> zs_next = None, zs_lokey = t_tid x, zs_hikey = cxt_hikey cxt,
                  zs_flags = 0, tiditems = [x] \<rparr>"
    let ?cxt' = "cxt \<lparr> cxt_stack := cxt_stack cxt @ [?closed], cxt_currpage := Some ?new \<rparr>"
    have r: "zsbt_tid_recompress_add_to_page P cxt x = Inr ?cxt'"
      using c True
      by (simp add: zsbt_tid_recompress_add_to_page_def zsbt_tid_recompress_newpage_def Let_def)
    have lt: "zs_lokey c < B" by (rule items_within_nonempty_lt [OF wi ord ne])
    have "leaf_ok ?closed"
      using ord lt lo items_within_mono [OF wi lo] by (simp add: leaf_ok_def)
    with st have st': "list_all leaf_ok (cxt_stack cxt @ [?closed])" by simp
    have cov': "pages_cover L (cxt_hikey cxt) ((cxt_stack cxt @ [?closed]) @ [?new])"
      by (rule pages_cover_close [OF cov]) simp_all
    have o': "items_ordered [x]" using pos by (simp add: items_ordered_def)
    have w': "items_within (t_tid x) (t_tid x + t_nelements x) [x]"
      by (simp add: items_within_def)
    have "cxt_inv L (t_tid x + t_nelements x) ?cxt'"
      using cov' st' o' w' by (simp add: cxt_inv_def)
    with r show ?thesis by simp
  qed
qed

lemma cxt_inv_mono: "cxt_inv L B cxt \<Longrightarrow> B \<le> B' \<Longrightarrow> cxt_inv L B' cxt"
  by (auto simp: cxt_inv_def items_within_mono split: option.splits)

lemma recompress_add_items_inv:
  assumes "cxt_inv L B cxt" and "params_ok P"
    and "cxt_free_space_per_page cxt \<le> space_on_empty_page P"
    and "items_ordered items" and "items_within B H items" and "B \<le> H"
  shows "\<exists>cxt'. recompress_add_items P cxt items = Inr cxt'
           \<and> cxt_inv L H cxt'
           \<and> cxt_hikey cxt' = cxt_hikey cxt
           \<and> (items \<noteq> [] \<longrightarrow> (\<exists>c'. cxt_currpage cxt' = Some c' \<and> tiditems c' \<noteq> []))"
  using assms
proof (induction items arbitrary: cxt B)
  case Nil
  then show ?case using cxt_inv_mono by auto
next
  case (Cons x items)
  have lo: "B \<le> t_tid x" and hi: "t_tid x + t_nelements x \<le> H"
    and pos: "0 < t_nelements x"
    using Cons.prems(4,5) by (simp_all add: items_within_def items_ordered_def)
  from add_to_page_inv [OF Cons.prems(1) Cons.prems(2) Cons.prems(3) lo pos]
  obtain cxt1 where a: "zsbt_tid_recompress_add_to_page P cxt x = Inr cxt1"
    "cxt_inv L (t_tid x + t_nelements x) cxt1"
    "cxt_hikey cxt1 = cxt_hikey cxt"
    "cxt_free_space_per_page cxt1 = cxt_free_space_per_page cxt"
    "\<exists>c'. cxt_currpage cxt1 = Some c' \<and> tiditems c' \<noteq> []"
    by blast
  have ord': "items_ordered items"
    using Cons.prems(4) by (simp add: items_ordered_def)
  have wi': "items_within (t_tid x + t_nelements x) H items"
    using Cons.prems(4,5) by (auto simp: items_within_def items_ordered_def list_all_iff)
  from Cons.IH [OF a(2) Cons.prems(2) _ ord' wi' hi] a(4) Cons.prems(3)
  obtain cxt' where b: "recompress_add_items P cxt1 items = Inr cxt'"
    "cxt_inv L H cxt'" "cxt_hikey cxt' = cxt_hikey cxt1"
    "items \<noteq> [] \<longrightarrow> (\<exists>c'. cxt_currpage cxt' = Some c' \<and> tiditems c' \<noteq> [])"
    by auto
  have last: "\<exists>c'. cxt_currpage cxt' = Some c' \<and> tiditems c' \<noteq> []"
  proof (cases "items = []")
    case True
    with b(1) a(5) show ?thesis by simp
  next
    case False
    with b(4) show ?thesis by simp
  qed
  from a b last show ?case by simp
qed

lemma picksplit_fsp_le:
  assumes "zsbt_tid_recompress_picksplit P hikey n = Inr (np, fsp)"
  shows "fsp \<le> space_on_empty_page P"
proof -
  let ?space = "space_on_empty_page P"
  let ?total = "n * sizeof_ZSTidArrayItem P"
  let ?np = "(?total + ?space - 1) div ?space"
  let ?free = "?space * ?np - ?total"
  have sp: "?space \<noteq> 0" using assms
    by (auto simp: zsbt_tid_recompress_picksplit_def Let_def split: if_splits)
  have "?space * ?np \<le> ?total + ?space - 1" by simp
  then have free: "?free \<le> ?space" by linarith
  have d1: "?free div (10 * (?np - 1)) \<le> ?free"
    by (rule div_le_dividend)
  have d2: "?free div ?np \<le> ?free"
    by (rule div_le_dividend)
  have "fsp = 0 \<or> fsp = ?free div (10 * (?np - 1)) \<or> fsp = ?free div ?np"
    using assms sp
    by (auto simp: zsbt_tid_recompress_picksplit_def Let_def tenth_of_free_space_per_page_def
        split: if_splits)
  with free d1 d2 show ?thesis by linarith
qed

lemma link_pages_Cons:
  "link_pages b nxt (p # ps)
     = p \<lparr> zs_next := (if ps = [] then nxt else Some b) \<rparr> # link_pages (Suc b) nxt ps"
  by (cases ps) simp_all

lemma pages_cover_Cons:
  "pages_cover lo hi (p # ps)
     = (zs_lokey p = lo \<and> (if ps = [] then zs_hikey p = hi
                               else pages_cover (zs_hikey p) hi ps))"
  by (cases ps) simp_all

lemma link_pages_Nil_iff: "link_pages b nxt ps = [] \<longleftrightarrow> ps = []"
  using link_pages_length [of b nxt ps] by (metis length_0_conv)

lemma link_pages_cover: "pages_cover lo hi (link_pages b nxt ps) = pages_cover lo hi ps"
proof (induction ps arbitrary: b lo)
  case Nil
  show ?case by simp
next
  case (Cons p ps)
  show ?case
    unfolding link_pages_Cons pages_cover_Cons
    using Cons.IH [of "zs_hikey p" "Suc b"] by (simp add: link_pages_Nil_iff)
qed

lemma leaf_ok_next [simp]: "leaf_ok (p \<lparr> zs_next := n \<rparr>) = leaf_ok p"
  by (simp add: leaf_ok_def)

lemma leaf_ok_flags [simp]: "leaf_ok (p \<lparr> zs_flags := f \<rparr>) = leaf_ok p"
  by (simp add: leaf_ok_def)

lemma link_pages_leaf_ok: "list_all leaf_ok (link_pages b nxt ps) = list_all leaf_ok ps"
proof (induction ps arbitrary: b)
  case Nil
  show ?case by simp
next
  case (Cons p ps)
  show ?case unfolding link_pages_Cons using Cons.IH [of "Suc b"] by simp
qed

lemma next_links_Cons:
  "next_links b nxt (p # ps)
     = (if ps = [] then zs_next p = nxt
        else zs_next p = Some b \<and> next_links (Suc b) nxt ps)"
  by (cases ps) simp_all

lemma link_pages_next: "next_links b nxt (link_pages b nxt ps)"
proof (induction ps arbitrary: b)
  case Nil
  show ?case by simp
next
  case (Cons p ps)
  show ?case
    unfolding link_pages_Cons next_links_Cons
    using Cons.IH [of "Suc b"] by (simp add: link_pages_Nil_iff)
qed

lemma next_links_flags:
  "next_links b nxt (p # ps) \<Longrightarrow> next_links b nxt (p \<lparr> zs_flags := f \<rparr> # ps)"
  by (cases ps) simp_all

lemma pages_cover_flags:
  "pages_cover lo hi (p \<lparr> zs_flags := f \<rparr> # ps) = pages_cover lo hi (p # ps)"
  by (cases ps) simp_all

lemma recompress_replace_pages:
  assumes ok: "params_ok P" and buf: "buf < length tree" and ne: "items \<noteq> []"
    and ord: "items_ordered items"
    and wi: "items_within (zs_lokey (tree ! buf)) (zs_hikey (tree ! buf)) items"
  shows "\<exists>p0 ps. zsbt_tid_recompress_replace P tree buf items = Inr (tree[buf := p0] @ ps)
           \<and> concat (map tiditems (p0 # ps)) = items
           \<and> pages_cover (zs_lokey (tree ! buf)) (zs_hikey (tree ! buf)) (p0 # ps)
           \<and> list_all leaf_ok (p0 # ps)
           \<and> next_links (length tree) (zs_next (tree ! buf)) (p0 # ps)"
proof -
  let ?L = "zs_lokey (tree ! buf)" and ?H = "zs_hikey (tree ! buf)"
  obtain np fsp where pk: "zsbt_tid_recompress_picksplit P ?H (length items) = Inr (np, fsp)"
    using picksplit_ok [OF ok, of "length items" ?H] ne by auto
  have fsp: "fsp \<le> space_on_empty_page P" by (rule picksplit_fsp_le [OF pk])
  let ?cxt0 = "\<lparr> cxt_stack = [], cxt_currpage = None, cxt_num_pages = np,
                  cxt_free_space_per_page = fsp, cxt_hikey = ?H \<rparr>"
  let ?cxt1 = "zsbt_tid_recompress_newpage ?cxt0 ?L (zs_flags (tree ! buf) AND ZSBT_ROOT P)"
  have LH: "?L < ?H" by (rule items_within_nonempty_lt [OF wi ord ne])
  have inv1: "cxt_inv ?L ?L ?cxt1"
    by (simp add: cxt_inv_def zsbt_tid_recompress_newpage_def items_ordered_def
        items_within_def)
  have f1: "cxt_free_space_per_page ?cxt1 \<le> space_on_empty_page P"
    using fsp by (simp add: zsbt_tid_recompress_newpage_def)
  have h1: "cxt_hikey ?cxt1 = ?H" by (simp add: zsbt_tid_recompress_newpage_def)
  obtain c1 where c1: "cxt_currpage ?cxt1 = Some c1" "tiditems c1 = []" "cxt_stack ?cxt1 = []"
    by (simp add: zsbt_tid_recompress_newpage_def)
  from recompress_add_items_inv [OF inv1 ok f1 ord wi] LH
  obtain cxt where a: "recompress_add_items P ?cxt1 items = Inr cxt"
    "cxt_inv ?L ?H cxt" "cxt_hikey cxt = cxt_hikey ?cxt1"
    "\<exists>c'. cxt_currpage cxt = Some c' \<and> tiditems c' \<noteq> []"
    using ne by auto
  from a(4) obtain c where c: "cxt_currpage cxt = Some c" "tiditems c \<noteq> []" by blast
  from recompress_add_items_items [OF c1(1), of P items] a(1) c(1) c1
  have items: "concat (map tiditems (cxt_stack cxt @ [c])) = items" by auto
  from a(2) c(1) a(3) h1
  have cov: "pages_cover ?L ?H (cxt_stack cxt @ [c])"
    and st: "list_all leaf_ok (cxt_stack cxt)"
    and co: "items_ordered (tiditems c)"
    and cw: "items_within (zs_lokey c) ?H (tiditems c)"
    and ch: "zs_hikey c = ?H"
    by (simp_all add: cxt_inv_def)
  have "zs_lokey c < ?H" by (rule items_within_nonempty_lt [OF cw co c(2)])
  with co cw ch have "leaf_ok c" by (simp add: leaf_ok_def)
  with st have allok: "list_all leaf_ok (cxt_stack cxt @ [c])" by simp
  let ?linked = "link_pages (length tree) (zs_next (tree ! buf)) (cxt_stack cxt @ [c])"
  have "length ?linked = length (cxt_stack cxt @ [c])" by (rule link_pages_length)
  then obtain head rest where l: "?linked = head # rest"
    by (cases ?linked) simp_all
  have m: "map tiditems (head # rest) = map tiditems (cxt_stack cxt @ [c])"
    using link_pages_items [of "length tree" "zs_next (tree ! buf)" "cxt_stack cxt @ [c]"] l
    by simp
  have lcov: "pages_cover ?L ?H (head # rest)"
    using link_pages_cover [of ?L ?H "length tree" "zs_next (tree ! buf)" "cxt_stack cxt @ [c]"]
      cov l by simp
  have lok: "list_all leaf_ok (head # rest)"
    using link_pages_leaf_ok [of "length tree" "zs_next (tree ! buf)" "cxt_stack cxt @ [c]"]
      allok l by simp
  have lnx: "next_links (length tree) (zs_next (tree ! buf)) (head # rest)"
    using link_pages_next [of "length tree" "zs_next (tree ! buf)" "cxt_stack cxt @ [c]"] l
    by simp
  let ?head' = "if rest \<noteq> [] \<and> (zs_flags head AND ZSBT_ROOT P) \<noteq> 0
                  then head \<lparr> zs_flags := zs_flags head AND NOT (ZSBT_ROOT P) \<rparr> else head"
  have r: "zsbt_tid_recompress_replace P tree buf items = Inr (tree[buf := ?head'] @ rest)"
    using buf pk a(1) c(1) l by (simp add: zsbt_tid_recompress_replace_def Let_def)
  have i': "concat (map tiditems (?head' # rest)) = items"
  proof -
    have "tiditems ?head' = tiditems head" by simp
    then have "map tiditems (?head' # rest) = map tiditems (head # rest)" by simp
    with m items show ?thesis by simp
  qed
  have c': "pages_cover ?L ?H (?head' # rest)"
    using lcov by (simp add: pages_cover_flags)
  have o': "list_all leaf_ok (?head' # rest)" using lok by simp
  have n': "next_links (length tree) (zs_next (tree ! buf)) (?head' # rest)"
    using lnx next_links_flags by simp
  from r i' c' o' n' show ?thesis by blast
qed

lemma find_leaf_Some:
  "find_leaf pages tid b = Some r \<Longrightarrow>
     b \<le> r \<and> r - b < length pages \<and> page_covers (pages ! (r - b)) tid
     \<and> (\<forall>j<r - b. \<not> page_covers (pages ! j) tid)"
proof (induction pages arbitrary: b)
  case Nil
  then show ?case by simp
next
  case (Cons p pages)
  show ?case
  proof (cases "zs_lokey p \<le> tid \<and> tid < zs_hikey p")
    case True
    with Cons.prems show ?thesis by (simp add: page_covers_def)
  next
    case False
    with Cons.prems have "find_leaf pages tid (Suc b) = Some r" by simp
    from Cons.IH [OF this] have ih: "Suc b \<le> r" "r - Suc b < length pages"
      "page_covers (pages ! (r - Suc b)) tid"
      "\<forall>j<r - Suc b. \<not> page_covers (pages ! j) tid" by auto
    then have eq: "r - b = Suc (r - Suc b)" by linarith
    have "\<forall>j<r - b. \<not> page_covers ((p # pages) ! j) tid"
    proof (intro allI impI)
      fix j assume "j < r - b"
      show "\<not> page_covers ((p # pages) ! j) tid"
      proof (cases j)
        case 0
        with False show ?thesis by (simp add: page_covers_def)
      next
        case (Suc j')
        with \<open>j < r - b\<close> eq have "j' < r - Suc b" by simp
        with ih(4) Suc show ?thesis by simp
      qed
    qed
    with ih eq show ?thesis by simp
  qed
qed

lemma find_leaf_None:
  "find_leaf pages tid b = None \<longleftrightarrow> (\<forall>p\<in>set pages. \<not> page_covers p tid)"
  by (induction pages arbitrary: b) (auto simp: page_covers_def)

lemma find_leaf_unique:
  assumes k: "k < length pages" and cov: "page_covers (pages ! k) tid"
    and uniq: "\<forall>j<length pages. page_covers (pages ! j) tid \<longrightarrow> j = k"
  shows "find_leaf pages tid b = Some (b + k)"
proof (cases "find_leaf pages tid b")
  case None
  with k cov show ?thesis by (auto simp: find_leaf_None)
next
  case (Some r)
  from find_leaf_Some [OF Some] uniq have "r - b = k" "b \<le> r" by auto
  with Some show ?thesis by simp
qed

lemma pages_cover_nth:
  "pages_cover lo hi ps \<Longrightarrow> Suc i < length ps \<Longrightarrow> zs_hikey (ps ! i) = zs_lokey (ps ! Suc i)"
proof (induction ps arbitrary: lo i)
  case Nil
  then show ?case by simp
next
  case (Cons p ps)
  then obtain q qs where ps: "ps = q # qs" by (cases ps) auto
  show ?case
  proof (cases i)
    case 0
    with Cons.prems ps show ?thesis by (cases qs) auto
  next
    case (Suc i')
    from Cons.prems ps have "pages_cover (zs_hikey p) hi ps" by simp
    from Cons.IH [OF this, of i'] Cons.prems(2) Suc show ?thesis by simp
  qed
qed

lemma pages_cover_ordered:
  assumes "pages_cover lo hi ps" and "list_all (\<lambda>p. zs_lokey p < zs_hikey p) ps"
    and "i < j" and "j < length ps"
  shows "zs_hikey (ps ! i) \<le> zs_lokey (ps ! j)"
  using assms(3,4)
proof (induction j)
  case 0
  then show ?case by simp
next
  case (Suc j)
  have step: "zs_hikey (ps ! j) = zs_lokey (ps ! Suc j)"
    using pages_cover_nth [OF assms(1)] Suc.prems by simp
  show ?case
  proof (cases "i = j")
    case True
    with step show ?thesis by simp
  next
    case False
    with Suc.prems have "i < j" "j < length ps" by simp_all
    from Suc.IH [OF this] have "zs_hikey (ps ! i) \<le> zs_lokey (ps ! j)" .
    moreover have "zs_lokey (ps ! j) < zs_hikey (ps ! j)"
      using assms(2) \<open>j < length ps\<close> by (simp add: list_all_length)
    ultimately show ?thesis using step by simp
  qed
qed

lemma pages_cover_disjoint:
  assumes "pages_cover lo hi ps" and "list_all (\<lambda>p. zs_lokey p < zs_hikey p) ps"
    and "i < length ps" and "j < length ps"
    and "page_covers (ps ! i) t" and "page_covers (ps ! j) t"
  shows "i = j"
proof (rule ccontr)
  assume "i \<noteq> j"
  then consider "i < j" | "j < i" by linarith
  then show False
  proof cases
    case 1
    from pages_cover_ordered [OF assms(1,2) 1 assms(4)] assms(5,6)
    show False by (simp add: page_covers_def)
  next
    case 2
    from pages_cover_ordered [OF assms(1,2) 2 assms(3)] assms(5,6)
    show False by (simp add: page_covers_def)
  qed
qed

lemma pages_cover_total:
  "pages_cover lo hi ps \<Longrightarrow> lo \<le> t \<Longrightarrow> t < hi \<Longrightarrow>
     \<exists>i<length ps. page_covers (ps ! i) t"
proof (induction ps arbitrary: lo)
  case Nil
  then show ?case by simp
next
  case (Cons p ps)
  show ?case
  proof (cases "t < zs_hikey p")
    case True
    with Cons.prems have "page_covers ((p # ps) ! 0) t"
      by (cases ps) (auto simp: page_covers_def)
    then show ?thesis by blast
  next
    case False
    with Cons.prems obtain q qs where ps: "ps = q # qs"
      by (cases ps) auto
    with Cons.prems have "pages_cover (zs_hikey p) hi ps" by simp
    from Cons.IH [OF this] False Cons.prems(3)
    obtain i where "i < length ps" "page_covers (ps ! i) t" by auto
    then have "Suc i < length (p # ps)" "page_covers ((p # ps) ! Suc i) t" by simp_all
    then show ?thesis by blast
  qed
qed

lemma leaf_ok_range: "list_all leaf_ok ps \<Longrightarrow> list_all (\<lambda>p. zs_lokey p < zs_hikey p) ps"
  by (simp add: list_all_iff leaf_ok_def)

lemma wf_unique_leaf:
  assumes wf: "tree_wf P tree chain" and b: "b < length tree" and b': "b' < length tree"
    and c: "page_covers (tree ! b) t" and c': "page_covers (tree ! b') t"
  shows "b = b'"
proof -
  from wf have d: "distinct chain" and s: "set chain = {0..<length tree}"
    and cov: "pages_cover MinZSTid (MaxPlusOneZSTid P) (map ((!) tree) chain)"
    and ok: "list_all leaf_ok tree"
    by (simp_all add: tree_wf_def)
  from b s obtain i where i: "i < length chain" "chain ! i = b"
    by (metis atLeastLessThan_iff in_set_conv_nth zero_le)
  from b' s obtain j where j: "j < length chain" "chain ! j = b'"
    by (metis atLeastLessThan_iff in_set_conv_nth zero_le)
  have okc: "list_all leaf_ok (map ((!) tree) chain)"
    using ok s by (auto simp: list_all_iff)
  have "i = j"
    by (rule pages_cover_disjoint [OF cov leaf_ok_range [OF okc]])
      (use i j c c' in simp_all)
  with i j show ?thesis by simp
qed

lemma wf_descend:
  assumes wf: "tree_wf P tree chain" and b: "b < length tree"
    and c: "page_covers (tree ! b) t"
  shows "zsbt_descend tree t = Some b"
  unfolding zsbt_descend_def
  using find_leaf_unique [OF b c, of 0] wf_unique_leaf [OF wf _ b _ c] by auto

lemma wf_descend_total:
  assumes wf: "tree_wf P tree chain" and lo: "MinZSTid \<le> t" and hi: "t < MaxPlusOneZSTid P"
  shows "\<exists>b<length tree. page_covers (tree ! b) t \<and> zsbt_descend tree t = Some b"
proof -
  from wf have s: "set chain = {0..<length tree}"
    and cov: "pages_cover MinZSTid (MaxPlusOneZSTid P) (map ((!) tree) chain)"
    by (simp_all add: tree_wf_def)
  from pages_cover_total [OF cov lo hi]
  obtain i where i: "i < length chain" "page_covers (tree ! (chain ! i)) t" by auto
  from i(1) s have b: "chain ! i < length tree"
    by (metis atLeastLessThan_iff nth_mem)
  from wf_descend [OF wf b i(2)] b i(2) show ?thesis by blast
qed

lemma find_covering_item_None:
  "find_covering_item items tid = None \<longleftrightarrow> (\<forall>item\<in>set items. \<not> item_covers item tid)"
  by (induction items) (auto simp: item_covers_def)

lemma find_covering_item_Some:
  "find_covering_item items tid = Some item \<Longrightarrow> item \<in> set items \<and> item_covers item tid"
  by (induction items) (auto simp: item_covers_def split: if_splits)

lemma covering_unique:
  assumes ord: "items_ordered items" and i: "i < length items" and j: "j < length items"
    and ci: "item_covers (items ! i) t" and cj: "item_covers (items ! j) t"
  shows "i = j"
proof (rule ccontr)
  assume "i \<noteq> j"
  then consider "i < j" | "j < i" by linarith
  then show False
  proof cases
    case 1
    with ord j have "t_tid (items ! i) + t_nelements (items ! i) \<le> t_tid (items ! j)"
      by (simp add: items_ordered_def sorted_wrt_iff_nth_less)
    with ci cj show False by (simp add: item_covers_def)
  next
    case 2
    with ord i have "t_tid (items ! j) + t_nelements (items ! j) \<le> t_tid (items ! i)"
      by (simp add: items_ordered_def sorted_wrt_iff_nth_less)
    with ci cj show False by (simp add: item_covers_def)
  qed
qed

lemma find_covering_item_ordered:
  assumes ord: "items_ordered items" and i: "i < length items"
    and ci: "item_covers (items ! i) t"
  shows "find_covering_item items t = Some (items ! i)"
proof (cases "find_covering_item items t")
  case None
  with i ci show ?thesis by (auto simp: find_covering_item_None)
next
  case (Some x)
  from find_covering_item_Some [OF Some] obtain j where j: "j < length items" "items ! j = x"
    and cx: "item_covers x t" by (auto simp: in_set_conv_nth)
  from covering_unique [OF ord i j(1) ci] j(2) cx have "i = j" by simp
  with Some j show ?thesis by simp
qed

lemma fetch_on_leaf:
  assumes d: "zsbt_descend tree t = Some b"
    and ord: "items_ordered (tiditems (tree ! b))"
    and i: "i < length (tiditems (tree ! b))"
    and ci: "item_covers (tiditems (tree ! b) ! i) t"
  shows "zsbt_tid_fetch tree t
           = Some (b, t_undo_ptr (tiditems (tree ! b) ! i), item_is_dead (tiditems (tree ! b) ! i))"
  using d find_covering_item_ordered [OF ord i ci] by (simp add: zsbt_tid_fetch_def)

lemma fetch_absent:
  assumes "\<forall>b<length tree. \<forall>item\<in>set (tiditems (tree ! b)). \<not> item_covers item t"
  shows "zsbt_tid_fetch tree t = None"
proof (cases "zsbt_descend tree t")
  case None
  then show ?thesis by (simp add: zsbt_tid_fetch_def)
next
  case (Some b)
  then have "b < length tree"
    using find_leaf_Some [of tree t 0 b] by (simp add: zsbt_descend_def)
  with assms have "find_covering_item (tiditems (tree ! b)) t = None"
    by (simp add: find_covering_item_None)
  with Some show ?thesis by (simp add: zsbt_tid_fetch_def)
qed

lemma leaf_ok_item_page_covers:
  assumes "leaf_ok page" and "x \<in> set (tiditems page)" and "item_covers x t"
  shows "page_covers page t"
  using assms
  by (auto simp: leaf_ok_def items_within_def list_all_iff item_covers_def page_covers_def)

lemma wf_leaf_ok: "tree_wf P tree chain \<Longrightarrow> b < length tree \<Longrightarrow> leaf_ok (tree ! b)"
  by (simp add: tree_wf_def list_all_length)

lemma wf_fetch:
  assumes wf: "tree_wf P tree chain" and at: "tid_at tree t b i"
  shows "zsbt_tid_fetch tree t
           = Some (b, t_undo_ptr (tiditems (tree ! b) ! i), item_is_dead (tiditems (tree ! b) ! i))"
proof -
  from at have b: "b < length tree" and i: "i < length (tiditems (tree ! b))"
    and c: "item_covers (tiditems (tree ! b) ! i) t" by (simp_all add: tid_at_def)
  have ok: "leaf_ok (tree ! b)" by (rule wf_leaf_ok [OF wf b])
  have pc: "page_covers (tree ! b) t"
    by (rule leaf_ok_item_page_covers [OF ok _ c]) (use i in simp)
  have d: "zsbt_descend tree t = Some b" by (rule wf_descend [OF wf b pc])
  from ok have ord: "items_ordered (tiditems (tree ! b))" by (simp add: leaf_ok_def)
  show ?thesis by (rule fetch_on_leaf [OF d ord i c])
qed

lemma fetch_after_rewrite:
  assumes wf: "tree_wf P tree chain" and buf: "buf < length tree"
    and pc: "page_covers (tree ! buf) t"
    and cov: "pages_cover lo hi (p0 # ps)" and ok: "list_all leaf_ok (p0 # ps)"
    and x: "x \<in> set (concat (map tiditems (p0 # ps)))" and cx: "item_covers x t"
  shows "\<exists>b'. zsbt_tid_fetch (tree[buf := p0] @ ps) t = Some (b', t_undo_ptr x, item_is_dead x)"
proof -
  let ?pages = "p0 # ps"
  let ?tree' = "tree[buf := p0] @ ps"
  from x obtain q where "q \<in> set ?pages" "x \<in> set (tiditems q)" by auto
  then obtain k where k: "k < length ?pages" "x \<in> set (tiditems (?pages ! k))"
    by (metis in_set_conv_nth)
  have okk: "leaf_ok (?pages ! k)" using ok k(1) by (simp add: list_all_length)
  have pck: "page_covers (?pages ! k) t"
    by (rule leaf_ok_item_page_covers [OF okk k(2) cx])
  define blk where "blk = (if k = 0 then buf else length tree + (k - 1))"
  have blk_lt: "blk < length ?tree'" using k(1) buf by (auto simp: blk_def)
  have blk_page: "?tree' ! blk = ?pages ! k"
    using k(1) buf by (cases k) (auto simp: blk_def nth_append)
  have uniq: "\<forall>c<length ?tree'. page_covers (?tree' ! c) t \<longrightarrow> c = blk"
  proof (intro allI impI)
    fix c assume c: "c < length ?tree'" and pcc: "page_covers (?tree' ! c) t"
    show "c = blk"
    proof (cases "c < length tree")
      case True
      show ?thesis
      proof (cases "c = buf")
        case True
        with pcc buf have "page_covers (?pages ! 0) t" by (simp add: nth_append)
        from pages_cover_disjoint [OF cov leaf_ok_range [OF ok] _ k(1) this pck]
        have "k = 0" by simp
        with True show ?thesis by (simp add: blk_def)
      next
        case False
        with True pcc have "page_covers (tree ! c) t" by (simp add: nth_append)
        from wf_unique_leaf [OF wf True buf this pc] False show ?thesis by simp
      qed
    next
      case False
      let ?j = "Suc (c - length tree)"
      from False c have j: "?j < length ?pages" by simp
      from False pcc have "page_covers (?pages ! ?j) t" by (simp add: nth_append)
      from pages_cover_disjoint [OF cov leaf_ok_range [OF ok] j k(1) this pck]
      have "k = ?j" by simp
      with False show ?thesis by (simp add: blk_def)
    qed
  qed
  have d: "zsbt_descend ?tree' t = Some blk"
    unfolding zsbt_descend_def
    using find_leaf_unique [OF blk_lt _ , of t 0] blk_page pck uniq by simp
  from k(2) obtain i where i: "i < length (tiditems (?pages ! k))"
    "tiditems (?pages ! k) ! i = x" by (auto simp: in_set_conv_nth)
  have ord: "items_ordered (tiditems (?tree' ! blk))"
    using okk blk_page by (simp add: leaf_ok_def)
  from fetch_on_leaf [OF d ord, of i] i cx blk_page
  show ?thesis by auto
qed

lemma take_before_old:
  assumes "items_ordered items" "i < length items" "x \<in> set (take i items)"
  shows "t_tid x + t_nelements x \<le> t_tid (items ! i)"
proof -
  from assms(3) obtain j where j: "j < i" "j < length items" "items ! j = x"
    by (auto simp: in_set_conv_nth)
  with assms(1,2) show ?thesis
    by (auto simp: items_ordered_def sorted_wrt_iff_nth_less)
qed

lemma drop_after_old:
  assumes "items_ordered items" "i < length items" "x \<in> set (drop (Suc i) items)"
  shows "t_tid (items ! i) + t_nelements (items ! i) \<le> t_tid x"
proof -
  from assms(3) obtain k where k: "k < length (drop (Suc i) items)"
    "drop (Suc i) items ! k = x" by (auto simp: in_set_conv_nth)
  define j where "j = Suc i + k"
  from k assms(2) have j: "j < length items" "items ! j = x" "i < j"
    by (simp_all add: j_def)
  with assms(1) j show ?thesis
    by (auto simp: items_ordered_def sorted_wrt_iff_nth_less)
qed

lemma replace_slices_ordered:
  assumes ord: "items_ordered items" and i: "i < length items"
    and cov: "item_covers (items ! i) t" and r: "replacement_for t r"
  shows "items_ordered (replace_slices items i t r)"
proof -
  let ?old = "items ! i"
  let ?R = "\<lambda>a b. t_tid a + t_nelements a \<le> t_tid b"
  define mid where "mid = slice_before ?old t @ opt_list r @ slice_after ?old t"
  have tk: "\<forall>x\<in>set (take i items). t_tid x + t_nelements x \<le> t_tid ?old"
    using take_before_old [OF ord i] by blast
  have dr: "\<forall>x\<in>set (drop (Suc i) items). t_tid ?old + t_nelements ?old \<le> t_tid x"
    using drop_after_old [OF ord i] by blast
  have mid_in: "\<forall>x\<in>set mid. t_tid ?old \<le> t_tid x
                   \<and> t_tid x + t_nelements x \<le> t_tid ?old + t_nelements ?old
                   \<and> 0 < t_nelements x"
    using cov r unfolding mid_def
    by (auto simp: slice_before_def slice_after_def opt_list_def replacement_for_def
        item_covers_def split: option.splits)
  have mid_sorted: "sorted_wrt ?R mid"
    using cov r unfolding mid_def
    by (auto simp: slice_before_def slice_after_def opt_list_def replacement_for_def
        item_covers_def split: option.splits)
  have s_take: "sorted_wrt ?R (take i items)"
    using ord by (simp add: items_ordered_def sorted_wrt_take)
  have s_drop: "sorted_wrt ?R (drop (Suc i) items)"
    using ord by (simp add: items_ordered_def sorted_wrt_drop)
  have md: "\<forall>x\<in>set mid. \<forall>y\<in>set (drop (Suc i) items). ?R x y"
    using dr mid_in by fastforce
  have A: "sorted_wrt ?R (mid @ drop (Suc i) items)"
    using mid_sorted s_drop md sorted_wrt_append [of ?R mid "drop (Suc i) items"] by blast
  have tmd: "\<forall>x\<in>set (take i items). \<forall>y\<in>set (mid @ drop (Suc i) items). ?R x y"
  proof (intro ballI)
    fix x y assume x: "x \<in> set (take i items)" and y: "y \<in> set (mid @ drop (Suc i) items)"
    from x tk have 1: "t_tid x + t_nelements x \<le> t_tid ?old" by blast
    from y have "y \<in> set mid \<or> y \<in> set (drop (Suc i) items)" by simp
    then have "t_tid ?old \<le> t_tid y"
    proof
      assume "y \<in> set mid" with mid_in show ?thesis by blast
    next
      assume "y \<in> set (drop (Suc i) items)"
      with dr have "t_tid ?old + t_nelements ?old \<le> t_tid y" by blast
      then show ?thesis by linarith
    qed
    with 1 show "?R x y" by linarith
  qed
  have B: "sorted_wrt ?R (take i items @ (mid @ drop (Suc i) items))"
    using s_take A tmd
      sorted_wrt_append [of ?R "take i items" "mid @ drop (Suc i) items"] by blast
  have pos: "list_all (\<lambda>item. 0 < t_nelements item) (take i items @ (mid @ drop (Suc i) items))"
    using ord mid_in
    by (auto simp: items_ordered_def list_all_iff dest: in_set_takeD in_set_dropD)
  have "replace_slices items i t r = take i items @ (mid @ drop (Suc i) items)"
    by (simp add: replace_slices_def mid_def)
  with B pos show ?thesis by (simp only: items_ordered_def simp_thms)
qed

lemma replace_slices_within:
  assumes wi: "items_within lo hi items" and i: "i < length items"
    and cov: "item_covers (items ! i) t" and r: "replacement_for t r"
  shows "items_within lo hi (replace_slices items i t r)"
proof -
  let ?old = "items ! i"
  from wi i have old: "lo \<le> t_tid ?old" "t_tid ?old + t_nelements ?old \<le> hi"
    by (simp_all add: items_within_def list_all_length)
  have "\<forall>x\<in>set (slice_before ?old t @ opt_list r @ slice_after ?old t).
          lo \<le> t_tid x \<and> t_tid x + t_nelements x \<le> hi"
    using cov r old
    by (auto simp: slice_before_def slice_after_def opt_list_def replacement_for_def
        item_covers_def split: option.splits)
  then show ?thesis
    using wi
    by (auto simp: items_within_def list_all_iff replace_slices_def
        dest: in_set_takeD in_set_dropD)
qed

lemma replace_item_unfold:
  assumes buf: "buf < length tree"
    and ord: "items_ordered (tiditems (tree ! buf))"
    and i: "i < length (tiditems (tree ! buf))"
    and cov: "item_covers (tiditems (tree ! buf) ! i) t"
    and pc: "pieces = slice_before (tiditems (tree ! buf) ! i) t @ opt_list r
                        @ slice_after (tiditems (tree ! buf) ! i) t"
  shows "zsbt_tid_replace_item U P tree buf t r
      = (if pieces \<noteq> []
            \<and> (length pieces - 1) * sizeof_ZSTidArrayItem P
                 \<le> PageGetExactFreeSpace P (tree ! buf)
         then Inr (tree[buf := (tree ! buf)
                     \<lparr> tiditems := replace_slices (tiditems (tree ! buf)) i t r \<rparr>])
         else zsbt_tid_rewrite_page U P tree buf
                (replace_slices (tiditems (tree ! buf)) i t r))"
proof -
  let ?items = "tiditems (tree ! buf)"
  let ?old = "?items ! i"
  have bs: "zsbt_binsrch_tidpage t ?items (length ?items) = int i"
    by (rule binsrch_finds_covering [OF ord i cov])
  have b1: "opt_list (replace_item_before ?old t) = slice_before ?old t"
    using cov
    by (auto simp: replace_item_before_def opt_list_def zsbt_tid_create_item_def
        item_covers_def Let_def slice_before_def)
  have a1: "opt_list (replace_item_after ?old t) = slice_after ?old t"
    using cov
    by (auto simp: replace_item_after_def opt_list_def zsbt_tid_create_item_def
        item_covers_def Let_def slice_after_def)
  have incov: "\<not> (t < t_tid ?old \<or> t_tid ?old + t_nelements ?old \<le> t)"
    using cov by (auto simp: item_covers_def)
  have new': "replace_slices ?items i t r = take i ?items @ pieces @ drop (Suc i) ?items"
    by (simp add: pc replace_slices_def)
  have pc': "opt_list (replace_item_before ?old t) @ opt_list r
              @ opt_list (replace_item_after ?old t) = pieces"
    using b1 a1 by (simp add: pc)
  have unf: "zsbt_tid_replace_item U P tree buf t r
      = (if 0 \<le> int (length pieces) - 1
            \<and> nat (int (length pieces) - 1) * sizeof_ZSTidArrayItem P
                 \<le> PageGetExactFreeSpace P (tree ! buf)
         then Inr (tree[buf := (tree ! buf) \<lparr> tiditems := replace_slices ?items i t r \<rparr>])
         else zsbt_tid_rewrite_page U P tree buf (replace_slices ?items i t r))"
    unfolding zsbt_tid_replace_item_def Let_def bs nat_int pc'
    using buf incov new' by simp
  have c1: "(0 \<le> int (length pieces) - 1) = (pieces \<noteq> [])"
    by (cases pieces) simp_all
  have c2: "nat (int (length pieces) - 1) = length pieces - 1" by linarith
  show ?thesis unfolding unf c1 c2 ..
qed

lemma replace_item_pages:
  assumes ok: "params_ok P" and buf: "buf < length tree"
    and leaf: "leaf_ok (tree ! buf)"
    and i: "i < length (tiditems (tree ! buf))"
    and cov: "item_covers (tiditems (tree ! buf) ! i) t"
    and r: "replacement_for t r"
    and ne: "replace_slices (tiditems (tree ! buf)) i t r \<noteq> []"
  shows "\<exists>p0 ps. zsbt_tid_replace_item U P tree buf t r = Inr (tree[buf := p0] @ ps)
           \<and> concat (map tiditems (p0 # ps)) = replace_slices (tiditems (tree ! buf)) i t r
           \<and> pages_cover (zs_lokey (tree ! buf)) (zs_hikey (tree ! buf)) (p0 # ps)
           \<and> list_all leaf_ok (p0 # ps)
           \<and> next_links (length tree) (zs_next (tree ! buf)) (p0 # ps)"
proof -
  let ?page = "tree ! buf"
  let ?items = "tiditems ?page"
  let ?RS = "replace_slices ?items i t r"
  define pieces where "pieces = slice_before (?items ! i) t @ opt_list r
                        @ slice_after (?items ! i) t"
  from leaf have ord: "items_ordered ?items"
    and wi: "items_within (zs_lokey ?page) (zs_hikey ?page) ?items"
    and lh: "zs_lokey ?page < zs_hikey ?page"
    by (simp_all add: leaf_ok_def)
  have ord': "items_ordered ?RS" by (rule replace_slices_ordered [OF ord i cov r])
  have wi': "items_within (zs_lokey ?page) (zs_hikey ?page) ?RS"
    by (rule replace_slices_within [OF wi i cov r])
  note unf = replace_item_unfold [OF buf ord i cov pieces_def, of U P]
  show ?thesis
  proof (cases "pieces \<noteq> []
            \<and> (length pieces - 1) * sizeof_ZSTidArrayItem P
                 \<le> PageGetExactFreeSpace P ?page")
    case True
    let ?p0 = "?page \<lparr> tiditems := ?RS \<rparr>"
    from True have "zsbt_tid_replace_item U P tree buf t r = Inr (tree[buf := ?p0])"
      by (simp only: unf simp_thms if_True)
    then have 1: "zsbt_tid_replace_item U P tree buf t r = Inr (tree[buf := ?p0] @ [])"
      by simp
    have 2: "concat (map tiditems (?p0 # [])) = ?RS" by simp
    have 3: "pages_cover (zs_lokey ?page) (zs_hikey ?page) (?p0 # [])" by simp
    have 4: "list_all leaf_ok (?p0 # [])" using ord' wi' lh by (simp add: leaf_ok_def)
    have 5: "next_links (length tree) (zs_next ?page) (?p0 # [])" by simp
    from 1 2 3 4 5 show ?thesis by blast
  next
    case False
    then have "zsbt_tid_replace_item U P tree buf t r = zsbt_tid_rewrite_page U P tree buf ?RS"
      by (simp only: unf simp_thms if_False)
    also have "\<dots> = zsbt_tid_recompress_replace P tree buf ?RS"
      using ne by (simp add: zsbt_tid_rewrite_page_def)
    finally show ?thesis
      using recompress_replace_pages [OF ok buf ne ord' wi'] by simp
  qed
qed

lemma wf_tid_at_facts:
  assumes wf: "tree_wf P tree chain" and at: "tid_at tree t b i"
  shows "b < length tree" and "leaf_ok (tree ! b)"
    and "i < length (tiditems (tree ! b))"
    and "item_covers (tiditems (tree ! b) ! i) t"
    and "page_covers (tree ! b) t"
proof -
  from at show b: "b < length tree" and i: "i < length (tiditems (tree ! b))"
    and c: "item_covers (tiditems (tree ! b) ! i) t" by (simp_all add: tid_at_def)
  show ok: "leaf_ok (tree ! b)" by (rule wf_leaf_ok [OF wf b])
  show "page_covers (tree ! b) t"
    by (rule leaf_ok_item_page_covers [OF ok _ c]) (use i in simp)
qed

lemma replacement_in_slices:
  "x \<in> set (replace_slices items i t (Some x))"
  by (simp add: replace_slices_def opt_list_def)

lemma replace_item_some:
  assumes ok: "params_ok P" and wf: "tree_wf P tree chain" and at: "tid_at tree t b i"
    and r: "t_tid x = t" "t_nelements x = 1"
  shows "\<exists>p0 ps. zsbt_tid_replace_item U P tree b t (Some x) = Inr (tree[b := p0] @ ps)
           \<and> leaf_rewritten tree b (replace_slices (tiditems (tree ! b)) i t (Some x))
                (tree[b := p0] @ ps)
           \<and> (\<exists>b'. zsbt_tid_fetch (tree[b := p0] @ ps) t
                       = Some (b', t_undo_ptr x, item_is_dead x))"
proof -
  note f = wf_tid_at_facts [OF wf at]
  have rf: "replacement_for t (Some x)" using r by (simp add: replacement_for_def)
  have ne: "replace_slices (tiditems (tree ! b)) i t (Some x) \<noteq> []"
    using replacement_in_slices [of x "tiditems (tree ! b)" i t] by auto
  from replace_item_pages [OF ok f(1) f(2) f(3) f(4) rf ne, of U]
  obtain p0 ps where p: "zsbt_tid_replace_item U P tree b t (Some x) = Inr (tree[b := p0] @ ps)"
    "concat (map tiditems (p0 # ps)) = replace_slices (tiditems (tree ! b)) i t (Some x)"
    "pages_cover (zs_lokey (tree ! b)) (zs_hikey (tree ! b)) (p0 # ps)"
    "list_all leaf_ok (p0 # ps)"
    by blast
  have lr: "leaf_rewritten tree b (replace_slices (tiditems (tree ! b)) i t (Some x))
                (tree[b := p0] @ ps)"
    by (rule leaf_rewritten_intro [OF f(1) p(2)])
  have xin: "x \<in> set (concat (map tiditems (p0 # ps)))"
    unfolding p(2) by (rule replacement_in_slices)
  have cx: "item_covers x t" using r by (simp add: item_covers_def)
  from fetch_after_rewrite [OF wf f(1) f(5) p(3) p(4) xin cx] p(1) lr
  show ?thesis by blast
qed

lemma deaditem_is_dead: "item_is_dead (deaditem t)"
  by (simp add: item_is_dead_def deaditem_def ZSBT_TID_DEAD_def)

lemma created_item_not_dead: "\<not> item_is_dead (zsbt_tid_create_item t u n)"
  by (simp add: item_is_dead_def zsbt_tid_create_item_def)

lemma MaxPlusOne_small: "MaxPlusOneZSTid small_params = 1000"
  by (simp add: MaxPlusOneZSTid_def small_params_def)

lemma one_leaf_wf:
  assumes "zs_next leaf = None" "zs_lokey leaf = 1" "zs_hikey leaf = 1000" "leaf_ok leaf"
  shows "tree_wf small_params [leaf] [0]"
  using assms by (simp add: tree_wf_def MinZSTid_def MaxPlusOne_small)

lemma dead_run_leaf_wf: "tree_wf small_params [dead_run_leaf] [0]"
  by (rule one_leaf_wf)
    (simp_all add: dead_run_leaf_def leaf_ok_def items_ordered_def items_within_def)

text \<open>
  On a leaf whose run \<open>[5, 7)\<close> carries the \<open>DEAD\<close> flag, \<open>zsbt_tid_mark_dead\<close> of TID 5
  returns at once ("unless it's already dead") and the tree is unchanged.
\<close>

lemma mark_dead_dead_run_example:
  "zsbt_tid_mark_dead no_unlink small_params [dead_run_leaf] 5 = Inr (None, [dead_run_leaf])"
  by (simp add: dead_run_leaf_def item_covers_def zsbt_tid_mark_dead_def
      zsbt_tid_fetch_def zsbt_descend_def item_is_dead_def ZSBT_TID_DEAD_def)

text \<open>
  C7.  In a well-formed tree, for a TID \<open>t\<close> covered by the item at position \<open>i\<close> of leaf
  \<open>b\<close> and an undo pointer \<open>p\<close>: when the item's undo pointer equals \<open>p\<close>,
  \<open>zsbt_tid_undo_deletion\<close> replaces the slice of \<open>t\<close> by an item with \<open>InvalidUndoPtr\<close>;
  when it differs, the tree is left completely unchanged.
\<close>

theorem C7_undo_deletion:
  assumes ok: "params_ok P" and wf: "tree_wf P tree chain" and at: "tid_at tree t b i"
  shows "(t_undo_ptr (tiditems (tree ! b) ! i) = p \<longrightarrow>
            (\<exists>tree'. zsbt_tid_undo_deletion U P tree t p = Inr (None, tree')
               \<and> leaf_rewritten tree b
                    (replace_slices (tiditems (tree ! b)) i t
                       (Some \<lparr> t_tid = t, t_nelements = 1, t_undo_ptr = InvalidUndoPtr,
                               t_flags = 0 \<rparr>)) tree'))
       \<and> (t_undo_ptr (tiditems (tree ! b) ! i) \<noteq> p \<longrightarrow>
            zsbt_tid_undo_deletion U P tree t p = Inr (None, tree))"
proof -
  let ?old = "tiditems (tree ! b) ! i"
  let ?x = "zsbt_tid_create_item t InvalidUndoPtr 1"
  have x: "?x = \<lparr> t_tid = t, t_nelements = 1, t_undo_ptr = InvalidUndoPtr, t_flags = 0 \<rparr>"
    by (simp add: zsbt_tid_create_item_def)
  have f: "zsbt_tid_fetch tree t = Some (b, t_undo_ptr ?old, item_is_dead ?old)"
    by (rule wf_fetch [OF wf at])
  from replace_item_some [OF ok wf at, of ?x U]
  obtain p0 ps where r:
    "zsbt_tid_replace_item U P tree b t (Some ?x) = Inr (tree[b := p0] @ ps)"
    "leaf_rewritten tree b (replace_slices (tiditems (tree ! b)) i t (Some ?x))
       (tree[b := p0] @ ps)"
    by (auto simp: zsbt_tid_create_item_def)
  have eq: "t_undo_ptr ?old = p \<Longrightarrow>
      zsbt_tid_undo_deletion U P tree t p = Inr (None, tree[b := p0] @ ps)"
    using f r(1) by (simp add: zsbt_tid_undo_deletion_def ZSUndoRecPtrEquals_def)
  have ne: "t_undo_ptr ?old \<noteq> p \<Longrightarrow> zsbt_tid_undo_deletion U P tree t p = Inr (None, tree)"
    using f by (simp add: zsbt_tid_undo_deletion_def ZSUndoRecPtrEquals_def)
  from eq ne r(2) show ?thesis unfolding x by auto
qed

text \<open>
  C10.  When no item of the tree covers TID \<open>t\<close>, \<open>zsbt_tid_mark_dead\<close> and
  \<open>zsbt_tid_undo_deletion\<close> only raise a warning and return the tree unchanged, whereas
  delete, lock and update raise an error.
\<close>

theorem C10_absent_tid:
  assumes "\<forall>b<length (rel_tree rel). \<forall>item\<in>set (tiditems (rel_tree rel ! b)).
             \<not> item_covers item t"
  shows "zsbt_tid_mark_dead U P (rel_tree rel) t
           = Inr (Some CouldNotFindTupleToMarkDead, rel_tree rel)
       \<and> zsbt_tid_undo_deletion U P (rel_tree rel) t p
           = Inr (Some CouldNotFindAbortedTupleToRemove, rel_tree rel)
       \<and> zsbt_tid_delete SU SV U P rel t xid cid snapshot crosscheck changingPart
           = Inl CouldNotFindTupleToDelete
       \<and> zsbt_tid_lock SU U P rel t xid cid mode snap = Inl CouldNotFindTupleToLock
       \<and> zsbt_tid_update SU U P rel t xid cid key_update snap
           = Inl CouldNotFindOldTupleToUpdate"
  using fetch_absent [OF assms]
  by (simp add: zsbt_tid_mark_dead_def zsbt_tid_undo_deletion_def zsbt_tid_delete_def
      zsbt_tid_lock_def zsbt_tid_update_def zsbt_tid_update_lock_old_def)

lemma example_leaf_wf: "tree_wf small_params [example_leaf] [0]"
  by (rule one_leaf_wf)
    (simp_all add: example_leaf_def leaf_ok_def items_ordered_def items_within_def)

lemma example_leaf_tid_at: "tid_at [example_leaf] 3 0 0"
  by (simp add: tid_at_def example_leaf_def item_covers_def)

lemma example_leaf_slices:
  "replace_slices (tiditems ([example_leaf] ! 0)) 0 3 (Some x)
     = [\<lparr> t_tid = 1, t_nelements = 2, t_undo_ptr = 7, t_flags = 0 \<rparr>, x,
        \<lparr> t_tid = 4, t_nelements = 2, t_undo_ptr = 7, t_flags = 0 \<rparr>]"
  by (simp add: replace_slices_def slice_before_def slice_after_def opt_list_def
      example_leaf_def)

theorem C7_undo_deletion_witness:
  "(\<exists>tree'. zsbt_tid_undo_deletion no_unlink small_params [example_leaf] 3 7 = Inr (None, tree')
      \<and> leaf_rewritten [example_leaf] 0
           [\<lparr> t_tid = 1, t_nelements = 2, t_undo_ptr = 7, t_flags = 0 \<rparr>,
            \<lparr> t_tid = 3, t_nelements = 1, t_undo_ptr = InvalidUndoPtr, t_flags = 0 \<rparr>,
            \<lparr> t_tid = 4, t_nelements = 2, t_undo_ptr = 7, t_flags = 0 \<rparr>] tree')
   \<and> zsbt_tid_undo_deletion no_unlink small_params [example_leaf] 3 8
        = Inr (None, [example_leaf])"
proof -
  have u: "t_undo_ptr (tiditems ([example_leaf] ! 0) ! 0) = 7"
    by (simp add: example_leaf_def)
  show ?thesis
    using C7_undo_deletion [OF small_params_ok example_leaf_wf example_leaf_tid_at,
        of 7 no_unlink]
      C7_undo_deletion [OF small_params_ok example_leaf_wf example_leaf_tid_at,
        of 8 no_unlink] u
    unfolding example_leaf_slices by auto
qed

theorem C10_absent_tid_witness:
  "zsbt_tid_mark_dead no_unlink small_params (rel_tree example_rel) 7
           = Inr (Some CouldNotFindTupleToMarkDead, rel_tree example_rel)
       \<and> zsbt_tid_undo_deletion no_unlink small_params (rel_tree example_rel) 7 9
           = Inr (Some CouldNotFindAbortedTupleToRemove, rel_tree example_rel)
       \<and> zsbt_tid_delete always_ok sees_all no_unlink small_params example_rel 7 100 0
              (Some ()) None False
           = Inl CouldNotFindTupleToDelete
       \<and> zsbt_tid_lock always_ok no_unlink small_params example_rel 7 100 0
              LockTupleExclusive ()
           = Inl CouldNotFindTupleToLock
       \<and> zsbt_tid_update always_ok no_unlink small_params example_rel 7 100 0 True ()
           = Inl CouldNotFindOldTupleToUpdate"
proof -
  have absent: "\<forall>b<length (rel_tree example_rel).
      \<forall>item\<in>set (tiditems (rel_tree example_rel ! b)). \<not> item_covers item 7"
    by (simp add: example_rel_def example_leaf_def item_covers_def)
  show ?thesis by (rule C10_absent_tid [OF absent])
qed

text \<open>
  C5.  In a well-formed tree, for a TID \<open>t\<close> whose item is found and not \<open>DEAD\<close>: when
  \<open>zs_SatisfiesUpdate\<close> returns a result other than \<open>TM_Ok\<close>, delete and lock return that
  result and leave the relation (tree and undo log) as it was; when it returns \<open>TM_Ok\<close>,
  delete appends one \<open>DELETE\<close> undo record and replaces the slice of \<open>t\<close> by
  \<open>{t, 1, new undo pointer, 0}\<close>.  Called without a snapshot, delete makes no check and
  proceeds in the same way.
\<close>

theorem C5_visibility_failure:
  assumes ok: "params_ok P" and wf: "tree_wf P (rel_tree rel) chain"
    and at: "tid_at (rel_tree rel) t b i"
    and live: "\<not> item_is_dead (tiditems (rel_tree rel ! b) ! i)"
    and u: "undo = t_undo_ptr (tiditems (rel_tree rel ! b) ! i)"
  shows "(fst (SU snap t undo LockTupleExclusive) \<noteq> TM_Ok \<longrightarrow>
            zsbt_tid_delete SU SV U P rel t xid cid (Some snap) crosscheck changingPart
              = Inr (fst (SU snap t undo LockTupleExclusive), rel))
       \<and> (fst (SU snap t undo mode) \<noteq> TM_Ok \<longrightarrow>
            (\<exists>next_tid. zsbt_tid_lock SU U P rel t xid cid mode snap
                          = Inr (fst (SU snap t undo mode), next_tid, rel)))
       \<and> (fst (SU snap t undo LockTupleExclusive) = TM_Ok \<longrightarrow>
            (\<exists>tree'.
               zsbt_tid_delete SU SV U P rel t xid cid (Some snap) crosscheck changingPart
                 = Inr (TM_Ok, \<lparr> rel_tree = tree',
                                 rel_undo = rel_undo rel
                                   @ [ZSUndoRec_Delete xid cid t
                                        (if fst (snd (SU snap t undo LockTupleExclusive))
                                         then undo else InvalidUndoPtr)
                                        changingPart] \<rparr>)
               \<and> leaf_rewritten (rel_tree rel) b
                    (replace_slices (tiditems (rel_tree rel ! b)) i t
                       (Some \<lparr> t_tid = t, t_nelements = 1,
                               t_undo_ptr = Suc (length (rel_undo rel)), t_flags = 0 \<rparr>))
                    tree'))
       \<and> (\<exists>tree'.
               zsbt_tid_delete SU SV U P rel t xid cid None crosscheck changingPart
                 = Inr (TM_Ok, \<lparr> rel_tree = tree',
                                 rel_undo = rel_undo rel
                                   @ [ZSUndoRec_Delete xid cid t undo changingPart] \<rparr>)
               \<and> leaf_rewritten (rel_tree rel) b
                    (replace_slices (tiditems (rel_tree rel ! b)) i t
                       (Some \<lparr> t_tid = t, t_nelements = 1,
                               t_undo_ptr = Suc (length (rel_undo rel)), t_flags = 0 \<rparr>))
                    tree')"
proof -
  let ?old = "tiditems (rel_tree rel ! b) ! i"
  have f: "zsbt_tid_fetch (rel_tree rel) t = Some (b, undo, False)"
    using wf_fetch [OF wf at] live u by simp
  obtain res keep nt where su: "SU snap t undo LockTupleExclusive = (res, keep, nt)"
    by (cases "SU snap t undo LockTupleExclusive") auto
  obtain resl keepl ntl where sul: "SU snap t undo mode = (resl, keepl, ntl)"
    by (cases "SU snap t undo mode") auto
  have del_fail: "fst (SU snap t undo LockTupleExclusive) \<noteq> TM_Ok \<Longrightarrow>
            zsbt_tid_delete SU SV U P rel t xid cid (Some snap) crosscheck changingPart
              = Inr (fst (SU snap t undo LockTupleExclusive), rel)"
    using f su by (simp add: zsbt_tid_delete_def)
  have lock_fail: "fst (SU snap t undo mode) \<noteq> TM_Ok \<Longrightarrow>
            (\<exists>next_tid. zsbt_tid_lock SU U P rel t xid cid mode snap
                          = Inr (fst (SU snap t undo mode), next_tid, rel))"
    using f sul by (simp add: zsbt_tid_lock_def Let_def)
  let ?x = "zsbt_tid_create_item t (Suc (length (rel_undo rel))) 1"
  have x: "?x = \<lparr> t_tid = t, t_nelements = 1, t_undo_ptr = Suc (length (rel_undo rel)),
                   t_flags = 0 \<rparr>"
    by (simp add: zsbt_tid_create_item_def)
  from replace_item_some [OF ok wf at, of ?x U]
  obtain p0 ps where r:
    "zsbt_tid_replace_item U P (rel_tree rel) b t (Some ?x) = Inr ((rel_tree rel)[b := p0] @ ps)"
    "leaf_rewritten (rel_tree rel) b
       (replace_slices (tiditems (rel_tree rel ! b)) i t (Some ?x))
       ((rel_tree rel)[b := p0] @ ps)"
    by (auto simp: zsbt_tid_create_item_def)
  have del_ok: "fst (SU snap t undo LockTupleExclusive) = TM_Ok \<Longrightarrow>
            (\<exists>tree'.
               zsbt_tid_delete SU SV U P rel t xid cid (Some snap) crosscheck changingPart
                 = Inr (TM_Ok, \<lparr> rel_tree = tree',
                                 rel_undo = rel_undo rel
                                   @ [ZSUndoRec_Delete xid cid t
                                        (if fst (snd (SU snap t undo LockTupleExclusive))
                                         then undo else InvalidUndoPtr)
                                        changingPart] \<rparr>)
               \<and> leaf_rewritten (rel_tree rel) b
                    (replace_slices (tiditems (rel_tree rel ! b)) i t (Some ?x)) tree')"
    using f r su by (simp add: zsbt_tid_delete_def zsundo_insert_def)
  have del_nosnap: "\<exists>tree'.
               zsbt_tid_delete SU SV U P rel t xid cid None crosscheck changingPart
                 = Inr (TM_Ok, \<lparr> rel_tree = tree',
                                 rel_undo = rel_undo rel
                                   @ [ZSUndoRec_Delete xid cid t undo changingPart] \<rparr>)
               \<and> leaf_rewritten (rel_tree rel) b
                    (replace_slices (tiditems (rel_tree rel ! b)) i t (Some ?x)) tree'"
    using f r by (simp add: zsbt_tid_delete_def zsundo_insert_def)
  from del_fail lock_fail del_ok del_nosnap show ?thesis unfolding x by blast
qed

lemma example_rel_wf: "tree_wf small_params (rel_tree example_rel) [0]"
  using example_leaf_wf by (simp add: example_rel_def)

lemma example_rel_tid_at: "tid_at (rel_tree example_rel) 3 0 0"
  using example_leaf_tid_at by (simp add: example_rel_def)

theorem C5_visibility_failure_witness:
  "zsbt_tid_delete always_updated sees_all no_unlink small_params example_rel 3 100 0
       (Some ()) None False
     = Inr (TM_Updated, example_rel)
   \<and> (\<exists>next_tid. zsbt_tid_lock always_updated no_unlink small_params example_rel 3 100 0
                     LockTupleShare ()
                   = Inr (TM_Updated, next_tid, example_rel))
   \<and> (\<exists>tree'. zsbt_tid_delete always_ok sees_all no_unlink small_params example_rel 3 100 0
                  (Some ()) None False
                = Inr (TM_Ok, \<lparr> rel_tree = tree',
                                rel_undo = [ZSUndoRec_Delete 100 0 3 7 False] \<rparr>)
              \<and> leaf_rewritten [example_leaf] 0
                   [\<lparr> t_tid = 1, t_nelements = 2, t_undo_ptr = 7, t_flags = 0 \<rparr>,
                    \<lparr> t_tid = 3, t_nelements = 1, t_undo_ptr = 1, t_flags = 0 \<rparr>,
                    \<lparr> t_tid = 4, t_nelements = 2, t_undo_ptr = 7, t_flags = 0 \<rparr>] tree')"
proof -
  have live: "\<not> item_is_dead (tiditems (rel_tree example_rel ! 0) ! 0)"
    by (simp add: example_rel_def example_leaf_def item_is_dead_def)
  have u: "7 = t_undo_ptr (tiditems (rel_tree example_rel ! 0) ! 0)"
    by (simp add: example_rel_def example_leaf_def)
  have sl: "replace_slices (tiditems (rel_tree example_rel ! 0)) 0 3 (Some x)
     = [\<lparr> t_tid = 1, t_nelements = 2, t_undo_ptr = 7, t_flags = 0 \<rparr>, x,
        \<lparr> t_tid = 4, t_nelements = 2, t_undo_ptr = 7, t_flags = 0 \<rparr>]" for x
    using example_leaf_slices [of x] by (simp add: example_rel_def)
  have a: "zsbt_tid_delete always_updated sees_all no_unlink small_params example_rel 3 100 0
       (Some ()) None False = Inr (TM_Updated, example_rel)
     \<and> (\<exists>next_tid. zsbt_tid_lock always_updated no_unlink small_params example_rel 3 100 0
                     LockTupleShare ()
                   = Inr (TM_Updated, next_tid, example_rel))"
    using C5_visibility_failure [OF small_params_ok example_rel_wf example_rel_tid_at live u,
        where SU = always_updated and snap = "()" and mode = LockTupleShare
          and SV = sees_all and U = no_unlink and xid = 100 and cid = 0
          and crosscheck = None and changingPart = False]
    by (simp add: always_updated_def)
  have b: "\<exists>tree'. zsbt_tid_delete always_ok sees_all no_unlink small_params example_rel 3 100 0
                  (Some ()) None False
                = Inr (TM_Ok, \<lparr> rel_tree = tree',
                                rel_undo = [ZSUndoRec_Delete 100 0 3 7 False] \<rparr>)
              \<and> leaf_rewritten [example_leaf] 0
                   [\<lparr> t_tid = 1, t_nelements = 2, t_undo_ptr = 7, t_flags = 0 \<rparr>,
                    \<lparr> t_tid = 3, t_nelements = 1, t_undo_ptr = 1, t_flags = 0 \<rparr>,
                    \<lparr> t_tid = 4, t_nelements = 2, t_undo_ptr = 7, t_flags = 0 \<rparr>] tree'"
    using C5_visibility_failure [OF small_params_ok example_rel_wf example_rel_tid_at live u,
        where SU = always_ok and snap = "()" and mode = LockTupleShare
          and SV = sees_all and U = no_unlink and xid = 100 and cid = 0
          and crosscheck = None and changingPart = False]
    unfolding sl by (simp add: always_ok_def example_rel_def)
  from a b show ?thesis by blast
qed

lemma pages_cover_last: "pages_cover lo hi ps \<Longrightarrow> zs_hikey (last ps) = hi"
  by (induction lo hi ps rule: pages_cover.induct) simp_all

lemma pages_cover_upper:
  assumes cov: "pages_cover lo hi ps" and rg: "list_all (\<lambda>p. zs_lokey p < zs_hikey p) ps"
    and i: "i < length ps"
  shows "zs_hikey (ps ! i) \<le> hi"
proof (cases "i = length ps - 1")
  case True
  from i have "ps \<noteq> []" by auto
  with True have "ps ! i = last ps" by (simp add: last_conv_nth)
  with pages_cover_last [OF cov] show ?thesis by simp
next
  case False
  with i have lt: "i < length ps - 1" "length ps - 1 < length ps" by simp_all
  from pages_cover_ordered [OF cov rg lt]
  have "zs_hikey (ps ! i) \<le> zs_lokey (ps ! (length ps - 1))" .
  moreover have "zs_lokey (ps ! (length ps - 1)) < zs_hikey (ps ! (length ps - 1))"
    using rg lt(2) by (simp add: list_all_length)
  moreover have "ps ! (length ps - 1) = last ps"
  proof -
    from i have "ps \<noteq> []" by auto
    then show ?thesis by (simp add: last_conv_nth)
  qed
  ultimately show ?thesis using pages_cover_last [OF cov] by simp
qed

lemma wf_hikey_le:
  assumes wf: "tree_wf P tree chain" and b: "b < length tree"
  shows "zs_hikey (tree ! b) \<le> MaxPlusOneZSTid P"
proof -
  from wf have s: "set chain = {0..<length tree}"
    and cov: "pages_cover MinZSTid (MaxPlusOneZSTid P) (map ((!) tree) chain)"
    and ok: "list_all leaf_ok tree"
    by (simp_all add: tree_wf_def)
  from b s obtain i where i: "i < length chain" "chain ! i = b"
    by (metis atLeastLessThan_iff in_set_conv_nth zero_le)
  have okc: "list_all leaf_ok (map ((!) tree) chain)"
    using ok s by (auto simp: list_all_iff)
  from pages_cover_upper [OF cov leaf_ok_range [OF okc], of i] i show ?thesis by simp
qed

lemma add_items_shape:
  assumes ok: "params_ok P" and buf: "buf < length tree" and ne: "newitems \<noteq> []"
  shows "\<exists>tree'. zsbt_tid_add_items U P tree buf newitems = Inr tree'
           \<and> leaf_rewritten tree buf (tiditems (tree ! buf) @ newitems) tree'
           \<and> (length newitems * sizeof_ZSTidArrayItem P \<le> PageGetExactFreeSpace P (tree ! buf)
                \<longrightarrow> tree' = tree[buf := (tree ! buf)
                                 \<lparr> tiditems := tiditems (tree ! buf) @ newitems \<rparr>])"
proof (cases "length newitems * sizeof_ZSTidArrayItem P \<le> PageGetExactFreeSpace P (tree ! buf)")
  case True
  let ?p0 = "(tree ! buf) \<lparr> tiditems := tiditems (tree ! buf) @ newitems \<rparr>"
  have "zsbt_tid_add_items U P tree buf newitems = Inr (tree[buf := ?p0])"
    using True buf by (simp add: zsbt_tid_add_items_def Let_def)
  moreover have "leaf_rewritten tree buf (tiditems (tree ! buf) @ newitems) (tree[buf := ?p0] @ [])"
    by (rule leaf_rewritten_intro [OF buf]) simp
  ultimately show ?thesis by simp
next
  case False
  have ne': "tiditems (tree ! buf) @ newitems \<noteq> []" using ne by simp
  from recompress_replace_shape [OF ok buf ne']
  obtain p0 ps where r: "zsbt_tid_recompress_replace P tree buf (tiditems (tree ! buf) @ newitems)
      = Inr (tree[buf := p0] @ ps)"
    "concat (map tiditems (p0 # ps)) = tiditems (tree ! buf) @ newitems" by blast
  have "zsbt_tid_add_items U P tree buf newitems = Inr (tree[buf := p0] @ ps)"
    using False buf ne r(1) by (simp add: zsbt_tid_add_items_def Let_def zsbt_tid_rewrite_page_def)
  moreover have "leaf_rewritten tree buf (tiditems (tree ! buf) @ newitems) (tree[buf := p0] @ ps)"
    by (rule leaf_rewritten_intro [OF buf r(2)])
  ultimately show ?thesis using False by simp
qed

lemma multi_insert_at:
  assumes ok: "params_ok P" and wf: "tree_wf P (rel_tree rel) chain"
    and mx: "MinZSTid \<le> MaxZSTid P" and n: "0 < N"
    and up: "undoptr = (if xid \<noteq> FrozenTransactionId then Suc (length (rel_undo rel))
                        else InvalidUndoPtr)"
    and lg: "log = (if xid \<noteq> FrozenTransactionId
                     then rel_undo rel @ [ZSUndoRec_Insert xid cid
                            (multi_insert_start (rel_tree rel ! b)) tok prev
                            (multi_insert_start (rel_tree rel ! b) + N - 1)]
                     else rel_undo rel)"
    and b: "zsbt_descend (rel_tree rel) (MaxZSTid P) = Some b"
  shows "zs_hikey (rel_tree rel ! b) = MaxPlusOneZSTid P
       \<and> (\<exists>tree'. zsbt_tid_multi_insert U P rel N xid cid tok prev
                    = Inr (map (\<lambda>k. multi_insert_start (rel_tree rel ! b) + k) [0..<N],
                           \<lparr> rel_tree = tree', rel_undo = log \<rparr>)
             \<and> leaf_rewritten (rel_tree rel) b
                  (tiditems (rel_tree rel ! b)
                     @ [\<lparr> t_tid = multi_insert_start (rel_tree rel ! b), t_nelements = N,
                           t_undo_ptr = undoptr, t_flags = 0 \<rparr>]) tree'
             \<and> (sizeof_ZSTidArrayItem P \<le> PageGetExactFreeSpace P (rel_tree rel ! b) \<longrightarrow>
                  tree' = (rel_tree rel)[b := (rel_tree rel ! b)
                            \<lparr> tiditems := tiditems (rel_tree rel ! b)
                                 @ [\<lparr> t_tid = multi_insert_start (rel_tree rel ! b),
                                       t_nelements = N, t_undo_ptr = undoptr,
                                       t_flags = 0 \<rparr>] \<rparr>]))"
proof -
  let ?tree = "rel_tree rel"
  let ?leaf = "?tree ! b"
  let ?start = "multi_insert_start ?leaf"
  from b have bl: "b < length ?tree" and pc: "page_covers ?leaf (MaxZSTid P)"
    using find_leaf_Some [of ?tree "MaxZSTid P" 0 b] by (simp_all add: zsbt_descend_def)
  have "zs_hikey ?leaf \<le> MaxPlusOneZSTid P" by (rule wf_hikey_le [OF wf bl])
  with pc have hk: "zs_hikey ?leaf = MaxPlusOneZSTid P"
    by (simp add: page_covers_def MaxPlusOneZSTid_def)
  have lf: "leaf_ok ?leaf" by (rule wf_leaf_ok [OF wf bl])
  have st: "?start = (if length (tiditems ?leaf) > 0
                      then t_tid (tiditems ?leaf ! (length (tiditems ?leaf) - 1))
                             + t_nelements (tiditems ?leaf ! (length (tiditems ?leaf) - 1))
                      else zs_lokey ?leaf)"
  proof (cases "tiditems ?leaf = []")
    case True
    then show ?thesis by (simp add: multi_insert_start_def)
  next
    case False
    then have l: "last (tiditems ?leaf) = tiditems ?leaf ! (length (tiditems ?leaf) - 1)"
      by (simp add: last_conv_nth)
    have "last (tiditems ?leaf) \<in> set (tiditems ?leaf)" using False by simp
    with lf have "zs_lokey ?leaf \<le> t_tid (last (tiditems ?leaf))"
      by (simp add: leaf_ok_def items_within_def list_all_iff)
    with False l show ?thesis by (simp add: multi_insert_start_def max_def)
  qed
  let ?new = "\<lparr> t_tid = ?start, t_nelements = N, t_undo_ptr = undoptr, t_flags = 0 \<rparr>"
  from add_items_shape [OF ok bl, of "[?new]" U]
  obtain tree' where a: "zsbt_tid_add_items U P ?tree b [?new] = Inr tree'"
    "leaf_rewritten ?tree b (tiditems ?leaf @ [?new]) tree'"
    "sizeof_ZSTidArrayItem P \<le> PageGetExactFreeSpace P ?leaf \<longrightarrow>
       tree' = ?tree[b := ?leaf \<lparr> tiditems := tiditems ?leaf @ [?new] \<rparr>]"
    by auto
  have mi: "zsbt_tid_multi_insert U P rel N xid cid tok prev
      = (let (log', undorecptr) =
               (if xid \<noteq> FrozenTransactionId
                then zsundo_insert (rel_undo rel)
                       (ZSUndoRec_Insert xid cid ?start tok prev (?start + N - 1))
                else (rel_undo rel, InvalidUndoPtr))
         in (case zsbt_tid_add_items U P ?tree b [zsbt_tid_create_item ?start undorecptr N] of
               Inl e \<Rightarrow> Inl e
             | Inr tree' \<Rightarrow>
                 Inr (map (\<lambda>k. ?start + k) [0..<N],
                      \<lparr> rel_tree = tree', rel_undo = log' \<rparr>)))"
    by (simp only: zsbt_tid_multi_insert_def Let_def b option.case st [symmetric])
  have "zsbt_tid_multi_insert U P rel N xid cid tok prev
          = Inr (map (\<lambda>k. ?start + k) [0..<N], \<lparr> rel_tree = tree', rel_undo = log \<rparr>)"
  proof (cases "xid = FrozenTransactionId")
    case True
    with a(1) up lg show ?thesis
      unfolding mi by (simp add: zsbt_tid_create_item_def)
  next
    case False
    with a(1) up lg show ?thesis
      unfolding mi by (simp add: zsbt_tid_create_item_def zsundo_insert_def)
  qed
  with hk a(2,3) show ?thesis by blast
qed

text \<open>
  C2.  In a well-formed tree, multi-insert of \<open>N \<ge> 1\<close> TIDs descends to the rightmost leaf
  (the leaf for key \<open>MaxZSTid\<close>, whose high key is \<open>MaxPlusOneZSTid\<close>), takes
  \<open>start = max (end of the last item) lokey\<close> (\<open>lokey\<close> on an empty leaf), appends the single
  item \<open>{start, N, undoptr, 0}\<close> to the items of that leaf (in place when it fits,
  through the recompressor otherwise), emits one \<open>INSERT\<close> undo record for
  \<open>[start, start + N)\<close> unless the xid is frozen, and returns \<open>start, ..., start + N - 1\<close>.
\<close>

theorem C2_multi_insert:
  assumes ok: "params_ok P" and wf: "tree_wf P (rel_tree rel) chain"
    and mx: "MinZSTid \<le> MaxZSTid P" and n: "0 < N"
  shows "\<exists>b tree'.
           zsbt_descend (rel_tree rel) (MaxZSTid P) = Some b
         \<and> zs_hikey (rel_tree rel ! b) = MaxPlusOneZSTid P
         \<and> zsbt_tid_multi_insert U P rel N xid cid tok prev
             = Inr (map (\<lambda>k. multi_insert_start (rel_tree rel ! b) + k) [0..<N],
                    \<lparr> rel_tree = tree',
                      rel_undo =
                        (if xid \<noteq> FrozenTransactionId
                         then rel_undo rel @ [ZSUndoRec_Insert xid cid
                                (multi_insert_start (rel_tree rel ! b)) tok prev
                                (multi_insert_start (rel_tree rel ! b) + N - 1)]
                         else rel_undo rel) \<rparr>)
         \<and> leaf_rewritten (rel_tree rel) b
              (tiditems (rel_tree rel ! b)
                 @ [\<lparr> t_tid = multi_insert_start (rel_tree rel ! b), t_nelements = N,
                       t_undo_ptr = (if xid \<noteq> FrozenTransactionId
                                     then Suc (length (rel_undo rel)) else InvalidUndoPtr),
                       t_flags = 0 \<rparr>]) tree'
         \<and> (sizeof_ZSTidArrayItem P \<le> PageGetExactFreeSpace P (rel_tree rel ! b) \<longrightarrow>
              tree' = (rel_tree rel)[b := (rel_tree rel ! b)
                        \<lparr> tiditems := tiditems (rel_tree rel ! b)
                             @ [\<lparr> t_tid = multi_insert_start (rel_tree rel ! b),
                                   t_nelements = N,
                                   t_undo_ptr = (if xid \<noteq> FrozenTransactionId
                                                 then Suc (length (rel_undo rel))
                                                 else InvalidUndoPtr),
                                   t_flags = 0 \<rparr>] \<rparr>])"
proof -
  have "MaxZSTid P < MaxPlusOneZSTid P" by (simp add: MaxPlusOneZSTid_def)
  from wf_descend_total [OF wf mx this]
  obtain b where b: "zsbt_descend (rel_tree rel) (MaxZSTid P) = Some b" by blast
  from multi_insert_at [OF ok wf mx n refl refl b,
      where U = U and xid = xid and cid = cid and tok = tok and prev = prev] b
  show ?thesis by blast
qed

theorem C2_multi_insert_witness:
  "zsbt_descend (rel_tree example_rel) (MaxZSTid small_params) = Some 0
   \<and> zsbt_tid_multi_insert no_unlink small_params example_rel 3 100 0 0 0
       = Inr ([6, 7, 8],
              \<lparr> rel_tree = [example_leaf \<lparr> tiditems :=
                    [\<lparr> t_tid = 1, t_nelements = 5, t_undo_ptr = 7, t_flags = 0 \<rparr>,
                     \<lparr> t_tid = 6, t_nelements = 3, t_undo_ptr = 1, t_flags = 0 \<rparr>] \<rparr>],
                rel_undo = [ZSUndoRec_Insert 100 0 6 0 0 8] \<rparr>)"
proof -
  have mx: "MinZSTid \<le> MaxZSTid small_params"
    by (simp add: MinZSTid_def small_params_def)
  have d: "zsbt_descend (rel_tree example_rel) (MaxZSTid small_params) = Some 0"
    by (simp add: zsbt_descend_def example_rel_def example_leaf_def small_params_def)
  have st: "multi_insert_start (rel_tree example_rel ! 0) = 6"
    by (simp add: multi_insert_start_def example_rel_def example_leaf_def)
  have fr: "sizeof_ZSTidArrayItem small_params
              \<le> PageGetExactFreeSpace small_params (rel_tree example_rel ! 0)"
    by (simp add: PageGetExactFreeSpace_def small_params_def example_rel_def example_leaf_def
        MAXALIGN_def)
  have xid: "(100::nat) \<noteq> FrozenTransactionId" by (simp add: FrozenTransactionId_def)
  have up: "[0..<3] = [0, 1, 2]" by (simp add: upt_rec)
  from C2_multi_insert [OF small_params_ok example_rel_wf mx,
      where N = 3 and U = no_unlink and xid = 100 and cid = 0 and tok = 0 and prev = 0]
  obtain b tree' where r: "zsbt_descend (rel_tree example_rel) (MaxZSTid small_params) = Some b"
    "zsbt_tid_multi_insert no_unlink small_params example_rel 3 100 0 0 0
             = Inr (map (\<lambda>k. multi_insert_start (rel_tree example_rel ! b) + k) [0..<3],
                    \<lparr> rel_tree = tree',
                      rel_undo =
                        (if (100::nat) \<noteq> FrozenTransactionId
                         then rel_undo example_rel @ [ZSUndoRec_Insert 100 0
                                (multi_insert_start (rel_tree example_rel ! b)) 0 0
                                (multi_insert_start (rel_tree example_rel ! b) + 3 - 1)]
                         else rel_undo example_rel) \<rparr>)"
    "sizeof_ZSTidArrayItem small_params
        \<le> PageGetExactFreeSpace small_params (rel_tree example_rel ! b) \<longrightarrow>
              tree' = (rel_tree example_rel)[b := (rel_tree example_rel ! b)
                        \<lparr> tiditems := tiditems (rel_tree example_rel ! b)
                             @ [\<lparr> t_tid = multi_insert_start (rel_tree example_rel ! b),
                                   t_nelements = 3,
                                   t_undo_ptr = (if (100::nat) \<noteq> FrozenTransactionId
                                                 then Suc (length (rel_undo example_rel))
                                                 else InvalidUndoPtr),
                                   t_flags = 0 \<rparr>] \<rparr>]"
    by auto
  from r(1) d have b0: "b = 0" by simp
  from r(3) fr b0 xid st
  have t': "tree' = [example_leaf \<lparr> tiditems :=
                    [\<lparr> t_tid = 1, t_nelements = 5, t_undo_ptr = 7, t_flags = 0 \<rparr>,
                     \<lparr> t_tid = 6, t_nelements = 3, t_undo_ptr = 1, t_flags = 0 \<rparr>] \<rparr>]"
    by (simp add: example_rel_def example_leaf_def)
  from r(2) b0 xid st t' up d show ?thesis
    by (simp add: example_rel_def)
qed

lemma add_item_tids_ascending:
  assumes "\<forall>x\<in>set s. x < tid"
  shows "add_item_tids s tid n = Inr (s @ [tid ..< tid + n])"
  using assms
proof (induction n arbitrary: s tid)
  case 0
  then show ?case by simp
next
  case (Suc n)
  have "\<not> (s \<noteq> [] \<and> tid \<le> last s)"
  proof
    assume h: "s \<noteq> [] \<and> tid \<le> last s"
    then have "last s \<in> set s" by simp
    with Suc.prems have "last s < tid" by blast
    with h show False by simp
  qed
  then have a: "intset_add_member s tid = Inr (s @ [tid])"
    by (simp add: intset_add_member_def)
  have "\<forall>x\<in>set (s @ [tid]). x < Suc tid" using Suc.prems by auto
  from Suc.IH [OF this] a show ?case by (simp add: upt_rec)
qed

lemma dead_tids_of_page_Cons:
  "dead_tids_of_page (page \<lparr> tiditems := item # items \<rparr>)
     = (if item_is_dead item then [t_tid item ..< t_tid item + t_nelements item] else [])
       @ dead_tids_of_page (page \<lparr> tiditems := items \<rparr>)"
  by (simp add: dead_tids_of_page_def)

lemma collect_page_items_ok:
  assumes "items_ordered items" and "items_within B H items" and "\<forall>x\<in>set s. x < B"
  shows "collect_page_items items s
           = Inr (s @ concat (map (\<lambda>item. if item_is_dead item
                           then [t_tid item ..< t_tid item + t_nelements item] else []) items))
       \<and> (\<forall>x\<in>set (concat (map (\<lambda>item. if item_is_dead item
                           then [t_tid item ..< t_tid item + t_nelements item] else []) items)).
             B \<le> x \<and> x < H)"
  using assms
proof (induction items arbitrary: s B)
  case Nil
  then show ?case by simp
next
  case (Cons item items)
  let ?f = "\<lambda>item. if item_is_dead item
                           then [t_tid item ..< t_tid item + t_nelements item] else []"
  let ?E = "t_tid item + t_nelements item"
  have lo: "B \<le> t_tid item" and hi: "?E \<le> H"
    using Cons.prems(2) by (simp_all add: items_within_def)
  have ord': "items_ordered items"
    using Cons.prems(1) by (simp add: items_ordered_def)
  have wi': "items_within ?E H items"
    using Cons.prems(1,2) by (auto simp: items_within_def items_ordered_def list_all_iff)
  have rest_bound: "\<forall>x\<in>set (concat (map ?f items)). B \<le> x \<and> x < H"
    if "\<forall>x\<in>set (concat (map ?f items)). ?E \<le> x \<and> x < H"
  proof
    fix x assume "x \<in> set (concat (map ?f items))"
    with that have "?E \<le> x \<and> x < H" by blast
    with lo show "B \<le> x \<and> x < H" by linarith
  qed
  have own_bound: "\<forall>x\<in>set (?f item). B \<le> x \<and> x < H"
    using lo hi by auto
  show ?case
  proof (cases "item_is_dead item")
    case True
    have "\<forall>x\<in>set s. x < t_tid item" using Cons.prems(3) lo by auto
    from add_item_tids_ascending [OF this, of "t_nelements item"]
    have a: "add_item_tids s (t_tid item) (t_nelements item)
               = Inr (s @ [t_tid item ..< ?E])" .
    have "\<forall>x\<in>set (s @ [t_tid item ..< ?E]). x < ?E"
      using Cons.prems(3) lo by auto
    from Cons.IH [OF ord' wi' this]
    have ih: "collect_page_items items (s @ [t_tid item ..< ?E])
                = Inr ((s @ [t_tid item ..< ?E]) @ concat (map ?f items))"
      and ihb: "\<forall>x\<in>set (concat (map ?f items)). ?E \<le> x \<and> x < H" by simp_all
    have 1: "collect_page_items (item # items) s = Inr (s @ concat (map ?f (item # items)))"
      using True a ih by simp
    have 2: "\<forall>x\<in>set (concat (map ?f (item # items))). B \<le> x \<and> x < H"
      using own_bound rest_bound [OF ihb] by auto
    from 1 2 show ?thesis by blast
  next
    case False
    have "\<forall>x\<in>set s. x < ?E" using Cons.prems(3) lo by auto
    from Cons.IH [OF ord' wi' this]
    have ih: "collect_page_items items s = Inr (s @ concat (map ?f items))"
      and ihb: "\<forall>x\<in>set (concat (map ?f items)). ?E \<le> x \<and> x < H" by simp_all
    have 1: "collect_page_items (item # items) s = Inr (s @ concat (map ?f (item # items)))"
      using False ih by simp
    have 2: "\<forall>x\<in>set (concat (map ?f (item # items))). B \<le> x \<and> x < H"
      using False rest_bound [OF ihb] by auto
    from 1 2 show ?thesis by blast
  qed
qed

lemma collect_leaf_ok:
  assumes "leaf_ok page" and "\<forall>x\<in>set s. x < zs_lokey page"
  shows "collect_page_items (tiditems page) s = Inr (s @ dead_tids_of_page page)"
    and "\<forall>x\<in>set (s @ dead_tids_of_page page). x < zs_hikey page"
proof -
  from assms(1) have o: "items_ordered (tiditems page)"
    and w: "items_within (zs_lokey page) (zs_hikey page) (tiditems page)"
    and lh: "zs_lokey page < zs_hikey page"
    by (simp_all add: leaf_ok_def)
  from collect_page_items_ok [OF o w assms(2)]
  show "collect_page_items (tiditems page) s = Inr (s @ dead_tids_of_page page)"
    by (simp add: dead_tids_of_page_def)
  from collect_page_items_ok [OF o w assms(2)] assms(2) lh
  show "\<forall>x\<in>set (s @ dead_tids_of_page page). x < zs_hikey page"
    by (auto simp: dead_tids_of_page_def)
qed

lemma chain_linked_nth:
  "chain_linked tree chain \<Longrightarrow> Suc j < length chain \<Longrightarrow>
     zs_next (tree ! (chain ! j)) = Some (chain ! Suc j)"
proof (induction chain arbitrary: j)
  case Nil
  then show ?case by simp
next
  case (Cons b chain)
  then obtain c cs where ch: "chain = c # cs" by (cases chain) auto
  show ?case
  proof (cases j)
    case 0
    with Cons.prems ch show ?thesis by simp
  next
    case (Suc j')
    from Cons.prems ch have "chain_linked tree chain" by simp
    from Cons.IH [OF this, of j'] Cons.prems(2) Suc show ?thesis by simp
  qed
qed

lemma wf_chain_facts:
  assumes wf: "tree_wf P tree chain" and j: "j < length chain"
  shows "chain ! j < length tree" and "leaf_ok (tree ! (chain ! j))"
    and "Suc j < length chain \<longrightarrow>
           zs_next (tree ! (chain ! j)) = Some (chain ! Suc j)
           \<and> zs_hikey (tree ! (chain ! j)) = zs_lokey (tree ! (chain ! Suc j))
           \<and> zs_hikey (tree ! (chain ! j)) \<noteq> MaxPlusOneZSTid P"
    and "Suc j = length chain \<longrightarrow> zs_hikey (tree ! (chain ! j)) = MaxPlusOneZSTid P"
proof -
  from wf have s: "set chain = {0..<length tree}"
    and lk: "chain_linked tree chain"
    and cov: "pages_cover MinZSTid (MaxPlusOneZSTid P) (map ((!) tree) chain)"
    and ok: "list_all leaf_ok tree"
    by (simp_all add: tree_wf_def)
  from j s show b: "chain ! j < length tree" by (metis atLeastLessThan_iff nth_mem)
  show "leaf_ok (tree ! (chain ! j))" by (rule wf_leaf_ok [OF wf b])
  show "Suc j < length chain \<longrightarrow>
           zs_next (tree ! (chain ! j)) = Some (chain ! Suc j)
           \<and> zs_hikey (tree ! (chain ! j)) = zs_lokey (tree ! (chain ! Suc j))
           \<and> zs_hikey (tree ! (chain ! j)) \<noteq> MaxPlusOneZSTid P"
  proof
    assume sj: "Suc j < length chain"
    have 1: "zs_next (tree ! (chain ! j)) = Some (chain ! Suc j)"
      by (rule chain_linked_nth [OF lk sj])
    have 2: "zs_hikey (tree ! (chain ! j)) = zs_lokey (tree ! (chain ! Suc j))"
      using pages_cover_nth [OF cov, of j] sj by simp
    from sj s have b': "chain ! Suc j < length tree" by (metis atLeastLessThan_iff nth_mem)
    have "zs_lokey (tree ! (chain ! Suc j)) < zs_hikey (tree ! (chain ! Suc j))"
      using wf_leaf_ok [OF wf b'] by (simp add: leaf_ok_def)
    moreover have "zs_hikey (tree ! (chain ! Suc j)) \<le> MaxPlusOneZSTid P"
      by (rule wf_hikey_le [OF wf b'])
    ultimately have 3: "zs_hikey (tree ! (chain ! j)) \<noteq> MaxPlusOneZSTid P" using 2 by simp
    from 1 2 3 show "zs_next (tree ! (chain ! j)) = Some (chain ! Suc j)
           \<and> zs_hikey (tree ! (chain ! j)) = zs_lokey (tree ! (chain ! Suc j))
           \<and> zs_hikey (tree ! (chain ! j)) \<noteq> MaxPlusOneZSTid P" by simp
  qed
  show "Suc j = length chain \<longrightarrow> zs_hikey (tree ! (chain ! j)) = MaxPlusOneZSTid P"
  proof
    assume l: "Suc j = length chain"
    then have "chain \<noteq> []" by auto
    moreover from l have "length chain - 1 = j" by simp
    ultimately have "last chain = chain ! j" by (simp add: last_conv_nth)
    with \<open>chain \<noteq> []\<close> have "last (map ((!) tree) chain) = tree ! (chain ! j)"
      by (simp add: last_map)
    with pages_cover_last [OF cov] show "zs_hikey (tree ! (chain ! j)) = MaxPlusOneZSTid P"
      by simp
  qed
qed

lemma collect_loop_from:
  assumes wf: "tree_wf P tree chain"
    and j: "j < length chain"
    and entry: "(nextblock = Some (chain ! j) \<and> page_covers (tree ! (chain ! j)) nexttid)
               \<or> (nextblock = None \<and> buf = None \<and> zsbt_descend tree nexttid = Some (chain ! j))"
    and acc: "\<forall>x\<in>set acc. x < zs_lokey (tree ! (chain ! j))"
  shows "collect_dead_loop mu P tree buf nexttid nextblock acc
           = Some (Inr (collect_walk mu P (map ((!) tree) (drop j chain)) acc))"
  using j entry acc
proof (induction "length chain - j" arbitrary: j buf nexttid nextblock acc)
  case 0
  then show ?case by simp
next
  case (Suc n)
  let ?b = "chain ! j"
  let ?page = "tree ! ?b"
  note f = wf_chain_facts [OF wf Suc.prems(1)]
  have sel: "(case (case nextblock of
              Some nb \<Rightarrow>
                if nb \<ge> length tree then Inl InvalidBufferAccess
                else if zsbt_page_is_expected tree nexttid nb then Inr (Some nb)
                else Inr None
            | None \<Rightarrow>
                (case buf of None \<Rightarrow> Inr None | Some b \<Rightarrow> Inl InvalidBufferAccess)) of
        Inl e \<Rightarrow> Some (Inl e)
      | Inr buf1 \<Rightarrow>
          (case (case buf1 of Some b \<Rightarrow> Some b | None \<Rightarrow> zsbt_descend tree nexttid) of
             None \<Rightarrow> Some (Inr (result, None))
           | Some b \<Rightarrow> F b)) = F ?b" for F result
    using Suc.prems(2) f(1)
    by (auto simp: zsbt_page_is_expected_def page_covers_def)
  from collect_leaf_ok [OF f(2) Suc.prems(3)]
  have cp: "collect_page_items (tiditems ?page) acc = Inr (acc @ dead_tids_of_page ?page)"
    and below: "\<forall>x\<in>set (acc @ dead_tids_of_page ?page). x < zs_hikey ?page" by auto
  have dr: "drop j chain = ?b # drop (Suc j) chain"
    using Suc.prems(1) by (simp add: Cons_nth_drop_Suc)
  show ?case
  proof (cases "Suc j = length chain")
    case True
    with f(4) have hk: "zs_hikey ?page = MaxPlusOneZSTid P" by simp
    have "collect_dead_loop mu P tree buf nexttid nextblock acc
            = Some (Inr (acc @ dead_tids_of_page ?page, Some (zs_hikey ?page)))"
      by (subst collect_dead_loop.simps, subst sel) (simp add: cp hk)
    moreover have "collect_walk mu P (map ((!) tree) (drop j chain)) acc
            = (acc @ dead_tids_of_page ?page, Some (zs_hikey ?page))"
      using dr True by simp
    ultimately show ?thesis by simp
  next
    case False
    with Suc.prems(1) have sj: "Suc j < length chain" by simp
    with f(3) have nx: "zs_next ?page = Some (chain ! Suc j)"
      and hl: "zs_hikey ?page = zs_lokey (tree ! (chain ! Suc j))"
      and nm: "zs_hikey ?page \<noteq> MaxPlusOneZSTid P" by simp_all
    have rest: "map ((!) tree) (drop (Suc j) chain) \<noteq> []" using sj by simp
    show ?thesis
    proof (cases "mu (acc @ dead_tids_of_page ?page) > maintenance_work_mem P * 1024")
      case True
      have "collect_dead_loop mu P tree buf nexttid nextblock acc
            = Some (Inr (acc @ dead_tids_of_page ?page, Some (zs_hikey ?page)))"
        by (subst collect_dead_loop.simps, subst sel) (simp add: cp nm True)
      moreover have "collect_walk mu P (map ((!) tree) (drop j chain)) acc
            = (acc @ dead_tids_of_page ?page, Some (zs_hikey ?page))"
        using dr True by simp
      ultimately show ?thesis by simp
    next
      case False
      have step: "collect_dead_loop mu P tree buf nexttid nextblock acc
            = collect_dead_loop mu P tree (Some ?b) (zs_hikey ?page) (zs_next ?page)
                (acc @ dead_tids_of_page ?page)"
        by (subst collect_dead_loop.simps, subst sel) (simp add: cp nm False)
      note f' = wf_chain_facts [OF wf sj]
      have pc': "page_covers (tree ! (chain ! Suc j)) (zs_hikey ?page)"
        using f'(2) hl by (simp add: page_covers_def leaf_ok_def)
      have n': "n = length chain - Suc j" using Suc.hyps(2) by simp
      have acc': "\<forall>x\<in>set (acc @ dead_tids_of_page ?page). x < zs_lokey (tree ! (chain ! Suc j))"
        using below hl by simp
      from Suc.hyps(1) [OF n' sj _ acc', of "zs_next ?page" "zs_hikey ?page" "Some ?b"] nx pc'
      have "collect_dead_loop mu P tree (Some ?b) (zs_hikey ?page) (zs_next ?page)
                (acc @ dead_tids_of_page ?page)
            = Some (Inr (collect_walk mu P (map ((!) tree) (drop (Suc j) chain))
                           (acc @ dead_tids_of_page ?page)))" by simp
      moreover have "collect_walk mu P (map ((!) tree) (drop j chain)) acc
            = collect_walk mu P (map ((!) tree) (drop (Suc j) chain))
                           (acc @ dead_tids_of_page ?page)"
        using dr rest False by simp
      ultimately show ?thesis using step by simp
    qed
  qed
qed

lemma collect_walk_prefix:
  assumes "leaves \<noteq> []"
  shows "\<exists>n. 0 < n \<and> n \<le> length leaves
           \<and> collect_walk mu P leaves acc
               = (acc @ concat (map dead_tids_of_page (take n leaves)),
                  Some (zs_hikey (leaves ! (n - 1))))
           \<and> (n = length leaves
               \<or> mu (acc @ concat (map dead_tids_of_page (take n leaves)))
                    > maintenance_work_mem P * 1024)
           \<and> (\<forall>m. 0 < m \<and> m < n \<longrightarrow>
                 mu (acc @ concat (map dead_tids_of_page (take m leaves)))
                   \<le> maintenance_work_mem P * 1024)"
  using assms
proof (induction leaves arbitrary: acc)
  case Nil
  then show ?case by simp
next
  case (Cons leaf rest)
  let ?B = "maintenance_work_mem P * 1024"
  show ?case
  proof (cases "rest = [] \<or> mu (acc @ dead_tids_of_page leaf) > ?B")
    case True
    then have "collect_walk mu P (leaf # rest) acc
                 = (acc @ dead_tids_of_page leaf, Some (zs_hikey leaf))" by auto
    with True show ?thesis by (intro exI [of _ 1]) auto
  next
    case False
    then have ne: "rest \<noteq> []" and le: "mu (acc @ dead_tids_of_page leaf) \<le> ?B" by auto
    from Cons.IH [OF ne, of "acc @ dead_tids_of_page leaf"]
    obtain n where n: "0 < n" "n \<le> length rest"
      "collect_walk mu P rest (acc @ dead_tids_of_page leaf)
         = ((acc @ dead_tids_of_page leaf) @ concat (map dead_tids_of_page (take n rest)),
            Some (zs_hikey (rest ! (n - 1))))"
      "n = length rest
         \<or> mu ((acc @ dead_tids_of_page leaf) @ concat (map dead_tids_of_page (take n rest))) > ?B"
      "\<forall>m. 0 < m \<and> m < n \<longrightarrow>
          mu ((acc @ dead_tids_of_page leaf) @ concat (map dead_tids_of_page (take m rest))) \<le> ?B"
      by blast
    have w: "collect_walk mu P (leaf # rest) acc
               = collect_walk mu P rest (acc @ dead_tids_of_page leaf)"
      using False by simp
    have 1: "0 < Suc n \<and> Suc n \<le> length (leaf # rest)" using n(2) by simp
    have 2: "collect_walk mu P (leaf # rest) acc
               = (acc @ concat (map dead_tids_of_page (take (Suc n) (leaf # rest))),
                  Some (zs_hikey ((leaf # rest) ! (Suc n - 1))))"
      using w n(1,3) by simp
    have 3: "Suc n = length (leaf # rest)
               \<or> mu (acc @ concat (map dead_tids_of_page (take (Suc n) (leaf # rest)))) > ?B"
      using n(4) by simp
    have 4: "\<forall>m. 0 < m \<and> m < Suc n \<longrightarrow>
                 mu (acc @ concat (map dead_tids_of_page (take m (leaf # rest)))) \<le> ?B"
    proof (intro allI impI)
      fix m assume m: "0 < m \<and> m < Suc n"
      show "mu (acc @ concat (map dead_tids_of_page (take m (leaf # rest)))) \<le> ?B"
      proof (cases "m = 1")
        case True
        with le show ?thesis by simp
      next
        case False
        with m obtain m' where m': "m = Suc m'" "0 < m'" "m' < n"
          by (cases m) auto
        with n(5) show ?thesis by simp
      qed
    qed
    from 1 2 3 4 show ?thesis by blast
  qed
qed

lemma dead_tids_set:
  "set (dead_tids_of_page page)
     = {t. \<exists>item\<in>set (tiditems page). item_is_dead item \<and> item_covers item t}"
  by (auto simp: dead_tids_of_page_def item_covers_def)

lemma set_take_drop:
  "set (take n (drop s xs)) = {xs ! k | k. s \<le> k \<and> k < s + n \<and> k < length xs}"
proof (intro set_eqI iffI)
  fix x assume "x \<in> set (take n (drop s xs))"
  then obtain i where i: "i < length (take n (drop s xs))" "take n (drop s xs) ! i = x"
    by (auto simp: in_set_conv_nth)
  then have "s \<le> s + i \<and> s + i < s + n \<and> s + i < length xs \<and> xs ! (s + i) = x"
    by auto
  then show "x \<in> {xs ! k | k. s \<le> k \<and> k < s + n \<and> k < length xs}" by blast
next
  fix x assume "x \<in> {xs ! k | k. s \<le> k \<and> k < s + n \<and> k < length xs}"
  then obtain k where k: "s \<le> k" "k < s + n" "k < length xs" "x = xs ! k" by blast
  then have "k - s < length (take n (drop s xs))" "take n (drop s xs) ! (k - s) = x"
    by auto
  then show "x \<in> set (take n (drop s xs))" by (metis nth_mem)
qed

text \<open>
  C9.  In a well-formed tree with leaves \<open>chain\<close>, \<open>zsbt_collect_dead_tids\<close> from a valid
  \<open>starttid\<close> returns.  It starts at the leaf \<open>chain ! s\<close> that contains \<open>starttid\<close> and scans
  \<open>n \<ge> 1\<close> leaves along the right-links.  The set holds exactly the TIDs covered by
  \<open>DEAD\<close> items of the scanned leaves; the walk stops after the rightmost leaf (high key
  \<open>MaxPlusOneZSTid\<close>) or as soon as the memory usage of the set exceeds
  \<open>maintenance_work_mem\<close> kilobytes, and not before; the end TID returned is the high key of
  the last leaf scanned.
\<close>

theorem C9_collect_dead_tids:
  assumes wf: "tree_wf P tree chain"
    and lo: "MinZSTid \<le> starttid" and hi: "starttid < MaxPlusOneZSTid P"
  shows "\<exists>s n result.
           s < length chain \<and> zsbt_descend tree starttid = Some (chain ! s)
         \<and> 0 < n \<and> s + n \<le> length chain
         \<and> zsbt_collect_dead_tids mu P tree starttid
             = Some (Inr (result, Some (zs_hikey (tree ! (chain ! (s + n - 1))))))
         \<and> result = concat (map (\<lambda>b. dead_tids_of_page (tree ! b)) (take n (drop s chain)))
         \<and> set result
             = {t. \<exists>k. s \<le> k \<and> k < s + n
                    \<and> (\<exists>item\<in>set (tiditems (tree ! (chain ! k))).
                          item_is_dead item \<and> item_covers item t)}
         \<and> (zs_hikey (tree ! (chain ! (s + n - 1))) = MaxPlusOneZSTid P
             \<or> mu result > maintenance_work_mem P * 1024)
         \<and> (\<forall>m. 0 < m \<and> m < n \<longrightarrow>
               zs_hikey (tree ! (chain ! (s + m - 1))) \<noteq> MaxPlusOneZSTid P
               \<and> mu (concat (map (\<lambda>b. dead_tids_of_page (tree ! b)) (take m (drop s chain))))
                   \<le> maintenance_work_mem P * 1024)"
proof -
  let ?B = "maintenance_work_mem P * 1024"
  let ?d = "\<lambda>b. dead_tids_of_page (tree ! b)"
  from wf_descend_total [OF wf lo hi]
  obtain b where b: "b < length tree" "zsbt_descend tree starttid = Some b" by blast
  from wf have "set chain = {0..<length tree}" by (simp add: tree_wf_def)
  with b(1) obtain s where s: "s < length chain" "chain ! s = b"
    by (metis atLeastLessThan_iff in_set_conv_nth zero_le)
  have run: "zsbt_collect_dead_tids mu P tree starttid
               = Some (Inr (collect_walk mu P (map ((!) tree) (drop s chain)) []))"
    unfolding zsbt_collect_dead_tids_def
    by (rule collect_loop_from [OF wf s(1)]) (use b s in simp_all)
  let ?leaves = "map ((!) tree) (drop s chain)"
  have ne: "?leaves \<noteq> []" using s(1) by simp
  from collect_walk_prefix [OF ne, of mu P "[]"]
  obtain n where n0: "0 < n" "n \<le> length ?leaves"
    "collect_walk mu P ?leaves []
       = ([] @ concat (map dead_tids_of_page (take n ?leaves)),
          Some (zs_hikey (?leaves ! (n - 1))))"
    "n = length ?leaves \<or> mu ([] @ concat (map dead_tids_of_page (take n ?leaves))) > ?B"
    "\<forall>m. 0 < m \<and> m < n \<longrightarrow>
        mu ([] @ concat (map dead_tids_of_page (take m ?leaves))) \<le> ?B"
    by blast
  have n: "0 < n" "n \<le> length ?leaves"
    "collect_walk mu P ?leaves []
       = (concat (map dead_tids_of_page (take n ?leaves)), Some (zs_hikey (?leaves ! (n - 1))))"
    "n = length ?leaves \<or> mu (concat (map dead_tids_of_page (take n ?leaves))) > ?B"
    "\<forall>m. 0 < m \<and> m < n \<longrightarrow> mu (concat (map dead_tids_of_page (take m ?leaves))) \<le> ?B"
    using n0 by (simp_all only: append_Nil)
  have tk: "map dead_tids_of_page (take m ?leaves) = map ?d (take m (drop s chain))" for m
    by (simp add: take_map)
  define result where "result = concat (map ?d (take n (drop s chain)))"
  from n(2) s(1) have sn: "s + n \<le> length chain" by simp
  have lastleaf: "?leaves ! (n - 1) = tree ! (chain ! (s + n - 1))"
    using n(1,2) by (simp add: Nat.add_diff_assoc)
  have 1: "zsbt_collect_dead_tids mu P tree starttid
             = Some (Inr (result, Some (zs_hikey (tree ! (chain ! (s + n - 1))))))"
    using run n(3) lastleaf by (simp add: result_def tk)
  have idx: "s + n - 1 < length chain" using sn n(1) by simp
  have 2: "zs_hikey (tree ! (chain ! (s + n - 1))) = MaxPlusOneZSTid P \<or> mu result > ?B"
  proof (cases "n = length ?leaves")
    case True
    then have "Suc (s + n - 1) = length chain" using s(1) n(1) by simp
    with wf_chain_facts(4) [OF wf idx] show ?thesis by simp
  next
    case False
    with n(4) show ?thesis by (simp add: result_def tk)
  qed
  have 3: "\<forall>m. 0 < m \<and> m < n \<longrightarrow>
               zs_hikey (tree ! (chain ! (s + m - 1))) \<noteq> MaxPlusOneZSTid P
               \<and> mu (concat (map ?d (take m (drop s chain)))) \<le> ?B"
  proof (intro allI impI)
    fix m assume m: "0 < m \<and> m < n"
    with sn have "Suc (s + m - 1) < length chain" by simp
    moreover from this have "s + m - 1 < length chain" by simp
    ultimately have "zs_hikey (tree ! (chain ! (s + m - 1))) \<noteq> MaxPlusOneZSTid P"
      using wf_chain_facts(3) [OF wf, of "s + m - 1"] by simp
    moreover from n(5) m have "mu (concat (map ?d (take m (drop s chain)))) \<le> ?B"
      by (simp add: tk)
    ultimately show "zs_hikey (tree ! (chain ! (s + m - 1))) \<noteq> MaxPlusOneZSTid P
               \<and> mu (concat (map ?d (take m (drop s chain)))) \<le> ?B" by simp
  qed
  have 4: "set result
             = {t. \<exists>k. s \<le> k \<and> k < s + n
                    \<and> (\<exists>item\<in>set (tiditems (tree ! (chain ! k))).
                          item_is_dead item \<and> item_covers item t)}"
  proof (intro set_eqI iffI)
    fix t assume "t \<in> set result"
    then obtain c where c: "c \<in> set (take n (drop s chain))" "t \<in> set (?d c)"
      by (auto simp: result_def)
    from c(1) obtain k where k: "s \<le> k" "k < s + n" "c = chain ! k"
      by (auto simp: set_take_drop)
    with c(2) show "t \<in> {t. \<exists>k. s \<le> k \<and> k < s + n
                    \<and> (\<exists>item\<in>set (tiditems (tree ! (chain ! k))).
                          item_is_dead item \<and> item_covers item t)}"
      by (auto simp: dead_tids_set)
  next
    fix t assume "t \<in> {t. \<exists>k. s \<le> k \<and> k < s + n
                    \<and> (\<exists>item\<in>set (tiditems (tree ! (chain ! k))).
                          item_is_dead item \<and> item_covers item t)}"
    then obtain k where k: "s \<le> k" "k < s + n" "t \<in> set (?d (chain ! k))"
      by (auto simp: dead_tids_set)
    from k(1,2) sn have "chain ! k \<in> set (take n (drop s chain))"
      by (auto simp: set_take_drop)
    with k(3) show "t \<in> set result" by (auto simp: result_def)
  qed
  from s b(2) n(1) sn 1 2 3 4 show ?thesis
    by (intro exI [of _ s] exI [of _ n] exI [of _ result]) (simp add: result_def)
qed

lemma two_leaf_tree_wf: "tree_wf small_params two_leaf_tree [0, 1]"
  by (auto simp: tree_wf_def two_leaf_tree_def MinZSTid_def MaxPlusOne_small leaf_ok_def
      items_ordered_def items_within_def)

theorem C9_collect_dead_tids_witness:
  "(\<exists>s n. s < 2 \<and> 0 < n \<and> s + n \<le> 2
      \<and> zsbt_collect_dead_tids length small_params two_leaf_tree 1
           = Some (Inr (concat (map (\<lambda>b. dead_tids_of_page (two_leaf_tree ! b))
                                  (take n (drop s [0, 1]))),
                        Some (zs_hikey (two_leaf_tree ! ([0, 1] ! (s + n - 1)))))))
   \<and> zsbt_collect_dead_tids length small_params two_leaf_tree 1
       = Some (Inr ([1, 2, 3, 10], Some 1000))"
proof -
  have lo: "MinZSTid \<le> 1" by (simp add: MinZSTid_def)
  have hi: "1 < MaxPlusOneZSTid small_params" by (simp add: MaxPlusOne_small)
  from C9_collect_dead_tids [OF two_leaf_tree_wf lo hi, of length]
  obtain s n result where r: "s < length [0, 1::nat]" "0 < n" "s + n \<le> length [0, 1::nat]"
    "zsbt_collect_dead_tids length small_params two_leaf_tree 1
       = Some (Inr (result, Some (zs_hikey (two_leaf_tree ! ([0, 1] ! (s + n - 1))))))"
    "result = concat (map (\<lambda>b. dead_tids_of_page (two_leaf_tree ! b)) (take n (drop s [0, 1])))"
    by blast
  have a: "\<exists>s n. s < 2 \<and> 0 < n \<and> s + n \<le> 2
      \<and> zsbt_collect_dead_tids length small_params two_leaf_tree 1
           = Some (Inr (concat (map (\<lambda>b. dead_tids_of_page (two_leaf_tree ! b))
                                  (take n (drop s [0, 1]))),
                        Some (zs_hikey (two_leaf_tree ! ([0, 1] ! (s + n - 1))))))"
    using r by (intro exI [of _ s] exI [of _ n]) simp
  have e1: "[1..<4] = [1, 2, 3::nat]" by (simp add: upt_rec)
  have b: "zsbt_collect_dead_tids length small_params two_leaf_tree 1
       = Some (Inr ([1, 2, 3, 10], Some 1000))"
    unfolding zsbt_collect_dead_tids_def
    apply (subst collect_dead_loop.simps)
    apply (simp add: two_leaf_tree_def zsbt_descend_def item_is_dead_def ZSBT_TID_DEAD_def
        intset_add_member_def MaxPlusOne_small small_params_def numeral_3_eq_3)
    apply (subst collect_dead_loop.simps)
    apply (simp add: zsbt_page_is_expected_def item_is_dead_def ZSBT_TID_DEAD_def
        intset_add_member_def MaxPlusOneZSTid_def)
    done
  from a b show ?thesis by blast
qed







lemma extract_skip_nat:
  "extract_skip nexttid t (int k) =
     (if t < nexttid then (if nexttid - t \<le> k then (nexttid, int k - int (nexttid - t))
                           else (t + k, 0))
      else (t, int k))"
proof (induction k arbitrary: t)
  case 0
  then show ?case by (subst extract_skip.simps) simp
next
  case (Suc k)
  show ?case
  proof (cases "t < nexttid")
    case True
    have "extract_skip nexttid t (int (Suc k)) = extract_skip nexttid (t + 1) (int k)"
      using True by (subst extract_skip.simps) simp
    also have "\<dots> = (if t + 1 < nexttid
                     then (if nexttid - (t + 1) \<le> k
                           then (nexttid, int k - int (nexttid - (t + 1)))
                           else (t + 1 + k, 0))
                     else (t + 1, int k))"
      by (rule Suc.IH)
    finally show ?thesis using True by (auto simp: not_less)
  next
    case False
    then show ?thesis by (subst extract_skip.simps) simp
  qed
qed

lemma extract_array_facts:
  assumes n: "0 < t_nelements item"
    and nx: "scan_nexttid scan < t_tid item + t_nelements item"
    and e1: "t_tid item < scan_endtid scan" and e2: "scan_nexttid scan < scan_endtid scan"
  defines "scan1 \<equiv> zsbt_tid_scan_extract_array scan item"
  shows "scan_nexttid scan1 = max (scan_nexttid scan) (t_tid item)"
    and "scan_array_next_datum scan1 = 0"
    and "0 < scan_array_num_elements scan1"
    and "int (scan_nexttid scan1) + scan_array_num_elements scan1
           \<le> int (t_tid item + t_nelements item)"
    and "int (scan_nexttid scan1) + scan_array_num_elements scan1 \<le> int (scan_endtid scan)"
    and "scan_endtid scan1 = scan_endtid scan" and "scan_lastbuf scan1 = scan_lastbuf scan"
    and "scan_active scan1 = scan_active scan"
proof -
  have sk: "extract_skip (scan_nexttid scan) (t_tid item) (int (t_nelements item))
      = (max (scan_nexttid scan) (t_tid item),
         int (t_tid item + t_nelements item) - int (max (scan_nexttid scan) (t_tid item)))"
    using nx by (auto simp: extract_skip_nat max_def)
  show "scan_nexttid scan1 = max (scan_nexttid scan) (t_tid item)"
    and "scan_array_next_datum scan1 = 0"
    and "0 < scan_array_num_elements scan1"
    and "int (scan_nexttid scan1) + scan_array_num_elements scan1
           \<le> int (t_tid item + t_nelements item)"
    and "int (scan_nexttid scan1) + scan_array_num_elements scan1 \<le> int (scan_endtid scan)"
    and "scan_endtid scan1 = scan_endtid scan" and "scan_lastbuf scan1 = scan_lastbuf scan"
    and "scan_active scan1 = scan_active scan"
    using n nx e1 e2
    by (auto simp: scan1_def zsbt_tid_scan_extract_array_def sk Let_def max_def)
qed

lemma scan_page_items_post:
  assumes b: "b < length tree"
    and sub: "set rest \<subseteq> set (tiditems (tree ! b))"
    and ord: "items_ordered rest"
    and within: "\<forall>it\<in>set rest. t_tid it + t_nelements it \<le> zs_hikey (tree ! b)"
    and J: "scan_nexttid scan < scan_endtid scan \<or> (\<forall>it\<in>set rest. scan_nexttid scan \<le> t_tid it)"
    and lb: "scan_lastbuf scan = Some b"
    and lo: "lo \<le> scan_nexttid scan" "lo \<le> scan_endtid scan"
    and hi: "scan_nexttid scan \<le> zs_hikey (tree ! b)"
    and empty: "\<not> scan_array_next_datum scan < scan_array_num_elements scan"
  shows "case scan_page_items vis cf rest scan of
           Inl e \<Rightarrow> True
         | Inr scan1 \<Rightarrow>
             scan_endtid scan1 = scan_endtid scan \<and> scan_lastbuf scan1 = Some b
             \<and> scan_active scan1 = scan_active scan
             \<and> lo \<le> scan_nexttid scan1 \<and> scan_nexttid scan1 \<le> zs_hikey (tree ! b)
             \<and> array_ok vis tree scan1"
  using sub ord within J lb lo hi empty
proof (induction rest arbitrary: scan)
  case Nil
  then show ?case by (simp add: array_ok_def)
next
  case (Cons item rest)
  have n: "0 < t_nelements item" and ord': "items_ordered rest"
    and after: "\<forall>it\<in>set rest. t_tid item + t_nelements item \<le> t_tid it"
    using Cons.prems(2) by (auto simp: items_ordered_def)
  have mem: "item \<in> set (tiditems (tree ! b))" and sub': "set rest \<subseteq> set (tiditems (tree ! b))"
    using Cons.prems(1) by auto
  have up: "t_tid item + t_nelements item \<le> zs_hikey (tree ! b)"
    and within': "\<forall>it\<in>set rest. t_tid it + t_nelements it \<le> zs_hikey (tree ! b)"
    using Cons.prems(3) by auto
  have last: "zsbt_tid_item_lasttid item + 1 = t_tid item + t_nelements item"
    using n by (simp add: zsbt_tid_item_lasttid_def)
  note IH = Cons.IH [OF sub' ord' within']
  show ?case
  proof (cases "scan_nexttid scan > zsbt_tid_item_lasttid item")
    case True
    have "scan_nexttid scan < scan_endtid scan \<or> (\<forall>it\<in>set rest. scan_nexttid scan \<le> t_tid it)"
      using Cons.prems(4) by auto
    from IH [OF this Cons.prems(5-9)] True show ?thesis by simp
  next
    case cur: False
    then have nx: "scan_nexttid scan < t_tid item + t_nelements item"
      using last by linarith
    show ?thesis
    proof (cases "t_tid item \<ge> scan_endtid scan")
      case True
      then have "scan_endtid scan \<le> zs_hikey (tree ! b)" using up n by linarith
      then show ?thesis
        using cur True Cons.prems(5-9) by (simp add: array_ok_def)
    next
      case inrange: False
      then have e1: "t_tid item < scan_endtid scan" by simp
      have e2: "scan_nexttid scan < scan_endtid scan"
        using Cons.prems(4) e1 by auto
      define verdict where "verdict = (if (t_flags item AND ZSBT_TID_DEAD) \<noteq> 0
                          then (False, InvalidTransactionId)
                          else vis (t_undo_ptr item))"
      show ?thesis
      proof (cases "fst verdict")
        case False
        show ?thesis
        proof (cases "scan_serializable scan \<and> TransactionIdIsValid (snd verdict)
                        \<and> cf (snd verdict)")
          case True
          then show ?thesis
            using cur inrange False by (simp add: Let_def verdict_def [symmetric])
        next
          case noc: False
          let ?scan' = "scan \<lparr> scan_nexttid := zsbt_tid_item_lasttid item + 1 \<rparr>"
          have "case scan_page_items vis cf rest ?scan' of
                  Inl e \<Rightarrow> True
                | Inr scan1 \<Rightarrow>
                    scan_endtid scan1 = scan_endtid ?scan' \<and> scan_lastbuf scan1 = Some b
                    \<and> scan_active scan1 = scan_active ?scan'
                    \<and> lo \<le> scan_nexttid scan1 \<and> scan_nexttid scan1 \<le> zs_hikey (tree ! b)
                    \<and> array_ok vis tree scan1"
          proof (rule IH)
            show "scan_nexttid ?scan' < scan_endtid ?scan'
                    \<or> (\<forall>it\<in>set rest. scan_nexttid ?scan' \<le> t_tid it)"
              using after last by simp
            show "scan_lastbuf ?scan' = Some b" using Cons.prems(5) by simp
            show "lo \<le> scan_nexttid ?scan'" using Cons.prems(6) nx last by simp
            show "lo \<le> scan_endtid ?scan'" using Cons.prems(7) by simp
            show "scan_nexttid ?scan' \<le> zs_hikey (tree ! b)" using up last by simp
            show "\<not> scan_array_next_datum ?scan' < scan_array_num_elements ?scan'"
              using Cons.prems(9) by simp
          qed
          moreover have "scan_page_items vis cf (item # rest) scan
              = scan_page_items vis cf rest ?scan'"
            using cur inrange False noc by (auto simp add: Let_def verdict_def [symmetric])
          ultimately show ?thesis by (simp split: sum.splits)
        qed
      next
        case True
        then have nd: "\<not> item_is_dead item" and v: "fst (vis (t_undo_ptr item))"
          by (auto simp: verdict_def item_is_dead_def split: if_splits)
        define scan1 where "scan1 = zsbt_tid_scan_extract_array scan item"
        note f = extract_array_facts [OF n nx e1 e2, folded scan1_def]
        have res: "scan_page_items vis cf (item # rest) scan = Inr scan1"
          using cur inrange True f(2,3)
          by (simp add: Let_def verdict_def [symmetric] scan1_def [symmetric])
        have "array_ok vis tree scan1"
          unfolding array_ok_def
        proof (intro impI exI [of _ b] exI [of _ item] conjI)
          show "scan_lastbuf scan1 = Some b" using f(7) Cons.prems(5) by simp
          show "b < length tree" by (rule b)
          show "item \<in> set (tiditems (tree ! b))" by (rule mem)
          show "\<not> item_is_dead item" by (rule nd)
          show "fst (vis (t_undo_ptr item))" by (rule v)
          show "t_tid item \<le> scan_nexttid scan1" using f(1) by simp
          show "int (scan_nexttid scan1)
                  + (scan_array_num_elements scan1 - scan_array_next_datum scan1)
                 \<le> int (t_tid item + t_nelements item)" using f(2,4) by simp
          show "int (scan_nexttid scan1)
                  + (scan_array_num_elements scan1 - scan_array_next_datum scan1)
                 \<le> int (scan_endtid scan1)" using f(2,5,6) by simp
        qed
        moreover have "scan_nexttid scan1 \<le> zs_hikey (tree ! b)"
          using f(1) Cons.prems(8) up n by (simp add: max_def)
        moreover have "lo \<le> scan_nexttid scan1" using f(1) Cons.prems(6) by simp
        ultimately show ?thesis
          using res f(6,7,8) Cons.prems(5) by simp
      qed
    qed
  qed
qed

lemma chain_last_next:
  "chain_linked tree chain \<Longrightarrow> Suc j = length chain \<Longrightarrow> zs_next (tree ! (chain ! j)) = None"
proof (induction tree chain arbitrary: j rule: chain_linked.induct)
  case (3 tree b c bs)
  then show ?case by (cases j) auto
qed auto

lemma wf_next_facts:
  assumes wf: "tree_wf P tree chain" and b: "b < length tree"
    and nx: "zs_next (tree ! b) = Some nb"
  shows "nb < length tree" and "nb \<noteq> b" and "zs_lokey (tree ! nb) = zs_hikey (tree ! b)"
proof -
  have "b \<in> set chain" using wf b by (simp add: tree_wf_def)
  then obtain j where j: "j < length chain" "chain ! j = b"
    by (auto simp: in_set_conv_nth)
  have cl: "chain_linked tree chain" and d: "distinct chain"
    using wf by (simp_all add: tree_wf_def)
  have sj: "Suc j < length chain"
  proof (rule ccontr)
    assume "\<not> Suc j < length chain"
    then have "Suc j = length chain" using j(1) by simp
    from chain_last_next [OF cl this] nx j(2) show False by simp
  qed
  from wf_chain_facts(3) [OF wf j(1)] sj j(2) nx
  have e: "nb = chain ! Suc j" "zs_hikey (tree ! b) = zs_lokey (tree ! nb)" by auto
  show "nb < length tree" using wf_chain_facts(1) [OF wf sj] e(1) by simp
  show "nb \<noteq> b" using d sj j e(1) by (auto simp: distinct_conv_nth)
  show "zs_lokey (tree ! nb) = zs_hikey (tree ! b)" using e(2) by simp
qed

lemma scan_post_mono:
  "scan_post vis tree n' e res \<Longrightarrow> n \<le> n' \<Longrightarrow> scan_post vis tree n e res"
  by (auto simp: scan_post_def split: sum.splits)

lemma tid_visibleI:
  assumes "b < length tree" "item \<in> set (tiditems (tree ! b))" "item_covers item tid"
    "\<not> item_is_dead item" "fst (vis (t_undo_ptr item))"
  shows "tid_visible vis tree tid"
  unfolding tid_visible_def list_ex_iff
  using assms nth_mem [of b tree] by blast

lemma scan_loop_immediate:
  assumes wf: "tree_wf P tree chain" and inv: "scan_inv vis tree scan"
    and now: "\<not> scan_nexttid scan < scan_endtid scan
              \<or> scan_array_next_datum scan < scan_array_num_elements scan"
    and n: "n \<le> scan_nexttid scan"
  shows "\<exists>res. scan_next_loop vis cf tree scan = Some res
               \<and> scan_post vis tree n (scan_endtid scan) res"
proof (cases "scan_nexttid scan < scan_endtid scan")
  case False
  then have "scan_next_loop vis cf tree scan = Some (Inr (InvalidZSTid, scan))"
    by (subst scan_next_loop.simps) simp
  then show ?thesis using inv n False by (simp add: scan_post_def)
next
  case True
  with now have ne: "scan_array_next_datum scan < scan_array_num_elements scan" by simp
  let ?scan' = "scan \<lparr> scan_array_next_datum := scan_array_next_datum scan + 1,
                        scan_nexttid := scan_nexttid scan + 1 \<rparr>"
  have r: "scan_next_loop vis cf tree scan = Some (Inr (scan_nexttid scan, ?scan'))"
    using True ne by (subst scan_next_loop.simps) simp
  from inv ne obtain b item where a: "scan_lastbuf scan = Some b" "b < length tree"
    "item \<in> set (tiditems (tree ! b))" "\<not> item_is_dead item" "fst (vis (t_undo_ptr item))"
    "t_tid item \<le> scan_nexttid scan"
    "int (scan_nexttid scan) + (scan_array_num_elements scan - scan_array_next_datum scan)
       \<le> int (t_tid item + t_nelements item)"
    "int (scan_nexttid scan) + (scan_array_num_elements scan - scan_array_next_datum scan)
       \<le> int (scan_endtid scan)"
    unfolding scan_inv_def array_ok_def by blast
  have lok: "leaf_ok (tree ! b)" by (rule wf_leaf_ok [OF wf a(2)])
  then have up: "t_tid item + t_nelements item \<le> zs_hikey (tree ! b)"
    using a(3) by (auto simp: leaf_ok_def items_within_def list_all_iff)
  have lo: "zs_lokey (tree ! b) \<le> scan_nexttid scan"
    using inv a(1) by (simp add: scan_inv_def)
  have cov: "item_covers item (scan_nexttid scan)"
    using a(6,7) ne by (simp add: item_covers_def)
  have "array_ok vis tree ?scan'"
    unfolding array_ok_def
  proof (intro impI exI [of _ b] exI [of _ item] conjI)
    show "scan_lastbuf ?scan' = Some b" using a(1) by simp
    show "t_tid item \<le> scan_nexttid ?scan'" using a(6) by simp
    show "int (scan_nexttid ?scan')
            + (scan_array_num_elements ?scan' - scan_array_next_datum ?scan')
           \<le> int (t_tid item + t_nelements item)" using a(7) by simp
    show "int (scan_nexttid ?scan')
            + (scan_array_num_elements ?scan' - scan_array_next_datum ?scan')
           \<le> int (scan_endtid ?scan')" using a(8) by simp
  qed (use a in auto)
  moreover have "scan_nexttid scan + 1 \<le> zs_hikey (tree ! b)"
    using a(7) ne up by linarith
  ultimately have "scan_inv vis tree ?scan'"
    using a(1,2) lo by (simp add: scan_inv_def)
  moreover have "tid_visible vis tree (scan_nexttid scan)"
    using a(2,3) cov a(4,5) by (rule tid_visibleI [where vis = vis])
  ultimately show ?thesis
    using r n True by (simp add: scan_post_def)
qed

lemma scan_loop_on_page:
  assumes wf: "tree_wf P tree chain" and b: "b < length tree"
    and cov: "page_covers (tree ! b) (scan_nexttid scan)"
    and lt: "scan_nexttid scan < scan_endtid scan"
    and empty: "\<not> scan_array_next_datum scan < scan_array_num_elements scan"
    and loc: "scan_locate_page tree scan = Inr (OnPage b)"
    and IH: "\<And>scan'. scan_endtid scan' - scan_nexttid scan'
                       < scan_endtid scan - scan_nexttid scan \<Longrightarrow>
               scan_inv vis tree scan' \<Longrightarrow>
               \<exists>res. scan_next_loop vis cf tree scan' = Some res
                     \<and> scan_post vis tree (scan_nexttid scan') (scan_endtid scan') res"
  shows "\<exists>res. scan_next_loop vis cf tree scan = Some res
               \<and> scan_post vis tree (scan_nexttid scan) (scan_endtid scan) res"
proof -
  let ?page = "tree ! b"
  let ?scan0 = "scan \<lparr> scan_lastbuf := Some b \<rparr>"
  have lok: "leaf_ok ?page" by (rule wf_leaf_ok [OF wf b])
  have unf: "scan_next_loop vis cf tree scan =
      (case scan_page_items vis cf (tiditems ?page) ?scan0 of
         Inl e \<Rightarrow> Some (Inl e)
       | Inr scan1 \<Rightarrow>
           if scan_array_next_datum scan1 < scan_array_num_elements scan1
           then scan_next_loop vis cf tree scan1
           else if zs_next ?page = Some b
           then Some (Inl NextPointerPointsToItself)
           else if zs_next ?page = None
                   \<or> scan_nexttid (scan_past_page ?page scan1)
                        \<ge> scan_endtid (scan_past_page ?page scan1)
           then Some (Inr (InvalidZSTid, scan_deactivate (scan_past_page ?page scan1)))
           else scan_next_loop vis cf tree
                  (scan_past_page ?page scan1 \<lparr> scan_lastbuf := zs_next ?page \<rparr>))"
    using lt empty loc by (subst scan_next_loop.simps) simp
  have post: "case scan_page_items vis cf (tiditems ?page) ?scan0 of
           Inl e \<Rightarrow> True
         | Inr scan1 \<Rightarrow>
             scan_endtid scan1 = scan_endtid ?scan0 \<and> scan_lastbuf scan1 = Some b
             \<and> scan_active scan1 = scan_active ?scan0
             \<and> scan_nexttid scan \<le> scan_nexttid scan1
             \<and> scan_nexttid scan1 \<le> zs_hikey ?page
             \<and> array_ok vis tree scan1"
  proof (rule scan_page_items_post [OF b])
    show "items_ordered (tiditems ?page)" using lok by (simp add: leaf_ok_def)
    show "\<forall>it\<in>set (tiditems ?page). t_tid it + t_nelements it \<le> zs_hikey ?page"
      using lok by (auto simp: leaf_ok_def items_within_def list_all_iff)
    show "scan_nexttid ?scan0 < scan_endtid ?scan0
            \<or> (\<forall>it\<in>set (tiditems ?page). scan_nexttid ?scan0 \<le> t_tid it)"
      using lt by simp
    show "scan_nexttid ?scan0 \<le> zs_hikey ?page" using cov by (simp add: page_covers_def)
    show "\<not> scan_array_next_datum ?scan0 < scan_array_num_elements ?scan0"
      using empty by simp
  qed (use lt in simp_all)
  show ?thesis
  proof (cases "scan_page_items vis cf (tiditems ?page) ?scan0")
    case (Inl e)
    then show ?thesis using unf by (simp add: scan_post_def)
  next
    case (Inr scan1)
    with post have s1: "scan_endtid scan1 = scan_endtid scan" "scan_lastbuf scan1 = Some b"
      "scan_nexttid scan \<le> scan_nexttid scan1" "scan_nexttid scan1 \<le> zs_hikey ?page"
      "array_ok vis tree scan1"
      by simp_all
    have inv1: "scan_inv vis tree scan1"
      using s1 b cov by (simp add: scan_inv_def page_covers_def)
    show ?thesis
    proof (cases "scan_array_next_datum scan1 < scan_array_num_elements scan1")
      case True
      from scan_loop_immediate [OF wf inv1 disjI2 [OF True] s1(3), of cf]
      show ?thesis using unf Inr True s1(1) by simp
    next
      case none: False
      let ?scan2 = "scan_past_page ?page scan1"
      have s2: "scan_nexttid ?scan2 = zs_hikey ?page" "scan_endtid ?scan2 = scan_endtid scan"
        "scan_array_next_datum ?scan2 = scan_array_next_datum scan1"
        "scan_array_num_elements ?scan2 = scan_array_num_elements scan1"
        using s1(1,4) by (auto simp: scan_past_page_def)
      have gt: "scan_nexttid scan < zs_hikey ?page" using cov by (simp add: page_covers_def)
      show ?thesis
      proof (cases "zs_next ?page")
        case None
        have "scan_inv vis tree (scan_deactivate ?scan2)"
          by (simp add: scan_inv_def scan_deactivate_def array_ok_def)
        then show ?thesis
          using unf Inr none None s2 gt
          by (simp add: scan_post_def scan_deactivate_def)
      next
        case (Some nb)
        note nf = wf_next_facts [OF wf b Some]
        show ?thesis
        proof (cases "scan_nexttid ?scan2 \<ge> scan_endtid ?scan2")
          case True
          have "scan_inv vis tree (scan_deactivate ?scan2)"
            by (simp add: scan_inv_def scan_deactivate_def array_ok_def)
          then show ?thesis
            using unf Inr none Some nf(2) True s2 gt
            by (simp add: scan_post_def scan_deactivate_def)
        next
          case False
          let ?scan3 = "?scan2 \<lparr> scan_lastbuf := Some nb \<rparr>"
          have lokn: "leaf_ok (tree ! nb)" by (rule wf_leaf_ok [OF wf nf(1)])
          have inv3: "scan_inv vis tree ?scan3"
            using nf(1,3) s2 none lokn
            by (simp add: scan_inv_def array_ok_def leaf_ok_def)
          have "scan_endtid ?scan3 - scan_nexttid ?scan3
                  < scan_endtid scan - scan_nexttid scan"
            using s2 gt lt False by simp
          from IH [OF this inv3] obtain res where
            res: "scan_next_loop vis cf tree ?scan3 = Some res"
              "scan_post vis tree (scan_nexttid ?scan3) (scan_endtid ?scan3) res"
            by blast
          have "scan_post vis tree (scan_nexttid scan) (scan_endtid scan) res"
            using scan_post_mono [OF res(2), of "scan_nexttid scan"] s2 gt by simp
          then show ?thesis
            using unf Inr none Some nf(2) False res(1) by simp
        qed
      qed
    qed
  qed
qed

lemma descend_covers:
  assumes "zsbt_descend tree tid = Some b"
  shows "b < length tree \<and> page_covers (tree ! b) tid"
  using find_leaf_Some [of tree tid 0 b] assms by (simp add: zsbt_descend_def)

lemma scan_locate_on_page:
  assumes "scan_locate_page tree scan = Inr (OnPage b)"
  shows "b < length tree \<and> page_covers (tree ! b) (scan_nexttid scan)"
  using assms descend_covers [of tree "scan_nexttid scan" b]
  by (auto simp: scan_locate_page_def scan_descend_def zsbt_page_is_expected_def
        page_covers_def split: option.splits if_splits)

lemma scan_locate_follow_right:
  assumes wf: "tree_wf P tree chain" and inv: "scan_inv vis tree scan"
    and loc: "scan_locate_page tree scan = Inr (FollowRight nb)"
  shows "nb < length tree" and "page_covers (tree ! nb) (scan_nexttid scan)"
    and "scan_locate_page tree (scan \<lparr> scan_lastbuf := Some nb \<rparr>) = Inr (OnPage nb)"
proof -
  from loc obtain b where b: "scan_lastbuf scan = Some b" "b < length tree"
    "\<not> zsbt_page_is_expected tree (scan_nexttid scan) b" "zs_next (tree ! b) = Some nb"
    by (auto simp: scan_locate_page_def scan_descend_def split: option.splits if_splits)
  have "zs_lokey (tree ! b) \<le> scan_nexttid scan" "scan_nexttid scan \<le> zs_hikey (tree ! b)"
    using inv b(1) by (simp_all add: scan_inv_def)
  with b(2,3) have eq: "scan_nexttid scan = zs_hikey (tree ! b)"
    by (simp add: zsbt_page_is_expected_def)
  note nf = wf_next_facts [OF wf b(2,4)]
  have "leaf_ok (tree ! nb)" by (rule wf_leaf_ok [OF wf nf(1)])
  then show c: "page_covers (tree ! nb) (scan_nexttid scan)"
    using nf(3) eq by (simp add: page_covers_def leaf_ok_def)
  show "nb < length tree" by (rule nf(1))
  show "scan_locate_page tree (scan \<lparr> scan_lastbuf := Some nb \<rparr>) = Inr (OnPage nb)"
    using c nf(1) by (simp add: scan_locate_page_def zsbt_page_is_expected_def page_covers_def)
qed

lemma scan_next_loop_total:
  assumes wf: "tree_wf P tree chain"
  shows "scan_inv vis tree scan \<Longrightarrow>
         \<exists>res. scan_next_loop vis cf tree scan = Some res
               \<and> scan_post vis tree (scan_nexttid scan) (scan_endtid scan) res"
proof (induction "scan_endtid scan - scan_nexttid scan" arbitrary: scan rule: less_induct)
  case less
  note inv = less.prems
  show ?case
  proof (cases "\<not> scan_nexttid scan < scan_endtid scan
              \<or> scan_array_next_datum scan < scan_array_num_elements scan")
    case True
    from scan_loop_immediate [OF wf inv True order_refl] show ?thesis .
  next
    case False
    then have lt: "scan_nexttid scan < scan_endtid scan"
      and empty: "\<not> scan_array_next_datum scan < scan_array_num_elements scan"
      by simp_all
    show ?thesis
    proof (cases "scan_locate_page tree scan")
      case (Inl e)
      then have "scan_next_loop vis cf tree scan = Some (Inl e)"
        using lt empty by (subst scan_next_loop.simps) simp
      then show ?thesis by (simp add: scan_post_def)
    next
      case (Inr where_to)
      show ?thesis
      proof (cases where_to)
        case (OnPage b)
        with Inr have loc: "scan_locate_page tree scan = Inr (OnPage b)" by simp
        from scan_locate_on_page [OF loc]
        have b: "b < length tree" and cov: "page_covers (tree ! b) (scan_nexttid scan)"
          by simp_all
        show ?thesis
          by (rule scan_loop_on_page [OF wf b cov lt empty loc]) (rule less.hyps)
      next
        case (FollowRight nb)
        with Inr have loc: "scan_locate_page tree scan = Inr (FollowRight nb)" by simp
        let ?scan' = "scan \<lparr> scan_lastbuf := Some nb \<rparr>"
        note fr = scan_locate_follow_right [OF wf inv loc]
        have step: "scan_next_loop vis cf tree scan = scan_next_loop vis cf tree ?scan'"
          using lt empty loc by (subst scan_next_loop.simps) simp
        have "\<exists>res. scan_next_loop vis cf tree ?scan' = Some res
               \<and> scan_post vis tree (scan_nexttid ?scan') (scan_endtid ?scan') res"
        proof (rule scan_loop_on_page [OF wf fr(1) _ _ _ fr(3)])
          show "page_covers (tree ! nb) (scan_nexttid ?scan')" using fr(2) by simp
          show "scan_nexttid ?scan' < scan_endtid ?scan'" using lt by simp
          show "\<not> scan_array_next_datum ?scan' < scan_array_num_elements ?scan'"
            using empty by simp
          fix scan''
          assume "scan_endtid scan'' - scan_nexttid scan''
                    < scan_endtid ?scan' - scan_nexttid ?scan'"
            and "scan_inv vis tree scan''"
          then show "\<exists>res. scan_next_loop vis cf tree scan'' = Some res
               \<and> scan_post vis tree (scan_nexttid scan'') (scan_endtid scan'') res"
            using less.hyps [of scan''] by simp
        qed
        then show ?thesis using step by simp
      qed
    qed
  qed
qed

lemma begin_scan_inv:
  "scan_inv vis tree (zsbt_tid_begin_scan tree starttid endtid scan)"
  using descend_covers [of tree starttid]
  by (auto simp: zsbt_tid_begin_scan_def scan_inv_def array_ok_def Let_def page_covers_def
        split: option.splits)

lemma begin_scan_fields:
  "scan_nexttid (zsbt_tid_begin_scan tree starttid endtid scan) = starttid"
  "scan_endtid (zsbt_tid_begin_scan tree starttid endtid scan) = endtid"
  by (simp_all add: zsbt_tid_begin_scan_def Let_def split: option.splits)

lemma scan_next_total:
  assumes wf: "tree_wf P tree chain" and inv: "scan_inv vis tree scan"
  shows "\<exists>res. zsbt_tid_scan_next vis cf tree scan = Some res
               \<and> scan_post vis tree (scan_nexttid scan) (scan_endtid scan) res"
proof (cases "scan_active scan")
  case True
  then show ?thesis
    using scan_next_loop_total [OF wf inv] by (simp add: zsbt_tid_scan_next_def)
next
  case False
  then show ?thesis using inv by (simp add: zsbt_tid_scan_next_def scan_post_def)
qed

lemma pages_cover_first: "pages_cover lo hi ps \<Longrightarrow> zs_lokey (ps ! 0) = lo"
  by (induction lo hi ps rule: pages_cover.induct) simp_all

lemma wf_lokey_ge:
  assumes wf: "tree_wf P tree chain" and b: "b < length tree"
  shows "MinZSTid \<le> zs_lokey (tree ! b)"
proof -
  from wf have s: "set chain = {0..<length tree}"
    and cov: "pages_cover MinZSTid (MaxPlusOneZSTid P) (map ((!) tree) chain)"
    and ok: "list_all leaf_ok tree"
    by (simp_all add: tree_wf_def)
  from b s obtain i where i: "i < length chain" "chain ! i = b"
    by (metis atLeastLessThan_iff in_set_conv_nth zero_le)
  have okc: "list_all leaf_ok (map ((!) tree) chain)"
    using ok s by (auto simp: list_all_iff)
  note rg = leaf_ok_range [OF okc]
  show ?thesis
  proof (cases i)
    case 0
    with pages_cover_first [OF cov] i show ?thesis by simp
  next
    case (Suc k)
    have "zs_hikey (map ((!) tree) chain ! 0) \<le> zs_lokey (map ((!) tree) chain ! i)"
      by (rule pages_cover_ordered [OF cov rg]) (use Suc i in simp_all)
    moreover have "zs_lokey (map ((!) tree) chain ! 0) < zs_hikey (map ((!) tree) chain ! 0)"
    proof -
      have "0 < length (map ((!) tree) chain)" using i(1) by (cases chain) simp_all
      with rg show ?thesis unfolding list_all_length by blast
    qed
    ultimately show ?thesis using pages_cover_first [OF cov] i by simp
  qed
qed

lemma tid_visible_valid:
  assumes wf: "tree_wf P tree chain" and v: "tid_visible vis tree tid"
  shows "tid \<noteq> InvalidZSTid"
proof -
  from v obtain page item where p: "page \<in> set tree" "item \<in> set (tiditems page)"
    "item_covers item tid"
    by (auto simp: tid_visible_def list_ex_iff)
  then obtain b where b: "b < length tree" "tree ! b = page"
    by (auto simp: in_set_conv_nth)
  have "leaf_ok page" using wf_leaf_ok [OF wf b(1)] b(2) by simp
  then have "zs_lokey page \<le> tid"
    using p(2,3) by (auto simp: leaf_ok_def items_within_def list_all_iff item_covers_def)
  with wf_lokey_ge [OF wf b(1)] b(2) show ?thesis
    by (simp add: MinZSTid_def InvalidZSTid_def)
qed

lemma scan_next_finished:
  assumes "\<not> scan_active scan \<or> scan_endtid scan \<le> scan_nexttid scan"
  shows "zsbt_tid_scan_next vis cf tree scan = Some (Inr (InvalidZSTid, scan))"
proof (cases "scan_active scan")
  case True
  with assms have "\<not> scan_nexttid scan < scan_endtid scan" by simp
  then have "scan_next_loop vis cf tree scan = Some (Inr (InvalidZSTid, scan))"
    by (subst scan_next_loop.simps) simp
  then show ?thesis using True by (simp add: zsbt_tid_scan_next_def)
next
  case False
  then show ?thesis by (simp add: zsbt_tid_scan_next_def)
qed

lemma scan_next_calls_finished:
  assumes "\<not> scan_active scan \<or> scan_endtid scan \<le> scan_nexttid scan"
  shows "scan_next_calls n vis cf tree scan = Some (replicate n InvalidZSTid)"
  by (induction n) (simp_all add: scan_next_finished [OF assms])

lemma scan_next_calls_ascending:
  assumes wf: "tree_wf P tree chain"
  shows "scan_inv vis tree scan \<Longrightarrow>
         \<exists>valid k. scan_next_calls n vis cf tree scan = Some (valid @ replicate k InvalidZSTid)
           \<and> sorted_wrt (<) valid
           \<and> (\<forall>tid\<in>set valid. tid \<noteq> InvalidZSTid \<and> scan_nexttid scan \<le> tid
                  \<and> tid < scan_endtid scan \<and> tid_visible vis tree tid)"
proof (induction n arbitrary: scan)
  case 0
  have "scan_next_calls 0 vis cf tree scan = Some ([] @ replicate 0 InvalidZSTid)" by simp
  then show ?case by (intro exI [of _ "[]"] exI [of _ 0]) simp
next
  case (Suc n)
  from scan_next_total [OF wf Suc.prems, of cf] obtain res where
    res: "zsbt_tid_scan_next vis cf tree scan = Some res"
      "scan_post vis tree (scan_nexttid scan) (scan_endtid scan) res" by blast
  show ?case
  proof (cases res)
    case (Inl e)
    with res(1) have "scan_next_calls (Suc n) vis cf tree scan
        = Some ([] @ replicate 0 InvalidZSTid)" by simp
    then show ?thesis by (intro exI [of _ "[]"] exI [of _ 0]) simp
  next
    case (Inr pair)
    obtain tid scan' where pair: "pair = (tid, scan')" by (cases pair)
    from res(2) Inr pair have inv': "scan_inv vis tree scan'"
      and e': "scan_endtid scan' = scan_endtid scan"
      and alt: "(tid = InvalidZSTid \<and> (\<not> scan_active scan' \<or> scan_endtid scan \<le> scan_nexttid scan'))
              \<or> (scan_nexttid scan \<le> tid \<and> tid < scan_endtid scan
                  \<and> scan_nexttid scan' = tid + 1 \<and> tid_visible vis tree tid)"
      by (simp_all add: scan_post_def)
    from alt show ?thesis
    proof
      assume fin: "tid = InvalidZSTid
                     \<and> (\<not> scan_active scan' \<or> scan_endtid scan \<le> scan_nexttid scan')"
      then have "\<not> scan_active scan' \<or> scan_endtid scan' \<le> scan_nexttid scan'"
        using e' by simp
      from scan_next_calls_finished [OF this, of n vis cf tree] res(1) Inr pair fin
      have "scan_next_calls (Suc n) vis cf tree scan
              = Some ([] @ replicate (Suc n) InvalidZSTid)" by simp
      then show ?thesis by (intro exI [of _ "[]"] exI [of _ "Suc n"]) simp
    next
      assume ok: "scan_nexttid scan \<le> tid \<and> tid < scan_endtid scan
                  \<and> scan_nexttid scan' = tid + 1 \<and> tid_visible vis tree tid"
      from Suc.IH [OF inv'] obtain valid k where
        v: "scan_next_calls n vis cf tree scan' = Some (valid @ replicate k InvalidZSTid)"
          "sorted_wrt (<) valid"
          "\<forall>t\<in>set valid. t \<noteq> InvalidZSTid \<and> scan_nexttid scan' \<le> t
                  \<and> t < scan_endtid scan' \<and> tid_visible vis tree t"
        by blast
      have "scan_next_calls (Suc n) vis cf tree scan
              = Some ((tid # valid) @ replicate k InvalidZSTid)"
        using res(1) Inr pair v(1) by simp
      moreover have "sorted_wrt (<) (tid # valid)" using v(2,3) ok by auto
      moreover have "\<forall>t\<in>set (tid # valid). t \<noteq> InvalidZSTid \<and> scan_nexttid scan \<le> t
                  \<and> t < scan_endtid scan \<and> tid_visible vis tree t"
        using v(3) ok e' tid_visible_valid [OF wf, of vis tid] by auto
      ultimately show ?thesis by blast
    qed
  qed
qed

lemma extract_skip_int:
  assumes "0 \<le> k"
  shows "extract_skip nexttid t k =
     (if t < nexttid then (if int (nexttid - t) \<le> k then (nexttid, k - int (nexttid - t))
                           else (t + nat k, 0))
      else (t, k))"
  using extract_skip_nat [of nexttid t "nat k"] assms by auto

lemma scan_example_begin:
  "zsbt_tid_begin_scan two_leaf_tree 2 1000 blank_scan
     = \<lparr> scan_active = True, scan_lastbuf = Some 0, scan_nexttid = 2, scan_endtid = 1000,
         scan_array_undoptr = 0, scan_array_num_elements = 0, scan_array_next_datum = 0,
         scan_serializable = False \<rparr>"
  by (simp add: zsbt_tid_begin_scan_def blank_scan_def zsbt_descend_def two_leaf_tree_def)

lemma scan_example_call1:
  "zsbt_tid_scan_next all_visible no_conflict two_leaf_tree
       \<lparr> scan_active = True, scan_lastbuf = Some 0, scan_nexttid = 2, scan_endtid = 1000,
         scan_array_undoptr = 0, scan_array_num_elements = 0, scan_array_next_datum = 0,
         scan_serializable = False \<rparr>
     = Some (Inr (4,
         \<lparr> scan_active = True, scan_lastbuf = Some 0, scan_nexttid = 5, scan_endtid = 1000,
           scan_array_undoptr = 7, scan_array_num_elements = 2, scan_array_next_datum = 1,
           scan_serializable = False \<rparr>))"
  unfolding zsbt_tid_scan_next_def
  apply (subst scan_next_loop.simps)
  apply (simp add: scan_locate_page_def zsbt_page_is_expected_def
      two_leaf_tree_def zsbt_tid_item_lasttid_def ZSBT_TID_DEAD_def all_visible_def
      zsbt_tid_scan_extract_array_def extract_skip_int Let_def)
  apply (subst scan_next_loop.simps)
  apply simp
  done

lemma scan_example_call2:
  "zsbt_tid_scan_next all_visible no_conflict two_leaf_tree
       \<lparr> scan_active = True, scan_lastbuf = Some 0, scan_nexttid = 5, scan_endtid = 1000,
         scan_array_undoptr = 7, scan_array_num_elements = 2, scan_array_next_datum = 1,
         scan_serializable = False \<rparr>
     = Some (Inr (5,
         \<lparr> scan_active = True, scan_lastbuf = Some 0, scan_nexttid = 6, scan_endtid = 1000,
           scan_array_undoptr = 7, scan_array_num_elements = 2, scan_array_next_datum = 2,
           scan_serializable = False \<rparr>))"
  unfolding zsbt_tid_scan_next_def
  apply (subst scan_next_loop.simps)
  apply simp
  done

lemma scan_example_call3:
  "zsbt_tid_scan_next all_visible no_conflict two_leaf_tree
       \<lparr> scan_active = True, scan_lastbuf = Some 0, scan_nexttid = 6, scan_endtid = 1000,
         scan_array_undoptr = 7, scan_array_num_elements = 2, scan_array_next_datum = 2,
         scan_serializable = False \<rparr>
     = Some (Inr (InvalidZSTid,
         \<lparr> scan_active = False, scan_lastbuf = None, scan_nexttid = 1000, scan_endtid = 1000,
           scan_array_undoptr = 7, scan_array_num_elements = 0, scan_array_next_datum = 0,
           scan_serializable = False \<rparr>))"
  unfolding zsbt_tid_scan_next_def
  apply (subst scan_next_loop.simps)
  apply (simp add: scan_locate_page_def zsbt_page_is_expected_def
      two_leaf_tree_def zsbt_tid_item_lasttid_def scan_past_page_def)
  apply (subst scan_next_loop.simps)
  apply (simp add: scan_locate_page_def zsbt_page_is_expected_def
      zsbt_tid_item_lasttid_def ZSBT_TID_DEAD_def TransactionIdIsValid_def
      InvalidTransactionId_def scan_past_page_def scan_deactivate_def)
  done

lemma scan_example:
  "scan_next_calls 4 all_visible no_conflict two_leaf_tree
       (zsbt_tid_begin_scan two_leaf_tree 2 1000 blank_scan)
     = Some [4, 5, InvalidZSTid, InvalidZSTid]"
proof -
  have "scan_next_calls (Suc (Suc (Suc (Suc 0)))) all_visible no_conflict two_leaf_tree
       (zsbt_tid_begin_scan two_leaf_tree 2 1000 blank_scan)
     = Some [4, 5, InvalidZSTid, InvalidZSTid]"
    by (simp add: scan_example_begin scan_example_call1 scan_example_call2 scan_example_call3
        scan_next_finished)
  then show ?thesis by (simp add: eval_nat_numeral)
qed

lemma scan_example_skip:
  "zsbt_tid_scan_next all_visible no_conflict two_leaf_tree
       (zsbt_tid_begin_scan two_leaf_tree 5 1000 blank_scan)
     = Some (Inr (5,
         \<lparr> scan_active = True, scan_lastbuf = Some 0, scan_nexttid = 6, scan_endtid = 1000,
           scan_array_undoptr = 7, scan_array_num_elements = 1, scan_array_next_datum = 1,
           scan_serializable = False \<rparr>))"
  unfolding zsbt_tid_scan_next_def
  apply (subst scan_next_loop.simps)
  apply (simp add: zsbt_tid_begin_scan_def blank_scan_def zsbt_descend_def
      scan_locate_page_def zsbt_page_is_expected_def
      two_leaf_tree_def zsbt_tid_item_lasttid_def ZSBT_TID_DEAD_def all_visible_def
      zsbt_tid_scan_extract_array_def extract_skip_int Let_def)
  apply (subst scan_next_loop.simps)
  apply simp
  done

lemma tid_visible_not_dead:
  assumes wf: "tree_wf P tree chain" and v: "tid_visible vis tree tid"
  shows "\<not> tid_dead tree tid"
proof
  assume "tid_dead tree tid"
  then obtain q y where q: "q \<in> set tree" "y \<in> set (tiditems q)" "item_covers y tid"
    "item_is_dead y"
    by (auto simp: tid_dead_def list_ex_iff)
  from v obtain p x where p: "p \<in> set tree" "x \<in> set (tiditems p)" "item_covers x tid"
    "\<not> item_is_dead x"
    by (auto simp: tid_visible_def list_ex_iff)
  from p(1) obtain b where b: "b < length tree" "tree ! b = p" by (auto simp: in_set_conv_nth)
  from q(1) obtain c where c: "c < length tree" "tree ! c = q" by (auto simp: in_set_conv_nth)
  have lp: "leaf_ok p" and lq: "leaf_ok q"
    using wf_leaf_ok [OF wf b(1)] wf_leaf_ok [OF wf c(1)] b(2) c(2) by simp_all
  have "page_covers (tree ! b) tid" "page_covers (tree ! c) tid"
    using leaf_ok_item_page_covers [OF lp p(2,3)] leaf_ok_item_page_covers [OF lq q(2,3)]
      b(2) c(2) by simp_all
  from wf_unique_leaf [OF wf b(1) c(1) this] b(2) c(2) have pq: "p = q" by simp
  from p(2) obtain i where i: "i < length (tiditems p)" "tiditems p ! i = x"
    by (auto simp: in_set_conv_nth)
  from q(2) pq obtain j where j: "j < length (tiditems p)" "tiditems p ! j = y"
    by (auto simp: in_set_conv_nth)
  have "items_ordered (tiditems p)" using lp by (simp add: leaf_ok_def)
  from covering_unique [OF this i(1) j(1)] i(2) j(2) p(3) q(3) have "x = y" by auto
  with p(4) q(4) show False by simp
qed

lemma mark_dead_already_dead:
  assumes wf: "tree_wf P tree chain" and at: "tid_at tree t b i"
    and dead: "item_is_dead (tiditems (tree ! b) ! i)"
  shows "zsbt_tid_mark_dead U P tree t = Inr (None, tree)"
  using wf_fetch [OF wf at] dead by (simp add: zsbt_tid_mark_dead_def)

lemma dead_single_slices:
  assumes i: "i < length items" and c: "item_covers (items ! i) t"
    and d: "items ! i = deaditem (t_tid (items ! i))"
  shows "replace_slices items i t (Some (deaditem t)) = items"
proof -
  have n: "t_nelements (items ! i) = 1"
    by (subst d) (simp add: deaditem_def)
  with c have t: "t_tid (items ! i) = t" by (simp add: item_covers_def)
  have "replace_slices items i t (Some (deaditem t)) = take i items @ [items ! i] @ drop (Suc i) items"
    using n t d by (simp add: replace_slices_def slice_before_def slice_after_def opt_list_def)
  then show ?thesis using i by (simp add: id_take_nth_drop [symmetric])
qed

lemma leaf_rewritten_refl:
  "b < length tree \<Longrightarrow> leaf_rewritten tree b (tiditems (tree ! b)) tree"
  by (simp add: leaf_rewritten_def)

lemma leaf_rewritten_items:
  assumes lr: "leaf_rewritten tree b newitems tree'"
    and page: "page \<in> set tree'" and item: "item \<in> set (tiditems page)"
  shows "item \<in> set newitems \<or> (\<exists>q\<in>set tree. item \<in> set (tiditems q))"
proof -
  from lr have b: "b < length tree" and le: "length tree \<le> length tree'"
    and tk: "take (length tree) tree' = tree[b := tree' ! b]"
    and cc: "concat (map tiditems (tree' ! b # drop (length tree) tree')) = newitems"
    by (simp_all add: leaf_rewritten_def)
  from page obtain k where k: "k < length tree'" "tree' ! k = page"
    by (auto simp: in_set_conv_nth)
  show ?thesis
  proof (cases "k < length tree")
    case True
    show ?thesis
    proof (cases "k = b")
      case True
      with k item cc show ?thesis by auto
    next
      case False
      have "take (length tree) tree' ! k = tree' ! k" using True by simp
      with tk False True have "tree' ! k = tree ! k" by simp
      with k True item show ?thesis by (metis nth_mem)
    qed
  next
    case False
    then have "k - length tree < length (drop (length tree) tree')"
      and "drop (length tree) tree' ! (k - length tree) = page"
      using k le by simp_all
    then have "page \<in> set (drop (length tree) tree')" by (metis nth_mem)
    with item cc show ?thesis by auto
  qed
qed

lemma mark_dead_slices_single:
  assumes ds: "list_all (\<lambda>item. item_is_dead item \<longrightarrow> item = deaditem (t_tid item)) items"
    and x: "x \<in> set (replace_slices items i t (Some (deaditem t)))" and dx: "item_is_dead x"
  shows "x = deaditem (t_tid x)"
proof -
  from x consider "x \<in> set (take i items)" | "x \<in> set (slice_before (items ! i) t)"
    | "x = deaditem t" | "x \<in> set (slice_after (items ! i) t)" | "x \<in> set (drop (Suc i) items)"
    by (auto simp: replace_slices_def opt_list_def)
  then show ?thesis
  proof cases
    case 1
    then have "x \<in> set items" by (rule in_set_takeD)
    with ds dx show ?thesis by (simp add: list_all_iff)
  next
    case 2
    with dx show ?thesis
      by (auto simp: slice_before_def item_is_dead_def split: if_splits)
  next
    case 3
    then show ?thesis by (simp add: deaditem_def)
  next
    case 4
    with dx show ?thesis
      by (auto simp: slice_after_def item_is_dead_def split: if_splits)
  next
    case 5
    then have "x \<in> set items" by (rule in_set_dropD)
    with ds dx show ?thesis by (simp add: list_all_iff)
  qed
qed

text \<open>
  C6.  In a well-formed tree whose \<open>DEAD\<close> items are the ones mark-dead writes, for every
  TID \<open>t\<close> covered by the item at position \<open>i\<close> of leaf \<open>b\<close>: \<open>zsbt_tid_mark_dead\<close> raises
  no warning and leaves the leaf with the single-TID slice of \<open>t\<close> replaced by
  \<open>{t, 1, InvalidUndoPtr, DEAD}\<close> and everything else as it was; a second mark-dead of
  \<open>t\<close> on the resulting tree leaves that tree unchanged; and the \<open>DEAD\<close> items of the
  resulting tree are again the ones mark-dead writes.
\<close>

theorem C6_mark_dead:
  assumes ok: "params_ok P" and wf: "tree_wf P tree chain" and at: "tid_at tree t b i"
    and ds: "dead_items_single tree"
  shows "\<exists>tree'. zsbt_tid_mark_dead U P tree t = Inr (None, tree')
           \<and> leaf_rewritten tree b
                (replace_slices (tiditems (tree ! b)) i t (Some (deaditem t))) tree'
           \<and> zsbt_tid_mark_dead U P tree' t = Inr (None, tree')
           \<and> dead_items_single tree'"
proof (cases "item_is_dead (tiditems (tree ! b) ! i)")
  case True
  from at have b: "b < length tree" and i: "i < length (tiditems (tree ! b))"
    and c: "item_covers (tiditems (tree ! b) ! i) t"
    by (simp_all add: tid_at_def)
  have "tiditems (tree ! b) ! i = deaditem (t_tid (tiditems (tree ! b) ! i))"
    using ds b i True by (simp add: dead_items_single_def list_all_length)
  from dead_single_slices [OF i c this]
  have "leaf_rewritten tree b
          (replace_slices (tiditems (tree ! b)) i t (Some (deaditem t))) tree"
    using leaf_rewritten_refl [OF b] by simp
  with mark_dead_already_dead [OF wf at True, of U] ds show ?thesis by auto
next
  case False
  have f: "zsbt_tid_fetch tree t
             = Some (b, t_undo_ptr (tiditems (tree ! b) ! i), item_is_dead (tiditems (tree ! b) ! i))"
    by (rule wf_fetch [OF wf at])
  from replace_item_some [OF ok wf at, of "deaditem t" U]
  obtain p0 ps b' where p:
    "zsbt_tid_replace_item U P tree b t (Some (deaditem t)) = Inr (tree[b := p0] @ ps)"
    "leaf_rewritten tree b (replace_slices (tiditems (tree ! b)) i t (Some (deaditem t)))
       (tree[b := p0] @ ps)"
    "zsbt_tid_fetch (tree[b := p0] @ ps) t
       = Some (b', t_undo_ptr (deaditem t), item_is_dead (deaditem t))"
    by (auto simp: deaditem_def)
  let ?tree' = "tree[b := p0] @ ps"
  have first: "zsbt_tid_mark_dead U P tree t = Inr (None, ?tree')"
    using f p(1) False by (simp add: zsbt_tid_mark_dead_def deaditem_def)
  have again: "zsbt_tid_mark_dead U P ?tree' t = Inr (None, ?tree')"
    using p(3) deaditem_is_dead by (simp add: zsbt_tid_mark_dead_def)
  have b: "b < length tree" using at by (simp add: tid_at_def)
  have "dead_items_single ?tree'"
    unfolding dead_items_single_def list_all_iff
  proof (intro ballI impI)
    fix page item
    assume pg: "page \<in> set ?tree'" and it: "item \<in> set (tiditems page)"
      and d: "item_is_dead item"
    from leaf_rewritten_items [OF p(2) pg it]
    show "item = deaditem (t_tid item)"
    proof
      assume "item \<in> set (replace_slices (tiditems (tree ! b)) i t (Some (deaditem t)))"
      moreover have "list_all (\<lambda>item. item_is_dead item \<longrightarrow> item = deaditem (t_tid item))
                       (tiditems (tree ! b))"
        using ds b by (simp add: dead_items_single_def list_all_length)
      ultimately show ?thesis using d mark_dead_slices_single by blast
    next
      assume "\<exists>q\<in>set tree. item \<in> set (tiditems q)"
      with ds d show ?thesis by (auto simp: dead_items_single_def list_all_iff)
    qed
  qed
  with first again p(2) show ?thesis by blast
qed

theorem C6_mark_dead_witness:
  "\<exists>tree'. zsbt_tid_mark_dead no_unlink small_params [example_leaf] 3 = Inr (None, tree')
      \<and> leaf_rewritten [example_leaf] 0
           [\<lparr> t_tid = 1, t_nelements = 2, t_undo_ptr = 7, t_flags = 0 \<rparr>, deaditem 3,
            \<lparr> t_tid = 4, t_nelements = 2, t_undo_ptr = 7, t_flags = 0 \<rparr>] tree'
      \<and> zsbt_tid_mark_dead no_unlink small_params tree' 3 = Inr (None, tree')
      \<and> dead_items_single tree'"
proof -
  have ds: "dead_items_single [example_leaf]"
    by (simp add: dead_items_single_def example_leaf_def item_is_dead_def)
  show ?thesis
    using C6_mark_dead [OF small_params_ok example_leaf_wf example_leaf_tid_at ds, of no_unlink]
    unfolding example_leaf_slices by simp
qed

lemma exact_free_hikey [simp]:
  "PageGetExactFreeSpace P (page \<lparr> zs_hikey := h \<rparr>) = PageGetExactFreeSpace P page"
  by (simp add: PageGetExactFreeSpace_def)

lemma exact_free_items:
  "length (tiditems p) = length (tiditems q) \<Longrightarrow>
     PageGetExactFreeSpace P p = PageGetExactFreeSpace P q"
  by (simp add: PageGetExactFreeSpace_def)

lemma add_to_page_closed:
  assumes c: "cxt_currpage cxt = Some c"
    and closed: "\<forall>q\<in>set (cxt_stack cxt).
        PageGetExactFreeSpace P q
          < max (MAXALIGN (sizeof_ZSTidArrayItem P)) (cxt_free_space_per_page cxt)"
  shows "\<exists>cxt' c'. zsbt_tid_recompress_add_to_page P cxt item = Inr cxt'
           \<and> cxt_currpage cxt' = Some c'
           \<and> cxt_free_space_per_page cxt' = cxt_free_space_per_page cxt
           \<and> (\<forall>q\<in>set (cxt_stack cxt').
                 PageGetExactFreeSpace P q
                   < max (MAXALIGN (sizeof_ZSTidArrayItem P)) (cxt_free_space_per_page cxt'))"
  using assms
  by (auto simp: zsbt_tid_recompress_add_to_page_def zsbt_tid_recompress_newpage_def Let_def)

lemma recompress_add_items_closed:
  assumes "cxt_currpage cxt = Some c"
    and "\<forall>q\<in>set (cxt_stack cxt).
        PageGetExactFreeSpace P q
          < max (MAXALIGN (sizeof_ZSTidArrayItem P)) (cxt_free_space_per_page cxt)"
  shows "\<exists>cxt' c'. recompress_add_items P cxt items = Inr cxt'
           \<and> cxt_currpage cxt' = Some c'
           \<and> cxt_free_space_per_page cxt' = cxt_free_space_per_page cxt
           \<and> (\<forall>q\<in>set (cxt_stack cxt').
                 PageGetExactFreeSpace P q
                   < max (MAXALIGN (sizeof_ZSTidArrayItem P)) (cxt_free_space_per_page cxt'))"
  using assms
proof (induction items arbitrary: cxt c)
  case Nil
  then show ?case by simp
next
  case (Cons item items)
  from add_to_page_closed [OF Cons.prems, of item]
  obtain cxt1 c1 where a: "zsbt_tid_recompress_add_to_page P cxt item = Inr cxt1"
    "cxt_currpage cxt1 = Some c1"
    "cxt_free_space_per_page cxt1 = cxt_free_space_per_page cxt"
    "\<forall>q\<in>set (cxt_stack cxt1).
        PageGetExactFreeSpace P q
          < max (MAXALIGN (sizeof_ZSTidArrayItem P)) (cxt_free_space_per_page cxt1)"
    by blast
  from Cons.IH [OF a(2) a(4)] a(1) a(3) show ?case by auto
qed

lemma exact_free_lower:
  "space_on_empty_page P - length (tiditems c) * sizeof_ZSTidArrayItem P
     \<le> PageGetExactFreeSpace P c"
  using MAXALIGN_ge [of "SizeOfPageHeaderData P"]
  by (simp add: PageGetExactFreeSpace_def space_on_empty_page_def)

lemma recompress_add_items_one_page:
  assumes "cxt_currpage cxt = Some c" and "cxt_stack cxt = []"
    and "cxt_free_space_per_page cxt = 0"
    and al: "MAXALIGN (sizeof_ZSTidArrayItem P) = sizeof_ZSTidArrayItem P"
    and "(length (tiditems c) + length items) * sizeof_ZSTidArrayItem P \<le> space_on_empty_page P"
  shows "recompress_add_items P cxt items
           = Inr (cxt \<lparr> cxt_currpage := Some (c \<lparr> tiditems := tiditems c @ items \<rparr>) \<rparr>)"
  using assms(1,2,3,5)
proof (induction items arbitrary: cxt c)
  case Nil
  then show ?case by simp
next
  case (Cons item items)
  let ?sz = "sizeof_ZSTidArrayItem P"
  have "(length (tiditems c) + 1) * ?sz \<le> space_on_empty_page P"
  proof -
    have "(length (tiditems c) + 1) * ?sz \<le> (length (tiditems c) + length (item # items)) * ?sz"
      by (rule mult_le_mono1) simp
    with Cons.prems(4) show ?thesis by linarith
  qed
  then have "?sz \<le> space_on_empty_page P - length (tiditems c) * ?sz" by simp
  with exact_free_lower [of P c] have room: "?sz \<le> PageGetExactFreeSpace P c" by linarith
  let ?cxt1 = "cxt \<lparr> cxt_currpage := Some (c \<lparr> tiditems := tiditems c @ [item] \<rparr>) \<rparr>"
  have step: "zsbt_tid_recompress_add_to_page P cxt item = Inr ?cxt1"
    using Cons.prems(1,3) room al
    by (simp add: zsbt_tid_recompress_add_to_page_def Let_def)
  have "recompress_add_items P ?cxt1 items
          = Inr (?cxt1 \<lparr> cxt_currpage :=
                   Some (c \<lparr> tiditems := tiditems c @ [item] \<rparr>
                           \<lparr> tiditems := tiditems (c \<lparr> tiditems := tiditems c @ [item] \<rparr>) @ items \<rparr>) \<rparr>)"
    by (rule Cons.IH) (use Cons.prems in simp_all)
  with step show ?case by simp
qed

lemma picksplit_one_page:
  assumes "zsbt_tid_recompress_picksplit P hikey n = Inr (1, fsp)"
  shows "fsp = 0 \<and> n * sizeof_ZSTidArrayItem P \<le> space_on_empty_page P"
proof -
  let ?space = "space_on_empty_page P"
  let ?tot = "n * sizeof_ZSTidArrayItem P"
  from assms have sp: "?space \<noteq> 0" and np: "(?tot + ?space - 1) div ?space = 1" and "fsp = 0"
    by (auto simp: zsbt_tid_recompress_picksplit_def Let_def split: if_splits)
  have "?tot \<le> ?space"
  proof (rule ccontr)
    assume "\<not> ?tot \<le> ?space"
    then have "2 * ?space \<le> ?tot + ?space - 1" by simp
    then have "2 \<le> (?tot + ?space - 1) div ?space"
      using sp by (metis div_le_mono div_mult_self_is_m mult.commute neq0_conv)
    with np show False by simp
  qed
  with \<open>fsp = 0\<close> show ?thesis by simp
qed

lemma recompress_replace_built:
  assumes ok: "params_ok P" and buf: "buf < length tree" and ne: "items \<noteq> []"
  shows "\<exists>np fsp p0 ps.
           zsbt_tid_recompress_picksplit P (zs_hikey (tree ! buf)) (length items) = Inr (np, fsp)
           \<and> zsbt_tid_recompress_replace P tree buf items = Inr (tree[buf := p0] @ ps)
           \<and> concat (map tiditems (p0 # ps)) = items
           \<and> list_all (\<lambda>q. PageGetExactFreeSpace P q
                              < max (MAXALIGN (sizeof_ZSTidArrayItem P)) fsp)
                 (butlast (p0 # ps))
           \<and> (np = 1 \<and> MAXALIGN (sizeof_ZSTidArrayItem P) = sizeof_ZSTidArrayItem P
                \<longrightarrow> ps = [] \<and> tiditems p0 = items)"
proof -
  obtain np fsp where pk: "zsbt_tid_recompress_picksplit P (zs_hikey (tree ! buf)) (length items)
                             = Inr (np, fsp)"
    using picksplit_ok [OF ok, of "length items" "zs_hikey (tree ! buf)"] ne by auto
  let ?cxt0 = "\<lparr> cxt_stack = [], cxt_currpage = None, cxt_num_pages = np,
                  cxt_free_space_per_page = fsp, cxt_hikey = zs_hikey (tree ! buf) \<rparr>"
  let ?cxt1 = "zsbt_tid_recompress_newpage ?cxt0 (zs_lokey (tree ! buf))
                 (zs_flags (tree ! buf) AND ZSBT_ROOT P)"
  obtain c1 where c1: "cxt_currpage ?cxt1 = Some c1" "tiditems c1 = []" "cxt_stack ?cxt1 = []"
    "cxt_free_space_per_page ?cxt1 = fsp"
    by (simp add: zsbt_tid_recompress_newpage_def)
  from recompress_add_items_items [OF c1(1), of P items]
  obtain cxt c where a: "recompress_add_items P ?cxt1 items = Inr cxt"
      "cxt_currpage cxt = Some c"
      "concat (map tiditems (cxt_stack cxt @ [c])) = items"
    using c1 by auto
  from recompress_add_items_closed [OF c1(1), of P items] a(1) c1(3,4)
  have closed: "\<forall>q\<in>set (cxt_stack cxt).
        PageGetExactFreeSpace P q < max (MAXALIGN (sizeof_ZSTidArrayItem P)) fsp"
    by auto
  let ?linked = "link_pages (length tree) (zs_next (tree ! buf)) (cxt_stack cxt @ [c])"
  have len: "length ?linked = length (cxt_stack cxt @ [c])" by (rule link_pages_length)
  then obtain head rest where l: "?linked = head # rest"
    by (cases ?linked) simp_all
  have m: "map tiditems (head # rest) = map tiditems (cxt_stack cxt @ [c])"
    using link_pages_items [of "length tree" "zs_next (tree ! buf)" "cxt_stack cxt @ [c]"] l
    by simp
  let ?head' = "if rest \<noteq> [] \<and> (zs_flags head AND ZSBT_ROOT P) \<noteq> 0
                  then head \<lparr> zs_flags := zs_flags head AND NOT (ZSBT_ROOT P) \<rparr> else head"
  have r: "zsbt_tid_recompress_replace P tree buf items = Inr (tree[buf := ?head'] @ rest)"
    using buf pk a l by (simp add: zsbt_tid_recompress_replace_def Let_def)
  have m': "map tiditems (?head' # rest) = map tiditems (cxt_stack cxt @ [c])"
    using m by simp
  then have cc: "concat (map tiditems (?head' # rest)) = items"
    using a(3) by metis
  have fr: "list_all (\<lambda>q. PageGetExactFreeSpace P q
                              < max (MAXALIGN (sizeof_ZSTidArrayItem P)) fsp)
                 (butlast (?head' # rest))"
    unfolding list_all_length
  proof (intro allI impI)
    fix k
    assume k: "k < length (butlast (?head' # rest))"
    have lr: "length (?head' # rest) = length (cxt_stack cxt) + 1"
      using len l by simp
    have "length (butlast (?head' # rest)) = length (?head' # rest) - 1"
      by (rule length_butlast)
    with k lr have ks: "k < length (cxt_stack cxt)" by (simp only:)
    have "tiditems ((?head' # rest) ! k) = map tiditems (?head' # rest) ! k"
      using lr ks by (simp del: list.map)
    also have "\<dots> = tiditems (cxt_stack cxt ! k)"
      using m' ks by (simp add: nth_append del: list.map)
    finally have "PageGetExactFreeSpace P ((?head' # rest) ! k)
                    = PageGetExactFreeSpace P (cxt_stack cxt ! k)"
      by (simp add: PageGetExactFreeSpace_def)
    moreover have "butlast (?head' # rest) ! k = (?head' # rest) ! k"
      using k by (rule nth_butlast)
    ultimately show "PageGetExactFreeSpace P (butlast (?head' # rest) ! k)
                       < max (MAXALIGN (sizeof_ZSTidArrayItem P)) fsp"
      using closed ks by simp
  qed
  have one: "rest = [] \<and> tiditems ?head' = items"
    if "np = 1" "MAXALIGN (sizeof_ZSTidArrayItem P) = sizeof_ZSTidArrayItem P"
  proof -
    from picksplit_one_page [of P "zs_hikey (tree ! buf)" "length items" fsp] pk that(1)
    have z: "fsp = 0" "length items * sizeof_ZSTidArrayItem P \<le> space_on_empty_page P"
      by simp_all
    have "recompress_add_items P ?cxt1 items
            = Inr (?cxt1 \<lparr> cxt_currpage := Some (c1 \<lparr> tiditems := tiditems c1 @ items \<rparr>) \<rparr>)"
      by (rule recompress_add_items_one_page [OF c1(1) c1(3) _ that(2)])
        (use c1 z in simp_all)
    with a(1,2) c1(3) have "cxt_stack cxt = []" "tiditems c = items"
      using c1(2) by auto
    with m l len show ?thesis by (cases rest) auto
  qed
  from pk r cc fr one show ?thesis by blast
qed

text \<open>
  C3 (amended).  For a repack of a leaf with the given items, \<open>num_pages\<close> pages needed and
  \<open>free\<close> bytes left over on them: when one page is enough, \<open>free_space_per_page\<close> is 0 and
  no split occurs, the leaf is rewritten in its block with all the items; when more pages
  are needed, on the rightmost leaf \<open>free_space_per_page\<close> is a tenth of \<open>free\<close> divided by
  \<open>num_pages - 1\<close>, so that \<open>num_pages - 1\<close> pages keeping that much hold at most 10% of
  \<open>free\<close>, and on any other leaf it is \<open>free\<close> divided evenly by \<open>num_pages\<close>; and every
  page built but the last was filled until its free space was below the larger of
  \<open>free_space_per_page\<close> and the size of one item.
\<close>

theorem C3_picksplit_distribution:
  assumes ok: "params_ok P"
    and al: "MAXALIGN (sizeof_ZSTidArrayItem P) = sizeof_ZSTidArrayItem P"
    and buf: "buf < length tree" and ne: "items \<noteq> []"
    and hk: "hikey = zs_hikey (tree ! buf)"
    and np: "num_pages = (length items * sizeof_ZSTidArrayItem P + space_on_empty_page P - 1)
                           div space_on_empty_page P"
    and fr: "free = space_on_empty_page P * num_pages - length items * sizeof_ZSTidArrayItem P"
  shows "(num_pages = 1 \<longrightarrow>
           zsbt_tid_recompress_picksplit P hikey (length items) = Inr (1, 0)
           \<and> (\<exists>p0. zsbt_tid_recompress_replace P tree buf items = Inr (tree[buf := p0])
                  \<and> tiditems p0 = items))
    \<and> (num_pages > 1 \<and> hikey = MaxPlusOneZSTid P \<longrightarrow>
           zsbt_tid_recompress_picksplit P hikey (length items)
             = Inr (num_pages, free div (10 * (num_pages - 1)))
           \<and> 10 * ((num_pages - 1) * (free div (10 * (num_pages - 1)))) \<le> free)
    \<and> (num_pages > 1 \<and> hikey \<noteq> MaxPlusOneZSTid P \<longrightarrow>
           zsbt_tid_recompress_picksplit P hikey (length items)
             = Inr (num_pages, free div num_pages))
    \<and> (\<exists>fsp p0 ps.
           zsbt_tid_recompress_picksplit P hikey (length items) = Inr (num_pages, fsp)
           \<and> zsbt_tid_recompress_replace P tree buf items = Inr (tree[buf := p0] @ ps)
           \<and> concat (map tiditems (p0 # ps)) = items
           \<and> list_all (\<lambda>q. PageGetExactFreeSpace P q
                              < max (MAXALIGN (sizeof_ZSTidArrayItem P)) fsp)
                 (butlast (p0 # ps)))"
proof -
  have sp: "0 < space_on_empty_page P" by (rule params_ok_space [OF ok])
  from recompress_replace_built [OF ok buf ne]
  obtain n' fsp p0 ps where b:
    "zsbt_tid_recompress_picksplit P (zs_hikey (tree ! buf)) (length items) = Inr (n', fsp)"
    "zsbt_tid_recompress_replace P tree buf items = Inr (tree[buf := p0] @ ps)"
    "concat (map tiditems (p0 # ps)) = items"
    "list_all (\<lambda>q. PageGetExactFreeSpace P q
                      < max (MAXALIGN (sizeof_ZSTidArrayItem P)) fsp) (butlast (p0 # ps))"
    "n' = 1 \<and> MAXALIGN (sizeof_ZSTidArrayItem P) = sizeof_ZSTidArrayItem P
       \<longrightarrow> ps = [] \<and> tiditems p0 = items"
    by blast
  have n': "n' = num_pages"
    using b(1) np by (auto simp: zsbt_tid_recompress_picksplit_def Let_def split: if_splits)
  have one: "num_pages = 1 \<longrightarrow>
           zsbt_tid_recompress_picksplit P hikey (length items) = Inr (1, 0)"
    using sp np by (simp add: zsbt_tid_recompress_picksplit_def Let_def)
  have nosplit: "num_pages = 1 \<longrightarrow>
      (\<exists>p0. zsbt_tid_recompress_replace P tree buf items = Inr (tree[buf := p0])
               \<and> tiditems p0 = items)"
    using b(2,5) n' al by auto
  have "10 * (num_pages - 1) * (free div (10 * (num_pages - 1))) \<le> free"
    by simp
  then have tenth: "10 * ((num_pages - 1) * (free div (10 * (num_pages - 1)))) \<le> free"
    by (simp add: mult.assoc)
  have right: "num_pages > 1 \<and> hikey = MaxPlusOneZSTid P \<longrightarrow>
           zsbt_tid_recompress_picksplit P hikey (length items)
             = Inr (num_pages, free div (10 * (num_pages - 1)))"
    using sp np fr by (simp add: zsbt_tid_recompress_picksplit_def Let_def
          tenth_of_free_space_per_page_def)
  have even: "num_pages > 1 \<and> hikey \<noteq> MaxPlusOneZSTid P \<longrightarrow>
           zsbt_tid_recompress_picksplit P hikey (length items)
             = Inr (num_pages, free div num_pages)"
    using sp np fr by (simp add: zsbt_tid_recompress_picksplit_def Let_def)
  have built: "\<exists>fsp p0 ps.
           zsbt_tid_recompress_picksplit P hikey (length items) = Inr (num_pages, fsp)
           \<and> zsbt_tid_recompress_replace P tree buf items = Inr (tree[buf := p0] @ ps)
           \<and> concat (map tiditems (p0 # ps)) = items
           \<and> list_all (\<lambda>q. PageGetExactFreeSpace P q
                              < max (MAXALIGN (sizeof_ZSTidArrayItem P)) fsp)
                 (butlast (p0 # ps))"
    using b(1-4) n' hk by blast
  from one nosplit tenth right even built show ?thesis by blast
qed

lemma small_params_space: "space_on_empty_page small_params = 72"
  by (simp add: space_on_empty_page_def small_params_def MAXALIGN_def)

lemma small_params_aligned:
  "MAXALIGN (sizeof_ZSTidArrayItem small_params) = sizeof_ZSTidArrayItem small_params"
  by (simp add: small_params_def MAXALIGN_def)

theorem C3_picksplit_distribution_witness:
  "zsbt_tid_recompress_picksplit small_params 1000 3 = Inr (2, 4)
   \<and> zsbt_tid_recompress_picksplit small_params 500 3 = Inr (2, 24)
   \<and> zsbt_tid_recompress_picksplit small_params 1000 2 = Inr (1, 0)
   \<and> (\<exists>p0. zsbt_tid_recompress_replace small_params [empty_leaf 1000] 0 (take 2 three_items)
              = Inr ([empty_leaf 1000][0 := p0])
            \<and> tiditems p0 = take 2 three_items)
   \<and> (\<exists>p0 ps. zsbt_tid_recompress_replace small_params [empty_leaf 1000] 0 three_items
              = Inr ([empty_leaf 1000][0 := p0] @ ps)
            \<and> concat (map tiditems (p0 # ps)) = three_items
            \<and> list_all (\<lambda>q. PageGetExactFreeSpace small_params q < 32) (butlast (p0 # ps)))"
proof -
  have len: "length three_items = 3" "length (take 2 three_items) = 2"
    "three_items \<noteq> []" "take 2 three_items \<noteq> []"
    by (simp_all add: three_items_def)
  have sz: "sizeof_ZSTidArrayItem small_params = 32" by (simp add: small_params_def)
  have hk: "zs_hikey ([empty_leaf h] ! 0) = h" for h by (simp add: empty_leaf_def)
  have mx: "MaxPlusOneZSTid small_params = 1000" by (rule MaxPlusOne_small)
  have b0: "0 < length [empty_leaf h]" for h by simp
  have n3: "(length three_items * sizeof_ZSTidArrayItem small_params
               + space_on_empty_page small_params - 1) div space_on_empty_page small_params = 2"
    by (simp add: len sz small_params_space)
  have n2: "(length (take 2 three_items) * sizeof_ZSTidArrayItem small_params
               + space_on_empty_page small_params - 1) div space_on_empty_page small_params = 1"
    by (simp add: len sz small_params_space)
  have f3: "space_on_empty_page small_params * 2
              - length three_items * sizeof_ZSTidArrayItem small_params = 48"
    by (simp add: len sz small_params_space)
  note right = C3_picksplit_distribution [where buf = 0 and tree = "[empty_leaf 1000]"
        and items = three_items,
        OF small_params_ok small_params_aligned b0 len(3) hk [of 1000, symmetric]
          n3 [symmetric] f3 [symmetric]]
  note inner = C3_picksplit_distribution [where buf = 0 and tree = "[empty_leaf 500]"
        and items = three_items,
        OF small_params_ok small_params_aligned b0 len(3) hk [of 500, symmetric]
          n3 [symmetric] f3 [symmetric]]
  note single = C3_picksplit_distribution [where buf = 0 and tree = "[empty_leaf 1000]"
        and items = "take 2 three_items",
        OF small_params_ok small_params_aligned b0 len(4) hk [of 1000, symmetric]
          n2 [symmetric] refl]
  have a: "zsbt_tid_recompress_picksplit small_params 1000 3 = Inr (2, 4)"
    using right mx by (simp add: len)
  from right obtain fsp p0 ps where r:
    "zsbt_tid_recompress_picksplit small_params 1000 (length three_items) = Inr (2, fsp)"
    "zsbt_tid_recompress_replace small_params [empty_leaf 1000] 0 three_items
       = Inr ([empty_leaf 1000][0 := p0] @ ps)"
    "concat (map tiditems (p0 # ps)) = three_items"
    "list_all (\<lambda>q. PageGetExactFreeSpace small_params q
                      < max (MAXALIGN (sizeof_ZSTidArrayItem small_params)) fsp)
       (butlast (p0 # ps))"
    by blast
  from r(1) a have "fsp = 4" by (simp add: len)
  then have "max (MAXALIGN (sizeof_ZSTidArrayItem small_params)) fsp = 32"
    by (simp add: sz MAXALIGN_def)
  with r(4) have r4: "list_all (\<lambda>q. PageGetExactFreeSpace small_params q < 32)
                        (butlast (p0 # ps))"
    by (simp only:)
  have b: "zsbt_tid_recompress_picksplit small_params 500 3 = Inr (2, 24)"
    using inner mx by (simp add: len)
  have c: "zsbt_tid_recompress_picksplit small_params 1000 2 = Inr (1, 0)"
    "\<exists>p0. zsbt_tid_recompress_replace small_params [empty_leaf 1000] 0 (take 2 three_items)
              = Inr ([empty_leaf 1000][0 := p0])
            \<and> tiditems p0 = take 2 three_items"
    using single by (simp_all add: len)
  from a b c r(2,3) r4 show ?thesis by blast
qed

lemma repack_three_items_example:
  "zsbt_tid_recompress_replace small_params [empty_leaf 1000] 0 three_items
     = Inr [\<lparr> zs_next = Some 1, zs_lokey = 1, zs_hikey = 3, zs_flags = 0,
              tiditems = take 2 three_items \<rparr>,
            \<lparr> zs_next = None, zs_lokey = 3, zs_hikey = 1000, zs_flags = 0,
              tiditems = drop 2 three_items \<rparr>]"
  by (simp add: zsbt_tid_recompress_replace_def zsbt_tid_recompress_picksplit_def
      small_params_space tenth_of_free_space_per_page_def Let_def MaxPlusOne_small
      three_items_def zsbt_tid_recompress_newpage_def zsbt_tid_recompress_add_to_page_def
      PageGetExactFreeSpace_def zsbt_tid_create_item_def empty_leaf_def)
    (simp add: small_params_def MAXALIGN_def)

lemma covering_item_unique:
  assumes wf: "tree_wf P tree chain"
    and p: "p \<in> set tree" "x \<in> set (tiditems p)" "item_covers x t"
    and q: "q \<in> set tree" "y \<in> set (tiditems q)" "item_covers y t"
  shows "x = y"
proof -
  from p(1) obtain b where b: "b < length tree" "tree ! b = p" by (auto simp: in_set_conv_nth)
  from q(1) obtain c where c: "c < length tree" "tree ! c = q" by (auto simp: in_set_conv_nth)
  have lp: "leaf_ok p" and lq: "leaf_ok q"
    using wf_leaf_ok [OF wf b(1)] wf_leaf_ok [OF wf c(1)] b(2) c(2) by simp_all
  have "page_covers (tree ! b) t" "page_covers (tree ! c) t"
    using leaf_ok_item_page_covers [OF lp p(2,3)] leaf_ok_item_page_covers [OF lq q(2,3)]
      b(2) c(2) by simp_all
  from wf_unique_leaf [OF wf b(1) c(1) this] b(2) c(2) have pq: "p = q" by simp
  from p(2) obtain i where i: "i < length (tiditems p)" "tiditems p ! i = x"
    by (auto simp: in_set_conv_nth)
  from q(2) pq obtain j where j: "j < length (tiditems p)" "tiditems p ! j = y"
    by (auto simp: in_set_conv_nth)
  have "items_ordered (tiditems p)" using lp by (simp add: leaf_ok_def)
  from covering_unique [OF this i(1) j(1)] i(2) j(2) p(3) q(3) show "x = y" by auto
qed

lemma uncovered_not_visible:
  assumes wf: "tree_wf P tree chain" and b: "b < length tree"
    and c: "page_covers (tree ! b) t"
    and no: "\<forall>it\<in>set (tiditems (tree ! b)). \<not> item_covers it t"
  shows "\<not> tid_visible vis tree t"
proof
  assume "tid_visible vis tree t"
  then obtain p x where p: "p \<in> set tree" "x \<in> set (tiditems p)" "item_covers x t"
    by (auto simp: tid_visible_def list_ex_iff)
  from p(1) obtain k where k: "k < length tree" "tree ! k = p" by (auto simp: in_set_conv_nth)
  have "leaf_ok p" using wf_leaf_ok [OF wf k(1)] k(2) by simp
  from leaf_ok_item_page_covers [OF this p(2,3)] have "page_covers (tree ! k) t"
    using k(2) by simp
  from wf_unique_leaf [OF wf k(1) b this c] k(2) have "p = tree ! b" by simp
  with p(2,3) no show False by auto
qed

lemma invisible_item_not_visible:
  assumes wf: "tree_wf P tree chain" and b: "b < length tree"
    and it: "item \<in> set (tiditems (tree ! b))" and c: "item_covers item t"
    and inv: "item_is_dead item \<or> \<not> fst (vis (t_undo_ptr item))"
  shows "\<not> tid_visible vis tree t"
proof
  assume "tid_visible vis tree t"
  then obtain p x where p: "p \<in> set tree" "x \<in> set (tiditems p)" "item_covers x t"
    "\<not> item_is_dead x" "fst (vis (t_undo_ptr x))"
    by (auto simp: tid_visible_def list_ex_iff)
  have "tree ! b \<in> set tree" using b by simp
  from covering_item_unique [OF wf p(1,2,3) this it c] have "x = item" .
  with p(4,5) inv show False by simp
qed

lemma scan_page_items_exact:
  assumes wf: "tree_wf P tree chain" and b: "b < length tree"
    and noc: "ser \<longrightarrow> (\<forall>xid. \<not> cf xid)"
  shows "tiditems (tree ! b) = passed @ rest \<Longrightarrow>
         (\<forall>it\<in>set passed. t_tid it + t_nelements it \<le> scan_nexttid scan) \<Longrightarrow>
         scan_nexttid scan < scan_endtid scan
           \<or> (\<forall>it\<in>set rest. scan_nexttid scan \<le> t_tid it) \<Longrightarrow>
         zs_lokey (tree ! b) \<le> scan_nexttid scan \<Longrightarrow>
         scan_serializable scan = ser \<Longrightarrow> scan_endtid scan = e \<Longrightarrow>
         \<exists>scan1. scan_page_items vis cf rest scan = Inr scan1
           \<and> scan_serializable scan1 = ser
           \<and> (\<forall>t. scan_nexttid scan \<le> t \<and> t < scan_nexttid scan1 \<and> t < e
                  \<longrightarrow> \<not> tid_visible vis tree t)
           \<and> (\<not> scan_array_next_datum scan1 < scan_array_num_elements scan1 \<longrightarrow>
                (\<forall>t. scan_nexttid scan1 \<le> t \<and> t < zs_hikey (tree ! b) \<and> t < e
                   \<longrightarrow> \<not> tid_visible vis tree t))"
proof (induction rest arbitrary: scan passed)
  case Nil
  have "\<not> tid_visible vis tree t"
    if t: "scan_nexttid scan \<le> t" "t < zs_hikey (tree ! b)" for t
  proof (rule uncovered_not_visible [OF wf b])
    show "page_covers (tree ! b) t" using t Nil.prems(4) by (simp add: page_covers_def)
    show "\<forall>it\<in>set (tiditems (tree ! b)). \<not> item_covers it t"
      using Nil.prems(1,2) t(1) by (fastforce simp: item_covers_def)
  qed
  then show ?case using Nil.prems(5) by simp
next
  case (Cons item rest)
  have lok: "leaf_ok (tree ! b)" by (rule wf_leaf_ok [OF wf b])
  then have ord: "items_ordered (passed @ item # rest)"
    and win: "items_within (zs_lokey (tree ! b)) (zs_hikey (tree ! b)) (passed @ item # rest)"
    using Cons.prems(1) by (simp_all add: leaf_ok_def)
  have n: "0 < t_nelements item"
    and after: "\<forall>it\<in>set rest. t_tid item + t_nelements item \<le> t_tid it"
    using ord by (auto simp: items_ordered_def sorted_wrt_append)
  have up: "t_tid item + t_nelements item \<le> zs_hikey (tree ! b)"
    using win by (simp add: items_within_def)
  have mem: "item \<in> set (tiditems (tree ! b))" using Cons.prems(1) by simp
  have last: "zsbt_tid_item_lasttid item + 1 = t_tid item + t_nelements item"
    using n by (simp add: zsbt_tid_item_lasttid_def)
  have split': "tiditems (tree ! b) = (passed @ [item]) @ rest" using Cons.prems(1) by simp
  have gap: "\<not> tid_visible vis tree t"
    if t: "scan_nexttid scan \<le> t" "t < t_tid item" for t
  proof (rule uncovered_not_visible [OF wf b])
    show "page_covers (tree ! b) t"
      using t Cons.prems(4) up n by (simp add: page_covers_def)
    show "\<forall>it\<in>set (tiditems (tree ! b)). \<not> item_covers it t"
    proof
      fix it assume "it \<in> set (tiditems (tree ! b))"
      then consider "it \<in> set passed" | "it = item" | "it \<in> set rest"
        using Cons.prems(1) by auto
      then show "\<not> item_covers it t"
      proof cases
        case 1
        with Cons.prems(2) t(1) show ?thesis by (fastforce simp: item_covers_def)
      next
        case 2
        with t(2) show ?thesis by (simp add: item_covers_def)
      next
        case 3
        with after t(2) n show ?thesis by (fastforce simp: item_covers_def)
      qed
    qed
  qed
  show ?case
  proof (cases "scan_nexttid scan > zsbt_tid_item_lasttid item")
    case True
    have "\<forall>it\<in>set (passed @ [item]). t_tid it + t_nelements it \<le> scan_nexttid scan"
      using Cons.prems(2) True last by auto
    moreover have "scan_nexttid scan < scan_endtid scan
                     \<or> (\<forall>it\<in>set rest. scan_nexttid scan \<le> t_tid it)"
      using Cons.prems(3) by auto
    ultimately show ?thesis
      using Cons.IH [OF split' _ _ Cons.prems(4,5,6)] True by simp
  next
    case cur: False
    then have nx: "scan_nexttid scan < t_tid item + t_nelements item"
      using last by linarith
    show ?thesis
    proof (cases "t_tid item \<ge> scan_endtid scan")
      case True
      have "scan_page_items vis cf (item # rest) scan
              = Inr (scan \<lparr> scan_nexttid := scan_endtid scan \<rparr>)"
        using cur True by simp
      moreover have "\<not> tid_visible vis tree t"
        if "scan_nexttid scan \<le> t" "t < scan_endtid scan" for t
        using gap [of t] that True by simp
      ultimately show ?thesis using Cons.prems(5,6) by simp
    next
      case inrange: False
      then have e1: "t_tid item < scan_endtid scan" by simp
      have e2: "scan_nexttid scan < scan_endtid scan"
        using Cons.prems(3) e1 by auto
      define verdict where "verdict = (if (t_flags item AND ZSBT_TID_DEAD) \<noteq> 0
                          then (False, InvalidTransactionId)
                          else vis (t_undo_ptr item))"
      show ?thesis
      proof (cases "fst verdict")
        case False
        then have hid: "item_is_dead item \<or> \<not> fst (vis (t_undo_ptr item))"
          by (auto simp: verdict_def item_is_dead_def split: if_splits)
        let ?scan' = "scan \<lparr> scan_nexttid := zsbt_tid_item_lasttid item + 1 \<rparr>"
        have noc': "\<not> (scan_serializable scan \<and> TransactionIdIsValid (snd verdict)
                        \<and> cf (snd verdict))"
          using noc Cons.prems(5) by auto
        have step: "scan_page_items vis cf (item # rest) scan
                      = scan_page_items vis cf rest ?scan'"
          using cur inrange False noc' by (auto simp add: Let_def verdict_def [symmetric])
        have "\<exists>scan1. scan_page_items vis cf rest ?scan' = Inr scan1
           \<and> scan_serializable scan1 = ser
           \<and> (\<forall>t. scan_nexttid ?scan' \<le> t \<and> t < scan_nexttid scan1 \<and> t < e
                  \<longrightarrow> \<not> tid_visible vis tree t)
           \<and> (\<not> scan_array_next_datum scan1 < scan_array_num_elements scan1 \<longrightarrow>
                (\<forall>t. scan_nexttid scan1 \<le> t \<and> t < zs_hikey (tree ! b) \<and> t < e
                   \<longrightarrow> \<not> tid_visible vis tree t))"
        proof (rule Cons.IH [OF split'])
          show "\<forall>it\<in>set (passed @ [item]). t_tid it + t_nelements it \<le> scan_nexttid ?scan'"
            using Cons.prems(2) nx last by auto
          show "scan_nexttid ?scan' < scan_endtid ?scan'
                  \<or> (\<forall>it\<in>set rest. scan_nexttid ?scan' \<le> t_tid it)"
            using after last by simp
          show "zs_lokey (tree ! b) \<le> scan_nexttid ?scan'"
            using Cons.prems(4) nx last by simp
          show "scan_serializable ?scan' = ser" using Cons.prems(5) by simp
          show "scan_endtid ?scan' = e" using Cons.prems(6) by simp
        qed
        then obtain scan1 where s1: "scan_page_items vis cf rest ?scan' = Inr scan1"
          "scan_serializable scan1 = ser"
          "\<forall>t. scan_nexttid ?scan' \<le> t \<and> t < scan_nexttid scan1 \<and> t < e
                  \<longrightarrow> \<not> tid_visible vis tree t"
          "\<not> scan_array_next_datum scan1 < scan_array_num_elements scan1 \<longrightarrow>
                (\<forall>t. scan_nexttid scan1 \<le> t \<and> t < zs_hikey (tree ! b) \<and> t < e
                   \<longrightarrow> \<not> tid_visible vis tree t)"
          by blast
        have "\<not> tid_visible vis tree t"
          if t: "scan_nexttid scan \<le> t" "t < scan_nexttid scan1" "t < e" for t
        proof (cases "t < t_tid item")
          case True
          with gap t(1) show ?thesis by simp
        next
          case ge: False
          show ?thesis
          proof (cases "t < t_tid item + t_nelements item")
            case True
            with ge have "item_covers item t" by (simp add: item_covers_def)
            then show ?thesis
              using invisible_item_not_visible [where vis = vis, OF wf b mem _ hid] by blast
          next
            case False
            with s1(3) t(2,3) last show ?thesis by simp
          qed
        qed
        with step s1(1,2,4) show ?thesis by simp
      next
        case True
        define scan1 where "scan1 = zsbt_tid_scan_extract_array scan item"
        note f = extract_array_facts [OF n nx e1 e2, folded scan1_def]
        have res: "scan_page_items vis cf (item # rest) scan = Inr scan1"
          using cur inrange True f(2,3)
          by (simp add: Let_def verdict_def [symmetric] scan1_def [symmetric])
        have ser1: "scan_serializable scan1 = ser"
          using Cons.prems(5) by (simp add: scan1_def zsbt_tid_scan_extract_array_def Let_def)
        have "\<not> tid_visible vis tree t"
          if "scan_nexttid scan \<le> t" "t < scan_nexttid scan1" for t
          using gap [of t] that f(1) by (simp add: max_def split: if_splits)
        with res ser1 f(2,3) show ?thesis by simp
      qed
    qed
  qed
qed

lemma scan_exact_extend:
  assumes "scan_exact vis tree n' e ser res" and "n \<le> n'"
    and "\<forall>t. n \<le> t \<and> t < n' \<and> t < e \<longrightarrow> \<not> tid_visible vis tree t"
  shows "scan_exact vis tree n e ser res"
proof (cases res)
  case (Inl err)
  with assms(1) show ?thesis by (simp add: scan_exact_def)
next
  case (Inr pair)
  obtain tid s' where pair: "pair = (tid, s')" by (cases pair)
  have "\<not> tid_visible vis tree t"
    if "n \<le> t" "t < b" "b \<le> e" "\<forall>t. n' \<le> t \<and> t < b \<longrightarrow> \<not> tid_visible vis tree t" for t b
    using that assms(3) by (cases "t < n'") auto
  with assms(1) Inr pair show ?thesis
    unfolding scan_exact_def by (simp split: prod.splits) (metis less_imp_le_nat order_refl)
qed

lemma wf_last_hikey:
  assumes wf: "tree_wf P tree chain" and b: "b < length tree"
    and nx: "zs_next (tree ! b) = None"
  shows "zs_hikey (tree ! b) = MaxPlusOneZSTid P"
proof -
  have "b \<in> set chain" using wf b by (simp add: tree_wf_def)
  then obtain j where j: "j < length chain" "chain ! j = b"
    by (auto simp: in_set_conv_nth)
  have "\<not> Suc j < length chain"
    using wf_chain_facts(3) [OF wf j(1)] j(2) nx by auto
  with j(1) have "Suc j = length chain" by simp
  with wf_chain_facts(4) [OF wf j(1)] j(2) show ?thesis by simp
qed

lemma scan_exact_immediate:
  assumes now: "\<not> scan_nexttid scan < scan_endtid scan
              \<or> scan_array_next_datum scan < scan_array_num_elements scan"
    and act: "scan_active scan" and mn: "MinZSTid \<le> scan_nexttid scan"
    and n: "n \<le> scan_nexttid scan"
    and nv: "\<forall>t. n \<le> t \<and> t < scan_nexttid scan \<and> t < scan_endtid scan
                  \<longrightarrow> \<not> tid_visible vis tree t"
  shows "\<exists>res. scan_next_loop vis cf tree scan = Some res
               \<and> scan_exact vis tree n (scan_endtid scan) (scan_serializable scan) res"
proof (cases "scan_nexttid scan < scan_endtid scan")
  case False
  then have "scan_next_loop vis cf tree scan = Some (Inr (InvalidZSTid, scan))"
    by (subst scan_next_loop.simps) simp
  then show ?thesis using False nv by (simp add: scan_exact_def)
next
  case True
  with now have ne: "scan_array_next_datum scan < scan_array_num_elements scan" by simp
  let ?scan' = "scan \<lparr> scan_array_next_datum := scan_array_next_datum scan + 1,
                        scan_nexttid := scan_nexttid scan + 1 \<rparr>"
  have r: "scan_next_loop vis cf tree scan = Some (Inr (scan_nexttid scan, ?scan'))"
    using True ne by (subst scan_next_loop.simps) simp
  have "scan_nexttid scan \<noteq> InvalidZSTid"
    using mn by (simp add: MinZSTid_def InvalidZSTid_def)
  then show ?thesis using r True act nv by (simp add: scan_exact_def)
qed

lemma scan_exact_on_page:
  assumes wf: "tree_wf P tree chain" and b: "b < length tree"
    and cov: "page_covers (tree ! b) (scan_nexttid scan)"
    and lt: "scan_nexttid scan < scan_endtid scan"
    and empty: "\<not> scan_array_next_datum scan < scan_array_num_elements scan"
    and loc: "scan_locate_page tree scan = Inr (OnPage b)"
    and act: "scan_active scan" and mn: "MinZSTid \<le> scan_nexttid scan"
    and ser: "scan_serializable scan = ser" and noc: "ser \<longrightarrow> (\<forall>xid. \<not> cf xid)"
    and emax: "scan_endtid scan \<le> MaxPlusOneZSTid P"
    and IH: "\<And>scan'. scan_endtid scan' - scan_nexttid scan'
                       < scan_endtid scan - scan_nexttid scan \<Longrightarrow>
               scan_inv vis tree scan' \<Longrightarrow> scan_active scan' \<Longrightarrow>
               MinZSTid \<le> scan_nexttid scan' \<Longrightarrow> scan_serializable scan' = ser \<Longrightarrow>
               scan_endtid scan' = scan_endtid scan \<Longrightarrow>
               \<exists>res. scan_next_loop vis cf tree scan' = Some res
                     \<and> scan_exact vis tree (scan_nexttid scan') (scan_endtid scan') ser res"
  shows "\<exists>res. scan_next_loop vis cf tree scan = Some res
               \<and> scan_exact vis tree (scan_nexttid scan) (scan_endtid scan) ser res"
proof -
  let ?page = "tree ! b"
  let ?scan0 = "scan \<lparr> scan_lastbuf := Some b \<rparr>"
  let ?e = "scan_endtid scan"
  have lok: "leaf_ok ?page" by (rule wf_leaf_ok [OF wf b])
  have unf: "scan_next_loop vis cf tree scan =
      (case scan_page_items vis cf (tiditems ?page) ?scan0 of
         Inl e \<Rightarrow> Some (Inl e)
       | Inr scan1 \<Rightarrow>
           if scan_array_next_datum scan1 < scan_array_num_elements scan1
           then scan_next_loop vis cf tree scan1
           else if zs_next ?page = Some b
           then Some (Inl NextPointerPointsToItself)
           else if zs_next ?page = None
                   \<or> scan_nexttid (scan_past_page ?page scan1)
                        \<ge> scan_endtid (scan_past_page ?page scan1)
           then Some (Inr (InvalidZSTid, scan_deactivate (scan_past_page ?page scan1)))
           else scan_next_loop vis cf tree
                  (scan_past_page ?page scan1 \<lparr> scan_lastbuf := zs_next ?page \<rparr>))"
    using lt empty loc by (subst scan_next_loop.simps) simp
  have "\<exists>scan1. scan_page_items vis cf (tiditems ?page) ?scan0 = Inr scan1
           \<and> scan_serializable scan1 = ser
           \<and> (\<forall>t. scan_nexttid ?scan0 \<le> t \<and> t < scan_nexttid scan1 \<and> t < ?e
                  \<longrightarrow> \<not> tid_visible vis tree t)
           \<and> (\<not> scan_array_next_datum scan1 < scan_array_num_elements scan1 \<longrightarrow>
                (\<forall>t. scan_nexttid scan1 \<le> t \<and> t < zs_hikey ?page \<and> t < ?e
                   \<longrightarrow> \<not> tid_visible vis tree t))"
    by (rule scan_page_items_exact [OF wf b noc, where passed = "[]"])
      (use lt cov ser in \<open>simp_all add: page_covers_def\<close>)
  then obtain scan1 where x: "scan_page_items vis cf (tiditems ?page) ?scan0 = Inr scan1"
    "scan_serializable scan1 = ser"
    "\<forall>t. scan_nexttid scan \<le> t \<and> t < scan_nexttid scan1 \<and> t < ?e
           \<longrightarrow> \<not> tid_visible vis tree t"
    "\<not> scan_array_next_datum scan1 < scan_array_num_elements scan1 \<longrightarrow>
       (\<forall>t. scan_nexttid scan1 \<le> t \<and> t < zs_hikey ?page \<and> t < ?e
          \<longrightarrow> \<not> tid_visible vis tree t)"
    by auto
  have post: "case scan_page_items vis cf (tiditems ?page) ?scan0 of
           Inl e \<Rightarrow> True
         | Inr scan1 \<Rightarrow>
             scan_endtid scan1 = scan_endtid ?scan0 \<and> scan_lastbuf scan1 = Some b
             \<and> scan_active scan1 = scan_active ?scan0
             \<and> scan_nexttid scan \<le> scan_nexttid scan1
             \<and> scan_nexttid scan1 \<le> zs_hikey ?page
             \<and> array_ok vis tree scan1"
  proof (rule scan_page_items_post [OF b])
    show "items_ordered (tiditems ?page)" using lok by (simp add: leaf_ok_def)
    show "\<forall>it\<in>set (tiditems ?page). t_tid it + t_nelements it \<le> zs_hikey ?page"
      using lok by (auto simp: leaf_ok_def items_within_def list_all_iff)
    show "scan_nexttid ?scan0 < scan_endtid ?scan0
            \<or> (\<forall>it\<in>set (tiditems ?page). scan_nexttid ?scan0 \<le> t_tid it)"
      using lt by simp
    show "scan_nexttid ?scan0 \<le> zs_hikey ?page" using cov by (simp add: page_covers_def)
    show "\<not> scan_array_next_datum ?scan0 < scan_array_num_elements ?scan0"
      using empty by simp
  qed (use lt in simp_all)
  with x(1) act have s1: "scan_endtid scan1 = ?e" "scan_lastbuf scan1 = Some b"
    "scan_active scan1" "scan_nexttid scan \<le> scan_nexttid scan1"
    "scan_nexttid scan1 \<le> zs_hikey ?page" "array_ok vis tree scan1"
    by simp_all
  have gt: "scan_nexttid scan < zs_hikey ?page" using cov by (simp add: page_covers_def)
  show ?thesis
  proof (cases "scan_array_next_datum scan1 < scan_array_num_elements scan1")
    case True
    have "\<exists>res. scan_next_loop vis cf tree scan1 = Some res
               \<and> scan_exact vis tree (scan_nexttid scan) (scan_endtid scan1)
                    (scan_serializable scan1) res"
      by (rule scan_exact_immediate [OF disjI2 [OF True] s1(3) _ s1(4)])
        (use mn s1(1,4) x(3) in auto)
    then show ?thesis using unf x(1,2) True s1(1) by simp
  next
    case none: False
    let ?scan2 = "scan_past_page ?page scan1"
    have s2: "scan_nexttid ?scan2 = zs_hikey ?page" "scan_endtid ?scan2 = ?e"
      "scan_array_next_datum ?scan2 = scan_array_next_datum scan1"
      "scan_array_num_elements ?scan2 = scan_array_num_elements scan1"
      "scan_serializable ?scan2 = ser" "scan_active ?scan2"
      using s1(1,3,5) x(2) by (auto simp: scan_past_page_def)
    have nvp: "\<not> tid_visible vis tree t"
      if "scan_nexttid scan \<le> t" "t < zs_hikey ?page" "t < ?e" for t
      using that x(3,4) none by (cases "t < scan_nexttid scan1") auto
    have fin: "scan_exact vis tree (scan_nexttid scan) ?e ser
                 (Inr (InvalidZSTid, scan_deactivate ?scan2))"
      if "?e \<le> zs_hikey ?page"
      using that s2 nvp by (simp add: scan_exact_def scan_deactivate_def)
    show ?thesis
    proof (cases "zs_next ?page")
      case None
      from wf_last_hikey [OF wf b None] emax have "?e \<le> zs_hikey ?page" by simp
      from fin [OF this] show ?thesis using unf x(1) none None by simp
    next
      case (Some nb)
      note nf = wf_next_facts [OF wf b Some]
      show ?thesis
      proof (cases "scan_nexttid ?scan2 \<ge> scan_endtid ?scan2")
        case True
        then have "?e \<le> zs_hikey ?page" using s2 by simp
        from fin [OF this] show ?thesis using unf x(1) none Some nf(2) True by simp
      next
        case False
        let ?scan3 = "?scan2 \<lparr> scan_lastbuf := Some nb \<rparr>"
        have lokn: "leaf_ok (tree ! nb)" by (rule wf_leaf_ok [OF wf nf(1)])
        have inv3: "scan_inv vis tree ?scan3"
          using nf(1,3) s2 none lokn
          by (simp add: scan_inv_def array_ok_def leaf_ok_def)
        have m3: "scan_endtid ?scan3 - scan_nexttid ?scan3
                < scan_endtid scan - scan_nexttid scan"
          using s2 gt lt False by simp
        have "\<exists>res. scan_next_loop vis cf tree ?scan3 = Some res
                     \<and> scan_exact vis tree (scan_nexttid ?scan3) (scan_endtid ?scan3) ser res"
          by (rule IH [OF m3 inv3]) (use s2 mn gt in simp_all)
        then obtain res where
          res: "scan_next_loop vis cf tree ?scan3 = Some res"
            "scan_exact vis tree (zs_hikey ?page) ?e ser res"
          using s2 by auto
        have "scan_exact vis tree (scan_nexttid scan) ?e ser res"
          by (rule scan_exact_extend [OF res(2)]) (use gt nvp in auto)
        then show ?thesis
          using unf x(1) none Some nf(2) False res(1) by simp
      qed
    qed
  qed
qed

lemma scan_locate_total:
  assumes wf: "tree_wf P tree chain" and inv: "scan_inv vis tree scan"
    and mn: "MinZSTid \<le> scan_nexttid scan" and mx: "scan_nexttid scan < MaxPlusOneZSTid P"
  shows "\<exists>w. scan_locate_page tree scan = Inr w"
proof -
  from wf_descend_total [OF wf mn mx] obtain b where
    "zsbt_descend tree (scan_nexttid scan) = Some b" by blast
  then have d: "scan_descend tree scan = Inr (OnPage b)" by (simp add: scan_descend_def)
  show ?thesis
  proof (cases "scan_lastbuf scan")
    case None
    with d show ?thesis by (simp add: scan_locate_page_def)
  next
    case (Some buf)
    with inv have "buf < length tree" by (simp add: scan_inv_def)
    with Some d show ?thesis
      by (auto simp: scan_locate_page_def split: option.splits)
  qed
qed

lemma scan_next_loop_exact:
  assumes wf: "tree_wf P tree chain" and noc: "ser \<longrightarrow> (\<forall>xid. \<not> cf xid)"
  shows "scan_inv vis tree scan \<Longrightarrow> scan_active scan \<Longrightarrow> MinZSTid \<le> scan_nexttid scan \<Longrightarrow>
         scan_serializable scan = ser \<Longrightarrow> scan_endtid scan \<le> MaxPlusOneZSTid P \<Longrightarrow>
         \<exists>res. scan_next_loop vis cf tree scan = Some res
               \<and> scan_exact vis tree (scan_nexttid scan) (scan_endtid scan) ser res"
proof (induction "scan_endtid scan - scan_nexttid scan" arbitrary: scan rule: less_induct)
  case less
  note inv = less.prems(1) and act = less.prems(2) and mn = less.prems(3)
    and ser = less.prems(4) and emax = less.prems(5)
  show ?case
  proof (cases "\<not> scan_nexttid scan < scan_endtid scan
              \<or> scan_array_next_datum scan < scan_array_num_elements scan")
    case True
    have "\<forall>t. scan_nexttid scan \<le> t \<and> t < scan_nexttid scan \<and> t < scan_endtid scan
                  \<longrightarrow> \<not> tid_visible vis tree t" by auto
    from scan_exact_immediate [OF True act mn order_refl this, of cf] ser
    show ?thesis by simp
  next
    case False
    then have lt: "scan_nexttid scan < scan_endtid scan"
      and empty: "\<not> scan_array_next_datum scan < scan_array_num_elements scan"
      by simp_all
    from lt emax have mx: "scan_nexttid scan < MaxPlusOneZSTid P" by simp
    from scan_locate_total [OF wf inv mn mx] obtain where_to where
      Inr: "scan_locate_page tree scan = Inr where_to" by blast
    have hyp: "\<exists>res. scan_next_loop vis cf tree scan'' = Some res
               \<and> scan_exact vis tree (scan_nexttid scan'') (scan_endtid scan'') ser res"
      if "scan_endtid scan'' - scan_nexttid scan'' < scan_endtid scan - scan_nexttid scan"
        "scan_inv vis tree scan''" "scan_active scan''" "MinZSTid \<le> scan_nexttid scan''"
        "scan_serializable scan'' = ser" "scan_endtid scan'' = scan_endtid scan" for scan''
      using less.hyps [OF that(1,2,3,4,5)] that(6) emax by simp
    show ?thesis
    proof (cases where_to)
      case (OnPage b)
      with Inr have loc: "scan_locate_page tree scan = Inr (OnPage b)" by simp
      from scan_locate_on_page [OF loc]
      have b: "b < length tree" and cov: "page_covers (tree ! b) (scan_nexttid scan)"
        by simp_all
      show ?thesis
        by (rule scan_exact_on_page [OF wf b cov lt empty loc act mn ser noc emax])
          (rule hyp)
    next
      case (FollowRight nb)
      with Inr have loc: "scan_locate_page tree scan = Inr (FollowRight nb)" by simp
      let ?scan' = "scan \<lparr> scan_lastbuf := Some nb \<rparr>"
      note fr = scan_locate_follow_right [OF wf inv loc]
      have step: "scan_next_loop vis cf tree scan = scan_next_loop vis cf tree ?scan'"
        using lt empty loc by (subst scan_next_loop.simps) simp
      have "\<exists>res. scan_next_loop vis cf tree ?scan' = Some res
               \<and> scan_exact vis tree (scan_nexttid ?scan') (scan_endtid ?scan') ser res"
      proof (rule scan_exact_on_page [OF wf fr(1) _ _ _ fr(3) _ _ _ noc])
        show "page_covers (tree ! nb) (scan_nexttid ?scan')" using fr(2) by simp
        show "scan_nexttid ?scan' < scan_endtid ?scan'" using lt by simp
        show "\<not> scan_array_next_datum ?scan' < scan_array_num_elements ?scan'"
          using empty by simp
        show "scan_active ?scan'" using act by simp
        show "MinZSTid \<le> scan_nexttid ?scan'" using mn by simp
        show "scan_serializable ?scan' = ser" using ser by simp
        show "scan_endtid ?scan' \<le> MaxPlusOneZSTid P" using emax by simp
        fix scan''
        assume "scan_endtid scan'' - scan_nexttid scan''
                  < scan_endtid ?scan' - scan_nexttid ?scan'"
          and "scan_inv vis tree scan''" "scan_active scan''"
          "MinZSTid \<le> scan_nexttid scan''" "scan_serializable scan'' = ser"
          "scan_endtid scan'' = scan_endtid ?scan'"
        then show "\<exists>res. scan_next_loop vis cf tree scan'' = Some res
             \<and> scan_exact vis tree (scan_nexttid scan'') (scan_endtid scan'') ser res"
          using hyp [of scan''] by simp
      qed
      then show ?thesis using step by simp
    qed
  qed
qed

lemma filter_upt_none:
  assumes "\<forall>t. a \<le> t \<and> t < e \<longrightarrow> \<not> Q t"
  shows "filter Q [a ..< e] = []"
  using assms by (auto simp: filter_empty_conv)

lemma filter_upt_first:
  assumes "a \<le> t" "t < e" "Q t" "\<forall>u. a \<le> u \<and> u < t \<longrightarrow> \<not> Q u"
  shows "filter Q [a ..< e] = t # filter Q [t + 1 ..< e]"
proof -
  have "[a ..< e] = [a ..< t] @ [t ..< e]"
    using assms(1,2) by (metis le_Suc_ex less_imp_le_nat upt_add_eq_append)
  also have "[t ..< e] = t # [t + 1 ..< e]"
    using assms(2) by (simp add: upt_conv_Cons)
  finally have "[a ..< e] = [a ..< t] @ t # [t + 1 ..< e]" .
  moreover have "filter Q [a ..< t] = []" by (rule filter_upt_none [OF assms(4)])
  ultimately show ?thesis using assms(3) by simp
qed

lemma take_pad:
  "take n (xs @ replicate (Suc n) x) = take n (xs @ replicate n x)"
proof -
  have "min (n - length xs) (Suc n) = min (n - length xs) n" by simp
  then have "take (n - length xs) (replicate (Suc n) x) = take (n - length xs) (replicate n x)"
    unfolding take_replicate by (simp only:)
  then show ?thesis unfolding take_append by (simp only:)
qed

lemma scan_next_calls_exact:
  assumes wf: "tree_wf P tree chain" and noc: "ser \<longrightarrow> (\<forall>xid. \<not> cf xid)"
  shows "scan_inv vis tree scan \<Longrightarrow> MinZSTid \<le> scan_nexttid scan \<Longrightarrow>
         scan_serializable scan = ser \<Longrightarrow> scan_endtid scan \<le> MaxPlusOneZSTid P \<Longrightarrow>
         scan_active scan \<or> scan_endtid scan \<le> scan_nexttid scan \<Longrightarrow>
         scan_next_calls n vis cf tree scan
           = Some (take n (filter (tid_visible vis tree) [scan_nexttid scan ..< scan_endtid scan]
                           @ replicate n InvalidZSTid))"
proof (induction n arbitrary: scan)
  case 0
  show ?case by simp
next
  case (Suc n)
  show ?case
  proof (cases "scan_endtid scan \<le> scan_nexttid scan")
    case True
    then have "\<not> scan_active scan \<or> scan_endtid scan \<le> scan_nexttid scan" by simp
    from scan_next_calls_finished [OF this, of "Suc n" vis cf tree] True
    show ?thesis by simp
  next
    case False
    with Suc.prems(5) have act: "scan_active scan" by simp
    from scan_next_loop_exact [OF wf noc Suc.prems(1) act Suc.prems(2,3,4)]
    obtain res where res: "scan_next_loop vis cf tree scan = Some res"
      "scan_exact vis tree (scan_nexttid scan) (scan_endtid scan) ser res" by blast
    from scan_next_loop_total [OF wf Suc.prems(1), of cf] res(1)
    have post: "scan_post vis tree (scan_nexttid scan) (scan_endtid scan) res" by simp
    have call: "zsbt_tid_scan_next vis cf tree scan = Some res"
      using act res(1) by (simp add: zsbt_tid_scan_next_def)
    from res(2) obtain tid scan' where r: "res = Inr (tid, scan')"
      by (cases res) (auto simp: scan_exact_def)
    from post r have inv': "scan_inv vis tree scan'"
      and e': "scan_endtid scan' = scan_endtid scan"
      and mono: "scan_nexttid scan \<le> scan_nexttid scan'"
      by (simp_all add: scan_post_def)
    from res(2) r have ser': "scan_serializable scan' = ser" by (simp add: scan_exact_def)
    let ?V = "\<lambda>a. filter (tid_visible vis tree) [a ..< scan_endtid scan]"
    show ?thesis
    proof (cases "tid = InvalidZSTid")
      case True
      with res(2) r have fin: "scan_endtid scan \<le> scan_nexttid scan'"
        and nv: "\<forall>t. scan_nexttid scan \<le> t \<and> t < scan_endtid scan
                     \<longrightarrow> \<not> tid_visible vis tree t"
        by (simp_all add: scan_exact_def)
      have "\<not> scan_active scan' \<or> scan_endtid scan' \<le> scan_nexttid scan'"
        using fin e' by simp
      from scan_next_calls_finished [OF this, of n vis cf tree]
      have "scan_next_calls (Suc n) vis cf tree scan
              = Some (replicate (Suc n) InvalidZSTid)"
        using call r True by simp
      moreover have "?V (scan_nexttid scan) = []" by (rule filter_upt_none [OF nv])
      ultimately show ?thesis by simp
    next
      case valid: False
      with res(2) r have act': "scan_active scan'" and lt: "tid < scan_endtid scan"
        and nv: "\<forall>t. scan_nexttid scan \<le> t \<and> t < tid \<longrightarrow> \<not> tid_visible vis tree t"
        by (simp_all add: scan_exact_def)
      from post r valid have ge: "scan_nexttid scan \<le> tid"
        and nx: "scan_nexttid scan' = tid + 1" and v: "tid_visible vis tree tid"
        by (simp_all add: scan_post_def)
      have V: "?V (scan_nexttid scan) = tid # ?V (tid + 1)"
        by (rule filter_upt_first [OF ge lt v nv])
      have "scan_next_calls n vis cf tree scan'
              = Some (take n (filter (tid_visible vis tree)
                                [scan_nexttid scan' ..< scan_endtid scan']
                              @ replicate n InvalidZSTid))"
        by (rule Suc.IH [OF inv' _ ser']) (use mono Suc.prems(2,4) e' act' in simp_all)
      then have "scan_next_calls (Suc n) vis cf tree scan
              = Some (tid # take n (?V (tid + 1) @ replicate n InvalidZSTid))"
        using call r nx e' by simp
      also have "tid # take n (?V (tid + 1) @ replicate n InvalidZSTid)
              = take (Suc n) (?V (scan_nexttid scan) @ replicate (Suc n) InvalidZSTid)"
        unfolding V using take_pad [of n "?V (tid + 1)" InvalidZSTid] by simp
      finally show ?thesis .
    qed
  qed
qed

lemma begin_scan_state:
  "scan_serializable (zsbt_tid_begin_scan tree starttid endtid scan) = scan_serializable scan"
  "MinZSTid \<le> starttid \<Longrightarrow> endtid \<le> MaxPlusOneZSTid P \<Longrightarrow> tree_wf P tree chain \<Longrightarrow>
     scan_active (zsbt_tid_begin_scan tree starttid endtid scan) \<or> endtid \<le> starttid"
proof -
  show "scan_serializable (zsbt_tid_begin_scan tree starttid endtid scan)
          = scan_serializable scan"
    by (simp add: zsbt_tid_begin_scan_def Let_def split: option.splits)
  assume a: "MinZSTid \<le> starttid" "endtid \<le> MaxPlusOneZSTid P" "tree_wf P tree chain"
  show "scan_active (zsbt_tid_begin_scan tree starttid endtid scan) \<or> endtid \<le> starttid"
  proof (cases "starttid < MaxPlusOneZSTid P")
    case True
    from wf_descend_total [OF a(3,1) True] show ?thesis
      by (auto simp: zsbt_tid_begin_scan_def Let_def)
  next
    case False
    with a(2) show ?thesis by simp
  qed
qed

text \<open>
  C1.  On a well-formed TID tree, each of any number of successive calls of
  \<open>zsbt_tid_scan_next\<close> on a scan opened by \<open>zsbt_tid_begin_scan\<close> over
  \<open>[starttid, endtid)\<close> returns, and the results are a strictly ascending run of TIDs
  followed by end markers only; every TID of the run lies in \<open>[starttid, endtid)\<close>, is
  covered by an item of the tree that is not \<open>DEAD\<close> and satisfies the visibility check,
  and is covered by no item whose \<open>DEAD\<close> flag is set.  When the range lies within the
  TIDs of the tree and the serializable conflict check raises no error, nothing is left
  out: the results of \<open>n\<close> calls are the first \<open>n\<close> of the visible TIDs of
  \<open>[starttid, endtid)\<close> in ascending order, followed by end markers.
\<close>

theorem C1_scan_next_ascending:
  assumes "tree_wf P tree chain"
  shows "(\<exists>valid k.
           scan_next_calls n zs_SatisfiesVisibility conflict tree
               (zsbt_tid_begin_scan tree starttid endtid scan)
             = Some (valid @ replicate k InvalidZSTid)
           \<and> sorted_wrt (<) valid
           \<and> (\<forall>tid\<in>set valid. tid \<noteq> InvalidZSTid \<and> starttid \<le> tid \<and> tid < endtid
                  \<and> tid_visible zs_SatisfiesVisibility tree tid \<and> \<not> tid_dead tree tid))
       \<and> (MinZSTid \<le> starttid \<and> endtid \<le> MaxPlusOneZSTid P
            \<and> (scan_serializable scan \<longrightarrow> (\<forall>xid. \<not> conflict xid)) \<longrightarrow>
          scan_next_calls n zs_SatisfiesVisibility conflict tree
               (zsbt_tid_begin_scan tree starttid endtid scan)
             = Some (take n (filter (tid_visible zs_SatisfiesVisibility tree)
                               [starttid ..< endtid]
                             @ replicate n InvalidZSTid)))"
proof (intro conjI impI)
  show "\<exists>valid k.
           scan_next_calls n zs_SatisfiesVisibility conflict tree
               (zsbt_tid_begin_scan tree starttid endtid scan)
             = Some (valid @ replicate k InvalidZSTid)
           \<and> sorted_wrt (<) valid
           \<and> (\<forall>tid\<in>set valid. tid \<noteq> InvalidZSTid \<and> starttid \<le> tid \<and> tid < endtid
                  \<and> tid_visible zs_SatisfiesVisibility tree tid \<and> \<not> tid_dead tree tid)"
    using scan_next_calls_ascending [OF assms begin_scan_inv,
        where vis = zs_SatisfiesVisibility and cf = conflict and n = n
          and starttid1 = starttid and endtid1 = endtid and scan1 = scan]
      tid_visible_not_dead [OF assms, of zs_SatisfiesVisibility]
    by (simp add: begin_scan_fields) blast
next
  assume a: "MinZSTid \<le> starttid \<and> endtid \<le> MaxPlusOneZSTid P
            \<and> (scan_serializable scan \<longrightarrow> (\<forall>xid. \<not> conflict xid))"
  let ?scan = "zsbt_tid_begin_scan tree starttid endtid scan"
  have "scan_next_calls n zs_SatisfiesVisibility conflict tree ?scan
          = Some (take n (filter (tid_visible zs_SatisfiesVisibility tree)
                            [scan_nexttid ?scan ..< scan_endtid ?scan]
                          @ replicate n InvalidZSTid))"
  proof (rule scan_next_calls_exact [OF assms, where ser = "scan_serializable scan"])
    show "scan_serializable scan \<longrightarrow> (\<forall>xid. \<not> conflict xid)" using a by simp
    show "scan_inv zs_SatisfiesVisibility tree ?scan" by (rule begin_scan_inv)
    show "MinZSTid \<le> scan_nexttid ?scan" using a by (simp add: begin_scan_fields)
    show "scan_serializable ?scan = scan_serializable scan" by (rule begin_scan_state(1))
    show "scan_endtid ?scan \<le> MaxPlusOneZSTid P" using a by (simp add: begin_scan_fields)
    show "scan_active ?scan \<or> scan_endtid ?scan \<le> scan_nexttid ?scan"
      using begin_scan_state(2) [OF _ _ assms, of starttid endtid scan] a
      by (simp add: begin_scan_fields)
  qed
  then show "scan_next_calls n zs_SatisfiesVisibility conflict tree ?scan
             = Some (take n (filter (tid_visible zs_SatisfiesVisibility tree)
                               [starttid ..< endtid]
                             @ replicate n InvalidZSTid))"
    by (simp add: begin_scan_fields)
qed

lemma two_leaf_visible:
  "filter (tid_visible all_visible two_leaf_tree) [2 ..< 8] = [4, 5]"
  by (simp add: upt_rec tid_visible_def two_leaf_tree_def item_covers_def item_is_dead_def
      ZSBT_TID_DEAD_def all_visible_def)

theorem C1_scan_next_ascending_witness:
  "scan_next_calls 4 all_visible no_conflict two_leaf_tree
       (zsbt_tid_begin_scan two_leaf_tree 2 8 blank_scan)
     = Some [4, 5, InvalidZSTid, InvalidZSTid]
   \<and> (\<exists>valid k.
        scan_next_calls 4 all_visible no_conflict two_leaf_tree
            (zsbt_tid_begin_scan two_leaf_tree 2 8 blank_scan)
          = Some (valid @ replicate k InvalidZSTid)
        \<and> sorted_wrt (<) valid
        \<and> (\<forall>tid\<in>set valid. tid \<noteq> InvalidZSTid \<and> 2 \<le> tid \<and> tid < 8
               \<and> tid_visible all_visible two_leaf_tree tid \<and> \<not> tid_dead two_leaf_tree tid))"
proof -
  note t = C1_scan_next_ascending [OF two_leaf_tree_wf, where n = 4
      and zs_SatisfiesVisibility = all_visible and conflict = no_conflict
      and starttid = 2 and endtid = 8 and scan = blank_scan]
  have h: "MinZSTid \<le> 2 \<and> 8 \<le> MaxPlusOneZSTid small_params
            \<and> (scan_serializable blank_scan \<longrightarrow> (\<forall>xid. \<not> no_conflict xid))"
    by (simp add: MinZSTid_def MaxPlusOne_small no_conflict_def)
  from t h have "scan_next_calls 4 all_visible no_conflict two_leaf_tree
       (zsbt_tid_begin_scan two_leaf_tree 2 8 blank_scan)
     = Some (take 4 (filter (tid_visible all_visible two_leaf_tree) [2 ..< 8]
                     @ replicate 4 InvalidZSTid))"
    by blast
  then have "scan_next_calls 4 all_visible no_conflict two_leaf_tree
       (zsbt_tid_begin_scan two_leaf_tree 2 8 blank_scan)
     = Some [4, 5, InvalidZSTid, InvalidZSTid]"
    unfolding two_leaf_visible by (simp add: eval_nat_numeral)
  with t show ?thesis by blast
qed






lemma attr_tids_simps [simp]:
  "attr_tids [] = []" "attr_tids (x # xs) = t_payload x @ attr_tids xs"
  "attr_tids (xs @ ys) = attr_tids xs @ attr_tids ys"
  by (simp_all add: attr_tids_def)


















end
